(* ===== verification/Caht_Prelude.thy ===== *)
theory Caht_Prelude
  imports Main "HOL-Library.Word"
begin

unbundle bit_operations_syntax

text \<open>
  Shared layer of the development: how the C program runs (results, faults, loops that may
  not return), the typed heap its pointers refer to, checked array and byte-buffer accesses,
  and the generic lemmas the components use.

  \<^item> A C call is a value of type \<open>'a comp\<close>: \<open>None\<close> when it never returns, \<open>fail f\<close> when the
    process stops or the C behaviour is undefined (see \<open>fault\<close>), \<open>ret x\<close> when it returns.
  \<^item> \<open>spec m F P\<close> is the total-correctness triple the component proofs use: \<open>m\<close> ends, a fault
    it ends with satisfies \<open>F\<close>, a value it returns satisfies \<open>P\<close>. Its equation for \<open>bindC\<close> is
    a simplification rule, so the simplifier computes weakest preconditions.
  \<^item> \<open>'a heap\<close> is the part of the C heap that holds objects of one struct type. Addresses are
    natural numbers; a pointer is an address option, with \<open>None\<close> for NULL. What malloc answers
    is an input of the model: \<open>fresh n\<close> is the block (with whatever bytes it holds) given for
    the \<open>n\<close>-th object, or \<open>None\<close> when malloc returns NULL; \<open>arr_ok n\<close> says whether an array of
    \<open>n\<close> elements can be allocated.
\<close>

named_theorems comp_simps \<open>rewriting of computations and accesses\<close>

section \<open>Computations\<close>

datatype fault =
    Exit_failure string   \<comment> \<open>exit(EXIT_FAILURE), fatal_error: the message printed\<close>
  | Assert_failed string  \<comment> \<open>assert: the condition that does not hold\<close>
  | Null_deref            \<comment> \<open>undefined: a NULL or never written pointer is followed\<close>
  | Wild_pointer          \<comment> \<open>undefined: a pointer to no live object is followed or freed\<close>
  | Out_of_bounds         \<comment> \<open>undefined: access outside the block\<close>
  | Memmove_overrun       \<comment> \<open>undefined: memmove of a range that leaves the block; server.c has one memmove\<close>

type_synonym 'a comp = "(fault + 'a) option"

abbreviation ret :: "'a \<Rightarrow> 'a comp" where
  "ret x \<equiv> Some (Inr x)"

abbreviation fail :: "fault \<Rightarrow> 'a comp" where
  "fail f \<equiv> Some (Inl f)"

definition bindC :: "'a comp \<Rightarrow> ('a \<Rightarrow> 'b comp) \<Rightarrow> 'b comp" where
  "bindC m k = Option.bind m (\<lambda>r. case r of Inl f \<Rightarrow> fail f | Inr x \<Rightarrow> k x)"

definition assertC :: "bool \<Rightarrow> string \<Rightarrow> unit comp" where
  "assertC b msg = (if b then ret () else fail (Assert_failed msg))"

text \<open>Following a pointer that may be NULL.\<close>

definition ptr :: "'a option \<Rightarrow> 'a comp" where
  "ptr p = (case p of None \<Rightarrow> fail Null_deref | Some a \<Rightarrow> ret a)"

definition spec :: "'a comp \<Rightarrow> (fault \<Rightarrow> bool) \<Rightarrow> ('a \<Rightarrow> bool) \<Rightarrow> bool" where
  "spec m F P \<longleftrightarrow> (case m of None \<Rightarrow> False | Some (Inl f) \<Rightarrow> F f | Some (Inr x) \<Rightarrow> P x)"

text \<open>The fault is a process exit (and not an assertion or undefined behaviour).\<close>

fun is_exit :: "fault \<Rightarrow> bool" where
  "is_exit (Exit_failure msg) = True"
| "is_exit _ = False"

definition no_fault :: "fault \<Rightarrow> bool" where
  "no_fault f \<longleftrightarrow> False"

lemma bindC_simps [simp, comp_simps]:
  "bindC (ret x) k = k x"
  "bindC (fail f) k = fail f"
  "bindC None k = None"
  by (simp_all add: bindC_def)

lemma bindC_mono [partial_function_mono]:
  assumes "mono_option B" and "\<And>y. mono_option (\<lambda>f. C y f)"
  shows "mono_option (\<lambda>f. bindC (B f) (\<lambda>y. C y f))"
proof -
  have "mono_option (\<lambda>f. case r of Inl e \<Rightarrow> fail e | Inr x \<Rightarrow> C x f)" for r
    using assms(2) by (cases r) (simp_all add: option.const_mono)
  then show ?thesis
    unfolding bindC_def using assms(1) by (intro bind_mono)
qed

lemma bindC_eq_ret_iff [comp_simps]:
  "bindC m k = ret y \<longleftrightarrow> (\<exists>x. m = ret x \<and> k x = ret y)"
  by (cases m; cases "the m") (auto simp: bindC_def)

lemma bindC_eq_fail_iff [comp_simps]:
  "bindC m k = fail f \<longleftrightarrow> m = fail f \<or> (\<exists>x. m = ret x \<and> k x = fail f)"
  by (cases m; cases "the m") (auto simp: bindC_def)

lemma spec_simps [simp]:
  "spec (ret x) F P \<longleftrightarrow> P x"
  "spec (fail f) F P \<longleftrightarrow> F f"
  "\<not> spec None F P"
  by (simp_all add: spec_def)

lemma spec_bindC [simp]: "spec (bindC m k) F P \<longleftrightarrow> spec m F (\<lambda>x. spec (k x) F P)"
  by (auto simp: spec_def bindC_def split: option.splits sum.splits)

lemma spec_if [simp]:
  "spec (if b then m else m') F P \<longleftrightarrow> (b \<longrightarrow> spec m F P) \<and> (\<not> b \<longrightarrow> spec m' F P)"
  by simp

lemma spec_assertC [simp]: "spec (assertC b msg) F P \<longleftrightarrow> (if b then P () else F (Assert_failed msg))"
  by (simp add: assertC_def)

lemma spec_ptr [simp]:
  "spec (ptr p) F P \<longleftrightarrow> (case p of None \<Rightarrow> F Null_deref | Some a \<Rightarrow> P a)"
  by (simp add: ptr_def split: option.splits)

lemma spec_mono:
  assumes "spec m F P" and "\<And>f. F f \<Longrightarrow> F' f" and "\<And>x. P x \<Longrightarrow> P' x"
  shows "spec m F' P'"
  using assms by (auto simp: spec_def split: option.splits sum.splits)

lemma spec_conseq:
  assumes "spec m F P" and "\<And>x. P x \<Longrightarrow> P' x"
  shows "spec m F P'"
  using assms spec_mono by blast

lemma spec_conj:
  assumes "spec m F P" and "spec m F' P'"
  shows "spec m (\<lambda>f. F f \<and> F' f) (\<lambda>x. P x \<and> P' x)"
  using assms by (auto simp: spec_def split: option.splits sum.splits)

lemma spec_ret_iff: "spec m no_fault P \<longleftrightarrow> (\<exists>x. m = ret x \<and> P x)"
  by (auto simp: spec_def no_fault_def split: option.splits sum.splits)

lemma spec_bindI: "spec n F P \<Longrightarrow> (\<And>x. P x \<Longrightarrow> spec (k x) F Q) \<Longrightarrow> spec (bindC n k) F Q"
  by (auto elim: spec_conseq)

lemma spec_retD: "spec m F P \<Longrightarrow> m = ret x \<Longrightarrow> P x"
  by simp

lemma spec_failD: "spec m F P \<Longrightarrow> m = fail f \<Longrightarrow> F f"
  by simp

lemma spec_cases:
  assumes "spec m F P"
  obtains (failed) f where "m = fail f" "F f" | (returned) x where "m = ret x" "P x"
  using assms by (auto simp: spec_def split: option.splits sum.splits)

text \<open>
  Partial correctness: what holds of the result if there is one. It serves for facts that every
  result has, added to a \<open>spec\<close> that already shows that the computation ends.
\<close>

definition post :: "'a comp \<Rightarrow> ('a \<Rightarrow> bool) \<Rightarrow> bool" where
  "post m P \<longleftrightarrow> (\<forall>x. m = ret x \<longrightarrow> P x)"

lemma post_simps [simp]:
  "post (ret x) P \<longleftrightarrow> P x"
  "post (fail f) P"
  "post None P"
  by (auto simp: post_def)

lemma post_bindC [simp]: "post (bindC m k) P \<longleftrightarrow> post m (\<lambda>x. post (k x) P)"
  by (cases m; cases "the m") (auto simp: post_def bindC_def)

lemma post_conseq: "post m P \<Longrightarrow> (\<And>x. P x \<Longrightarrow> P' x) \<Longrightarrow> post m P'"
  by (simp add: post_def)

lemma post_always: "(\<And>x. P x) \<Longrightarrow> post m P"
  by (simp add: post_def)

lemma spec_imp_post: "spec m F P \<Longrightarrow> post m P"
  by (auto simp: post_def)

lemma bindC_cong_post: "post m (\<lambda>x. k x = k' x) \<Longrightarrow> bindC m k = bindC m k'"
  by (cases m; cases "the m") (auto simp: post_def bindC_def)

lemma spec_post: "spec m F P \<Longrightarrow> post m Q \<Longrightarrow> spec m F (\<lambda>x. P x \<and> Q x)"
  by (auto simp: spec_def post_def split: option.splits sum.splits)

section \<open>Counted loops\<close>

text \<open>\<open>foldC body [a..<b] s\<close> is \<open>for (i = a; i < b; i++)\<close> with the loop's state passed along.\<close>

fun foldC :: "('i \<Rightarrow> 's \<Rightarrow> 's comp) \<Rightarrow> 'i list \<Rightarrow> 's \<Rightarrow> 's comp" where
  "foldC body [] s = ret s"
| "foldC body (i # is) s = bindC (body i s) (foldC body is)"

lemma bindC_foldC_Nil [simp]: "bindC m (foldC body []) = m"
  by (cases m; cases "the m") (auto simp: bindC_def)

lemma spec_foldC_range:
  assumes "a \<le> b" and "I a s"
    and step: "\<And>i t. a \<le> i \<Longrightarrow> i < b \<Longrightarrow> I i t \<Longrightarrow> spec (body i t) F (I (Suc i))"
  shows "spec (foldC body [a..<b] s) F (I b)"
  using assms
proof (induction "b - a" arbitrary: a s)
  case 0
  then show ?case by simp
next
  case (Suc n)
  then have "a < b" by simp
  have "spec (body a s) F (\<lambda>t. spec (foldC body [Suc a..<b] t) F (I b))"
  proof (rule spec_conseq)
    show "spec (body a s) F (I (Suc a))"
      using Suc.prems \<open>a < b\<close> by blast
  next
    fix t assume "I (Suc a) t"
    then show "spec (foldC body [Suc a..<b] t) F (I b)"
      using Suc.hyps(1) [of "Suc a" t] Suc.hyps(2) Suc.prems(3) \<open>a < b\<close> by simp
  qed
  then show ?case
    using \<open>a < b\<close> by (simp add: upt_rec [of a b])
qed

lemma bindC_ret [simp]: "bindC m (\<lambda>x. ret x) = m"
  by (cases m; cases "the m") (auto simp: bindC_def)

lemma bindC_assoc: "bindC (bindC m k) k' = bindC m (\<lambda>x. bindC (k x) k')"
  by (cases m; cases "the m") (auto simp: bindC_def)

lemma foldC_snoc: "foldC body (is @ [i]) s = bindC (foldC body is s) (body i)"
proof (induction "is" arbitrary: s)
  case Nil
  have "foldC body [] = (\<lambda>s. ret s)" by auto
  then show ?case by simp
next
  case (Cons a as)
  then have "foldC body (as @ [i]) = (\<lambda>s. bindC (foldC body as s) (body i))" by auto
  then show ?case by (simp add: bindC_assoc)
qed

section \<open>Typed heaps\<close>

record 'a heap =
  cells :: "nat \<rightharpoonup> 'a"            \<comment> \<open>the live objects\<close>
  brk :: nat                    \<comment> \<open>number of objects allocated so far; the next address\<close>
  fresh :: "nat \<Rightarrow> 'a option"    \<comment> \<open>malloc's answers\<close>
  arr_ok :: "nat \<Rightarrow> bool"        \<comment> \<open>can an array of that many elements be allocated\<close>

text \<open>
  malloc of one object: the address and the heap that holds the block, or NULL. The block's
  contents are arbitrary; \<open>shape\<close> cuts them to the size asked for (the identity for a struct of
  fixed size).
\<close>

definition malloc :: "('a \<Rightarrow> 'a) \<Rightarrow> 'a heap \<Rightarrow> (nat \<times> 'a heap) option" where
  "malloc shape h = (case fresh h (brk h) of
       None \<Rightarrow> None
     | Some c \<Rightarrow> Some (brk h, h\<lparr>cells := (cells h)(brk h \<mapsto> shape c), brk := Suc (brk h)\<rparr>))"

definition hget :: "'a heap \<Rightarrow> nat \<Rightarrow> 'a comp" where
  "hget h a = (case cells h a of None \<Rightarrow> fail Wild_pointer | Some c \<Rightarrow> ret c)"

definition hput :: "'a heap \<Rightarrow> nat \<Rightarrow> 'a \<Rightarrow> 'a heap comp" where
  "hput h a c = (case cells h a of
       None \<Rightarrow> fail Wild_pointer
     | Some _ \<Rightarrow> ret (h\<lparr>cells := (cells h)(a \<mapsto> c)\<rparr>))"

text \<open>free: a NULL pointer is ignored, a pointer to no live object is undefined.\<close>

definition hfree :: "'a heap \<Rightarrow> nat option \<Rightarrow> 'a heap comp" where
  "hfree h p = (case p of
       None \<Rightarrow> ret h
     | Some a \<Rightarrow> (case cells h a of
           None \<Rightarrow> fail Wild_pointer
         | Some _ \<Rightarrow> ret (h\<lparr>cells := (cells h)(a := None)\<rparr>)))"

definition heap_wf :: "'a heap \<Rightarrow> bool" where
  "heap_wf h \<longleftrightarrow> (\<forall>a. brk h \<le> a \<longrightarrow> cells h a = None)"

text \<open>A heap in which nothing is allocated, with an allocator that never fails.\<close>

definition empty_heap :: "'a \<Rightarrow> 'a heap" where
  "empty_heap c = \<lparr>cells = Map.empty, brk = 0, fresh = (\<lambda>n. Some c), arr_ok = (\<lambda>n. True)\<rparr>"

lemma heap_wf_empty [simp]: "heap_wf (empty_heap c)"
  by (simp add: heap_wf_def empty_heap_def)

lemma heap_wf_fresh: "heap_wf h \<Longrightarrow> cells h (brk h) = None"
  by (simp add: heap_wf_def)

lemma heap_wf_live: "heap_wf h \<Longrightarrow> cells h a = Some c \<Longrightarrow> a < brk h"
  by (metis heap_wf_def linorder_not_less option.distinct(1))

lemma heap_wf_upd [simp]:
  "heap_wf h \<Longrightarrow> cells h a = Some c \<Longrightarrow> heap_wf (h\<lparr>cells := (cells h)(a := v)\<rparr>)"
  using heap_wf_live [of h a c] by (auto simp: heap_wf_def)

lemma heap_wf_alloc [simp]:
  "heap_wf h \<Longrightarrow> heap_wf (h\<lparr>cells := (cells h)(brk h \<mapsto> c), brk := Suc (brk h)\<rparr>)"
  by (auto simp: heap_wf_def)

lemma spec_hget [simp]:
  "spec (hget h a) F P \<longleftrightarrow> (case cells h a of None \<Rightarrow> F Wild_pointer | Some c \<Rightarrow> P c)"
  by (simp add: hget_def split: option.splits)

lemma spec_hput [simp]:
  "spec (hput h a c) F P \<longleftrightarrow> (case cells h a of
       None \<Rightarrow> F Wild_pointer
     | Some _ \<Rightarrow> P (h\<lparr>cells := (cells h)(a \<mapsto> c)\<rparr>))"
  by (simp add: hput_def split: option.splits)

lemma post_hget [simp]: "post (hget h a) P \<longleftrightarrow> (\<forall>c. cells h a = Some c \<longrightarrow> P c)"
  by (simp add: hget_def split: option.splits)

lemma post_hput [simp]: "post (hput h a c) P \<longleftrightarrow> (cells h a \<noteq> None \<longrightarrow> P (h\<lparr>cells := (cells h)(a \<mapsto> c)\<rparr>))"
  by (simp add: hput_def split: option.splits)

section \<open>Arrays and byte buffers\<close>

text \<open>
  An array or buffer is the list of the elements of its block; an index outside it is a fault.
  In an array of pointers or indices \<open>None\<close> is a slot that holds NULL or was never written.
\<close>

definition aread :: "'a list \<Rightarrow> nat \<Rightarrow> 'a comp" where
  "aread xs i = (if i < length xs then ret (xs ! i) else fail Out_of_bounds)"

definition awrite :: "'a list \<Rightarrow> nat \<Rightarrow> 'a \<Rightarrow> 'a list comp" where
  "awrite xs i v = (if i < length xs then ret (xs[i := v]) else fail Out_of_bounds)"

text \<open>realloc of an array to \<open>n\<close> elements: the old elements are kept.\<close>

definition resize :: "nat \<Rightarrow> 'a option list \<Rightarrow> 'a option list" where
  "resize n xs = take n xs @ replicate (n - length xs) None"

text \<open>memcpy out of and into a buffer.\<close>

definition bread :: "8 word list \<Rightarrow> nat \<Rightarrow> nat \<Rightarrow> 8 word list comp" where
  "bread b off n = (if off + n \<le> length b then ret (take n (drop off b)) else fail Out_of_bounds)"

definition bwrite :: "8 word list \<Rightarrow> nat \<Rightarrow> 8 word list \<Rightarrow> 8 word list comp" where
  "bwrite b off bs = (if off + length bs \<le> length b
     then ret (take off b @ bs @ drop (off + length bs) b) else fail Out_of_bounds)"

lemma spec_aread [simp]:
  "spec (aread xs i) F P \<longleftrightarrow> (if i < length xs then P (xs ! i) else F Out_of_bounds)"
  by (simp add: aread_def)

lemma spec_awrite [simp]:
  "spec (awrite xs i v) F P \<longleftrightarrow> (if i < length xs then P (xs[i := v]) else F Out_of_bounds)"
  by (simp add: awrite_def)

lemma spec_bread [simp]:
  "spec (bread b off n) F P \<longleftrightarrow>
     (if off + n \<le> length b then P (take n (drop off b)) else F Out_of_bounds)"
  by (simp add: bread_def)

lemma spec_bwrite [simp]:
  "spec (bwrite b off bs) F P \<longleftrightarrow> (if off + length bs \<le> length b
     then P (take off b @ bs @ drop (off + length bs) b) else F Out_of_bounds)"
  by (simp add: bwrite_def)

lemma post_aread [simp]: "post (aread xs i) P \<longleftrightarrow> (i < length xs \<longrightarrow> P (xs ! i))"
  by (simp add: aread_def)

lemma post_awrite [simp]: "post (awrite xs i v) P \<longleftrightarrow> (i < length xs \<longrightarrow> P (xs[i := v]))"
  by (simp add: awrite_def)

lemma post_ptr [simp]: "post (ptr p) P \<longleftrightarrow> (\<forall>a. p = Some a \<longrightarrow> P a)"
  by (simp add: ptr_def split: option.splits)

lemma length_resize [simp]: "length (resize n xs) = n"
  by (simp add: resize_def)

lemma nth_resize [simp]: "i < length xs \<Longrightarrow> i < n \<Longrightarrow> resize n xs ! i = xs ! i"
  by (simp add: resize_def nth_append)

lemma take_resize [simp]: "k \<le> length xs \<Longrightarrow> k \<le> n \<Longrightarrow> take k (resize n xs) = take k xs"
  by (simp add: resize_def min_def)

lemma take_snoc_update: "n < length xs \<Longrightarrow> take (Suc n) (xs[n := v]) = take n xs @ [v]"
  by (simp add: take_Suc_conv_app_nth)

lemma take_eq_snocD:
  "take n xs = ys @ [y] \<Longrightarrow> n \<le> length xs \<Longrightarrow> n = Suc (length ys) \<and> take (n - 1) xs = ys \<and> xs ! (n - 1) = y"
proof -
  assume t: "take n xs = ys @ [y]" and n: "n \<le> length xs"
  then have l: "n = Suc (length ys)" by (metis length_append_singleton length_take min.absorb2)
  with n have "take n xs = take (n - 1) xs @ [xs ! (n - 1)]"
    by (simp add: take_Suc_conv_app_nth)
  with t l show ?thesis by simp
qed

lemma map_Some_the: "None \<notin> set xs \<Longrightarrow> map Some (map the xs) = xs"
  by (induction xs) auto

lemma map_the_snoc:
  assumes "map the xs = ys @ [y]" and "None \<notin> set xs"
  shows "xs = map Some (ys @ [y])"
proof -
  from assms(2) have "map Some (map the xs) = xs" by (rule map_Some_the)
  with assms(1) show ?thesis by metis
qed

lemma used_slot:
  assumes "None \<notin> set (take n xs)" and "i < n" and "n \<le> length xs"
  shows "xs ! i = Some (map the (take n xs) ! i)"
proof -
  have "map Some (map the (take n xs)) ! i = take n xs ! i"
    by (simp only: map_Some_the [OF assms(1)])
  then show ?thesis using assms(2,3) by simp
qed

text \<open>Taking the first element out of an array by moving the last one into its place.\<close>

lemma swap_remove_first:
  assumes "distinct xs" and "xs \<noteq> []"
  shows "distinct (take (length xs - 1) (xs[0 := xs ! (length xs - 1)]))"
    and "set (take (length xs - 1) (xs[0 := xs ! (length xs - 1)])) = set xs - {xs ! 0}"
proof -
  obtain x zs where xs: "xs = x # zs" using assms(2) by (cases xs) auto
  have "take (length xs - 1) (xs[0 := xs ! (length xs - 1)]) = (if zs = [] then [] else last zs # butlast zs)"
    by (cases zs rule: rev_cases) (auto simp: xs nth_append)
  moreover have "distinct zs" "x \<notin> set zs" using assms(1) xs by auto
  moreover have "distinct (last zs # butlast zs)" "set (last zs # butlast zs) = set zs" if "zs \<noteq> []"
    using that \<open>distinct zs\<close> by (cases zs rule: rev_cases; auto)+
  ultimately show "distinct (take (length xs - 1) (xs[0 := xs ! (length xs - 1)]))"
    and "set (take (length xs - 1) (xs[0 := xs ! (length xs - 1)])) = set xs - {xs ! 0}"
    using xs by auto
qed

text \<open>Freeing the objects an array points to, one after the other.\<close>

lemma hfree_prefix:
  assumes "distinct as" and "\<forall>a\<in>set as. cells h a \<noteq> None" and "length refs \<ge> length as"
    and "take (length as) refs = map Some as"
  shows "foldC (\<lambda>i h. bindC (aread refs i) (\<lambda>p. hfree h p)) [0..<length as] h =
    ret (h\<lparr>cells := cells h |` (- set as)\<rparr>)"
proof -
  let ?I = "\<lambda>i t. t = h\<lparr>cells := cells h |` (- set (take i as))\<rparr>"
  have step: "spec (bindC (aread refs i) (\<lambda>p. hfree t p)) no_fault (?I (Suc i))"
    if "i < length as" "?I i t" for i t
  proof -
    have r: "refs ! i = Some (as ! i)" and "i < length refs"
      using that(1) assms(3,4) nth_take [of i "length as" refs] by (auto simp del: nth_take)
    moreover have "as ! i \<notin> set (take i as)"
      using that(1) assms(1) by (auto simp: in_set_conv_nth nth_eq_iff_index_eq)
    moreover from that(1) assms(2) obtain b where "cells h (as ! i) = Some b"
      by (meson nth_mem not_None_eq)
    moreover have "(cells h |` (- set (take i as)))(as ! i := None) = cells h |` (- set (take (Suc i) as))"
      using that(1) by (auto simp: restrict_map_def fun_eq_iff take_Suc_conv_app_nth)
    ultimately show ?thesis using that(2) by (simp add: hfree_def)
  qed
  have "spec (foldC (\<lambda>i h. bindC (aread refs i) (\<lambda>p. hfree h p)) [0..<length as] h) no_fault (?I (length as))"
    by (rule spec_foldC_range) (use step in \<open>simp_all add: restrict_map_def\<close>)
  then show ?thesis by (auto simp: spec_ret_iff)
qed

section \<open>64-bit words as numbers\<close>

text \<open>A hash masked with a size minus one is an index below the size.\<close>

lemma unat_mask_less:
  fixes x cap :: "64 word"
  assumes "cap \<noteq> 0"
  shows "unat (x AND (cap - 1)) < unat cap"
proof -
  have "x AND (cap - 1) \<le> cap - 1" by (rule word_and_le1)
  moreover have "cap - 1 < cap" using assms by (simp add: word_less_nat_alt unat_minus_one unat_gt_0)
  ultimately show ?thesis by (simp add: word_less_nat_alt word_le_nat_alt)
qed

lemma unat_lt_64: "unat (w :: 64 word) < 18446744073709551616"
  using unsigned_less [where 'a = nat, of w] by simp

lemma unat_of_nat_64: "n < 18446744073709551616 \<Longrightarrow> unat (of_nat n :: 64 word) = n"
  by (simp add: unat_of_nat)

lemma unat_of_nat_16: "n < 65536 \<Longrightarrow> unat (of_nat n :: 16 word) = n"
  by (simp add: unat_of_nat)

lemma unat_of_nat_8: "n < 256 \<Longrightarrow> unat (of_nat n :: 8 word) = n"
  by (simp add: unat_of_nat)

lemma ucast_of_nat_16: "(ucast (of_nat m :: 64 word) :: 16 word) = of_nat m"
  by (simp add: unsigned_of_nat word_of_nat_eq_iff take_bit_take_bit)

lemma ucast_word_of_nat: "unat (w :: 16 word) = m \<Longrightarrow> (ucast w :: 64 word) = of_nat m"
  by (metis of_nat_unat)

end
