(* ===== verification/Machine.thy ===== *)
theory Machine
  imports Caht_Prelude
begin

text \<open>
  Machines that are driven by events from outside: \<open>step e s\<close> handles the event \<open>e\<close> in the state \<open>s\<close>,
  \<open>legal e s\<close> says that the event can occur there. \<open>runs\<close> is the relation between a state, a sequence
  of legal events that are handled without a fault, and the state they lead to. The locale states what
  an invariant of such a machine promises.
\<close>

inductive runs :: "('e \<Rightarrow> 's \<Rightarrow> 's comp) \<Rightarrow> ('e \<Rightarrow> 's \<Rightarrow> bool) \<Rightarrow> 's \<Rightarrow> 'e list \<Rightarrow> 's \<Rightarrow> bool"
  for step :: "'e \<Rightarrow> 's \<Rightarrow> 's comp" and legal :: "'e \<Rightarrow> 's \<Rightarrow> bool" where
  runs_Nil: "runs step legal s [] s"
| runs_Cons: "legal e s \<Longrightarrow> step e s = ret s1 \<Longrightarrow> runs step legal s1 es s2 \<Longrightarrow> runs step legal s (e # es) s2"

inductive_cases runs_NilE: "runs step legal s [] s'"
inductive_cases runs_ConsE: "runs step legal s (e # es) s'"

lemma runs_append: "runs step legal s es s1 \<Longrightarrow> runs step legal s1 es' s2 \<Longrightarrow> runs step legal s (es @ es') s2"
  by (induction rule: runs.induct) (auto intro: runs.intros)

lemma runs_one: "legal e s \<Longrightarrow> step e s = ret s' \<Longrightarrow> runs step legal s [e] s'"
  by (auto intro: runs.intros)

lemma runs_foldC: "runs step legal s es s' \<Longrightarrow> foldC step es s = ret s'"
  by (induction rule: runs.induct) simp_all

locale guarded_machine =
  fixes step :: "'e \<Rightarrow> 's \<Rightarrow> 's comp" and legal :: "'e \<Rightarrow> 's \<Rightarrow> bool" and inv :: "'s \<Rightarrow> bool" and stop :: "fault \<Rightarrow> bool"
  assumes step_ok: "inv s \<Longrightarrow> legal e s \<Longrightarrow> spec (step e s) stop inv"
begin

lemma runs_inv: "runs step legal s es s' \<Longrightarrow> inv s \<Longrightarrow> inv s'"
proof (induction rule: runs.induct)
  case (runs_Cons e s s1 es s2)
  then show ?case using step_ok [of s e] by simp
qed

text \<open>After any run, whatever may happen next does not go wrong.\<close>

lemma runs_next: "runs step legal s es s' \<Longrightarrow> inv s \<Longrightarrow> legal e s' \<Longrightarrow> spec (step e s') stop inv"
  using runs_inv step_ok by blast

end

end
