(* ===== verification/Recycler.thy ===== *)
theory Recycler
  imports Caht_Prelude
begin

text \<open>
  The contract that the two object pools of the server share (the buffer slab of slab.c and the
  operation pool of op_pool.c): objects are handed out and taken back, the object returned last
  is handed out first, and a new one is allocated only when none is idle. The server's handlers
  rely on this contract only.

  \<open>idle s\<close> is the stack of the objects in the pool (the top is the last element), \<open>known s\<close> is
  every object the pool has made, and \<open>ready s x\<close> is what the caller owes before it returns \<open>x\<close>.
  The objects in use are \<open>known s - set (idle s)\<close>.
\<close>

text \<open>Taking \<open>n\<close> objects one after the other.\<close>

fun take_many :: "('s \<Rightarrow> ('o \<times> 's) comp) \<Rightarrow> nat \<Rightarrow> 's \<Rightarrow> ('o list \<times> 's) comp" where
  "take_many tk 0 s = ret ([], s)"
| "take_many tk (Suc n) s =
     bindC (tk s) (\<lambda>(x, s'). bindC (take_many tk n s') (\<lambda>(xs, s''). ret (x # xs, s'')))"

locale recycler =
  fixes inv :: "'s \<Rightarrow> bool"
    and idle :: "'s \<Rightarrow> 'o list"
    and known :: "'s \<Rightarrow> 'o set"
    and ready :: "'s \<Rightarrow> 'o \<Rightarrow> bool"
    and take_obj :: "'s \<Rightarrow> ('o \<times> 's) comp"
    and give_obj :: "'s \<Rightarrow> 'o \<Rightarrow> 's comp"
  assumes idle_known: "inv s \<Longrightarrow> set (idle s) \<subseteq> known s"
    and idle_distinct: "inv s \<Longrightarrow> distinct (idle s)"
    and take_reuse: "inv s \<Longrightarrow> idle s = xs @ [x] \<Longrightarrow>
      spec (take_obj s) no_fault (\<lambda>(y, t). y = x \<and> inv t \<and> idle t = xs \<and> known t = known s)"
    and take_new: "inv s \<Longrightarrow> idle s = [] \<Longrightarrow>
      spec (take_obj s) is_exit
        (\<lambda>(y, t). y \<notin> known s \<and> inv t \<and> idle t = [] \<and> known t = insert y (known s))"
    and give_back: "inv s \<Longrightarrow> x \<in> known s \<Longrightarrow> x \<notin> set (idle s) \<Longrightarrow> ready s x \<Longrightarrow>
      spec (give_obj s x) is_exit
        (\<lambda>t. inv t \<and> idle t = idle s @ [x] \<and> known t = known s)"
begin

text \<open>Taking an object: it was not in use before, and it is the only one that comes into use.\<close>

lemma take_in_use:
  assumes "inv s"
  shows "spec (take_obj s) is_exit (\<lambda>(y, t). inv t \<and> y \<notin> known s - set (idle s) \<and>
    known t - set (idle t) = insert y (known s - set (idle s)))"
proof (cases "idle s" rule: rev_cases)
  case Nil
  then show ?thesis
    by (intro spec_conseq [OF take_new [OF assms Nil]]) auto
next
  case (snoc xs x)
  have "distinct (xs @ [x])" and "set (xs @ [x]) \<subseteq> known s"
    using idle_distinct [OF assms] idle_known [OF assms] snoc by auto
  then show ?thesis
    using snoc by (intro spec_mono [OF take_reuse [OF assms snoc]]) (auto simp: no_fault_def)
qed

text \<open>Returning an object takes exactly that object out of use.\<close>

lemma give_in_use:
  assumes "inv s" and "x \<in> known s - set (idle s)" and "ready s x"
  shows "spec (give_obj s x) is_exit (\<lambda>t. inv t \<and>
    known t - set (idle t) = (known s - set (idle s)) - {x})"
  using assms by (intro spec_conseq [OF give_back]) auto

text \<open>The object returned last is the one handed out next.\<close>

lemma give_then_take:
  assumes "inv s" and "x \<in> known s - set (idle s)" and "ready s x"
  shows "spec (bindC (give_obj s x) take_obj) is_exit (\<lambda>(y, t). y = x \<and> inv t \<and>
    idle t = idle s \<and> known t = known s)"
proof -
  have "spec (take_obj t) is_exit (\<lambda>(y, u). y = x \<and> inv u \<and> idle u = idle s \<and> known u = known s)"
    if "inv t \<and> idle t = idle s @ [x] \<and> known t = known s" for t
    using that by (intro spec_mono [OF take_reuse [of t "idle s" x]]) (auto simp: no_fault_def)
  then show ?thesis
    using assms by (simp, intro spec_conseq [OF give_back]) auto
qed

text \<open>Objects taken one after the other are all different, and none of them was in use.\<close>

lemma take_many_distinct:
  assumes "inv s"
  shows "spec (take_many take_obj n s) is_exit (\<lambda>(xs, t). inv t \<and> length xs = n \<and> distinct xs \<and>
    set xs \<inter> (known s - set (idle s)) = {} \<and>
    known t - set (idle t) = set xs \<union> (known s - set (idle s)))"
  using assms
proof (induction n arbitrary: s)
  case 0
  then show ?case by simp
next
  case (Suc n)
  have "spec (take_many take_obj n t) is_exit (\<lambda>(xs, u). inv u \<and> Suc (length xs) = Suc n \<and>
      distinct (y # xs) \<and> set (y # xs) \<inter> (known s - set (idle s)) = {} \<and>
      known u - set (idle u) = set (y # xs) \<union> (known s - set (idle s)))"
    if "inv t" "y \<notin> known s - set (idle s)"
      "known t - set (idle t) = insert y (known s - set (idle s))" for y t
    using that by (intro spec_conseq [OF Suc.IH [of t]]) auto
  then show ?case
    by (simp add: case_prod_unfold)
      (intro spec_conseq [OF take_in_use [OF Suc.prems]], auto simp: case_prod_unfold)
qed

end

end
