(* ===== verification/Utils.thy ===== *)
theory Utils
  imports Caht_Prelude
begin

text \<open>
  utils.c: the allocation and system-call wrappers that stop the process on failure, byte
  order conversion, integers in buffers, and the prime search.

  The host's byte order is a parameter (\<open>endian\<close>): \<open>mem_bytes e n w\<close> are the \<open>n\<close> bytes the word
  \<open>w\<close> has in memory, \<open>mem_word e bs\<close> is the word read from them. The library functions htons,
  htonl, ntohs, ntohl are given by what they are for: the memory image of \<open>htonl x\<close> is \<open>x\<close> in
  network (big-endian) order. htonll and ntohll are the program's own and are translated as
  written. Descriptors, flags and other C ints that are only compared are of type \<open>int\<close>.
\<close>

section \<open>Definitions\<close>

subsection \<open>Wrappers that do not return on failure\<close>

definition fatal_error :: "string \<Rightarrow> 'a comp" where
  "fatal_error msg = fail (Exit_failure msg)"

definition must_malloc :: "('a \<Rightarrow> 'a) \<Rightarrow> 'a heap \<Rightarrow> string \<Rightarrow> (nat \<times> 'a heap) comp" where
  "must_malloc shape h msg = (case malloc shape h of None \<Rightarrow> fatal_error msg | Some r \<Rightarrow> ret r)"

text \<open>
  The same wrapper where the block is an array of \<open>n\<close> pointers or indices. The number of elements is not
  bounded: an array whose size in bytes reaches \<open>2\<^sup>6\<^sup>4\<close> cannot be allocated, so that the product wraps only
  for pools that do not fit in memory.
\<close>

definition must_malloc_arr :: "'a heap \<Rightarrow> nat \<Rightarrow> string \<Rightarrow> nat option list comp" where
  "must_malloc_arr h n msg = (if arr_ok h n then ret (replicate n None) else fatal_error msg)"

definition must_calloc :: "'a heap \<Rightarrow> nat \<Rightarrow> string \<Rightarrow> nat option list comp" where
  "must_calloc h n msg = (if arr_ok h n then ret (replicate n None) else fatal_error msg)"

definition must_realloc :: "'a heap \<Rightarrow> nat option list \<Rightarrow> nat \<Rightarrow> string \<Rightarrow> nat option list comp" where
  "must_realloc h xs n msg = (if arr_ok h n then ret (resize n xs) else fatal_error msg)"

text \<open>\<open>close\<close>, \<open>shutdown\<close> and \<open>fcntl\<close> are system calls: parameters that give the returned int.\<close>

definition must_close :: "(int \<Rightarrow> int) \<Rightarrow> int \<Rightarrow> string \<Rightarrow> unit comp" where
  "must_close close_sys fd msg = (if close_sys fd < 0 then fatal_error msg else ret ())"

definition must_shutdown :: "(int \<Rightarrow> int) \<Rightarrow> int \<Rightarrow> string \<Rightarrow> unit comp" where
  "must_shutdown shutdown_sys fd msg = (if shutdown_sys fd < 0 then fatal_error msg else ret ())"

definition set_nonblocking ::
  "(int \<Rightarrow> 32 word) \<Rightarrow> (int \<Rightarrow> 32 word \<Rightarrow> int) \<Rightarrow> 32 word \<Rightarrow> int \<Rightarrow> unit comp" where
  "set_nonblocking getfl setfl o_nonblock fd =
     (let flags = getfl fd in
      if flags = - 1 then fatal_error ''fcntl(F_GETFL)''
      else if setfl fd (flags OR o_nonblock) = - 1 then fatal_error ''fcntl(F_SETFL, O_NONBLOCK)''
      else ret ())"

subsection \<open>Byte order\<close>

datatype endian = LE | BE

definition be_bytes :: "nat \<Rightarrow> 'a::len word \<Rightarrow> 8 word list" where
  "be_bytes n w = map (\<lambda>i. ucast (drop_bit (8 * i) w)) (rev [0..<n])"

definition be_word :: "8 word list \<Rightarrow> 'a::len word" where
  "be_word bs = foldl (\<lambda>a b. push_bit 8 a OR ucast b) 0 bs"

definition mem_bytes :: "endian \<Rightarrow> nat \<Rightarrow> 'a::len word \<Rightarrow> 8 word list" where
  "mem_bytes e n w = (case e of BE \<Rightarrow> be_bytes n w | LE \<Rightarrow> rev (be_bytes n w))"

definition mem_word :: "endian \<Rightarrow> 8 word list \<Rightarrow> 'a::len word" where
  "mem_word e bs = (case e of BE \<Rightarrow> be_word bs | LE \<Rightarrow> be_word (rev bs))"

definition htons :: "endian \<Rightarrow> 16 word \<Rightarrow> 16 word" where
  "htons e x = mem_word e (be_bytes 2 x)"

definition ntohs :: "endian \<Rightarrow> 16 word \<Rightarrow> 16 word" where
  "ntohs e x = be_word (mem_bytes e 2 x)"

definition htonl :: "endian \<Rightarrow> 32 word \<Rightarrow> 32 word" where
  "htonl e x = mem_word e (be_bytes 4 x)"

definition ntohl :: "endian \<Rightarrow> 32 word \<Rightarrow> 32 word" where
  "ntohl e x = be_word (mem_bytes e 4 x)"

definition htonll :: "endian \<Rightarrow> 64 word \<Rightarrow> 64 word" where
  "htonll e val = (case e of
       LE \<Rightarrow> ucast (htonl LE (ucast (drop_bit 32 val))) OR
             push_bit 32 (ucast (htonl LE (ucast (val AND 0xFFFFFFFF))))
     | BE \<Rightarrow> val)"

definition ntohll :: "endian \<Rightarrow> 64 word \<Rightarrow> 64 word" where
  "ntohll e val = (case e of
       LE \<Rightarrow> ucast (ntohl LE (ucast (drop_bit 32 val))) OR
             push_bit 32 (ucast (ntohl LE (ucast (val AND 0xFFFFFFFF))))
     | BE \<Rightarrow> val)"

text \<open>An \<open>int\<close> of the C program is the 32-bit word of its two's complement.\<close>

definition read_int_from_buffer :: "endian \<Rightarrow> 8 word list \<Rightarrow> 32 word comp" where
  "read_int_from_buffer e b =
     bindC (bread b 0 4) (\<lambda>bs. let network_value = mem_word e bs in ret (ntohl e network_value))"

definition write_int_to_buffer :: "endian \<Rightarrow> 8 word list \<Rightarrow> 32 word \<Rightarrow> 8 word list comp" where
  "write_int_to_buffer e b v =
     (let network_value = htonl e v in bwrite b 0 (mem_bytes e 4 network_value))"

subsection \<open>Primes\<close>

text \<open>The loop's counter is a \<open>size_t\<close>: \<open>i * i\<close> wraps, and the loop has no other bound.\<close>

partial_function (option) is_prime_loop :: "64 word \<Rightarrow> 64 word \<Rightarrow> bool option" where
  "is_prime_loop n i =
     (if i * i \<le> n then (if n mod i = 0 then Some False else is_prime_loop n (i + 2))
      else Some True)"

declare is_prime_loop.simps [code]

definition is_prime :: "64 word \<Rightarrow> bool option" where
  "is_prime n =
     (if n \<le> 1 then Some False
      else if n = 2 then Some True
      else if n mod 2 = 0 then Some False
      else is_prime_loop n 3)"

partial_function (option) closest_prime :: "64 word \<Rightarrow> 64 word option" where
  "closest_prime n = Option.bind (is_prime n) (\<lambda>b. if \<not> b then closest_prime (n + 1) else Some n)"

declare closest_prime.simps [code]

section \<open>Byte lemmas\<close>

lemma length_be_bytes [simp]: "length (be_bytes n w) = n"
  by (simp add: be_bytes_def)

lemma length_mem_bytes [simp]: "length (mem_bytes e n w) = n"
  by (cases e) (simp_all add: mem_bytes_def)

lemma be_bytes_Suc: "be_bytes (Suc n) w = ucast (drop_bit (8 * n) w) # be_bytes n w"
  by (simp add: be_bytes_def)

lemma be_bytes_0 [simp]: "be_bytes 0 w = []"
  by (simp add: be_bytes_def)

lemma be_bytes_snoc: "be_bytes (Suc n) w = be_bytes n (drop_bit 8 w) @ [ucast w]"
  by (induction n) (simp_all add: be_bytes_Suc drop_bit_drop_bit add.commute)

lemma be_word_snoc: "be_word (bs @ [b]) = push_bit 8 (be_word bs) OR ucast b"
  by (simp add: be_word_def)

lemma be_word_Nil [simp]: "be_word [] = 0"
  by (simp add: be_word_def)

lemma take_bit_split:
  fixes w :: "'a::len word"
  shows "push_bit n (ucast (ucast (drop_bit n w) :: 8 word)) OR take_bit n w = take_bit (n + 8) w"
  by (rule bit_word_eqI) (auto simp: bit_simps)

lemma foldl_be_bytes:
  fixes w :: "'a::len word"
  shows "foldl (\<lambda>a b. push_bit 8 a OR ucast b) a (be_bytes n w) =
    push_bit (8 * n) a OR take_bit (8 * n) w"
proof (induction n arbitrary: a)
  case 0
  then show ?case by simp
next
  case (Suc n)
  have "push_bit (8 * n) (push_bit 8 a OR ucast (ucast (drop_bit (8 * n) w) :: 8 word)) OR take_bit (8 * n) w
      = push_bit (8 * n + 8) a OR take_bit (8 * n + 8) w"
    using take_bit_split [of "8 * n" w] by (simp add: push_bit_or push_bit_push_bit or.assoc add.commute)
  then show ?case
    using Suc by (simp add: be_bytes_Suc add.commute)
qed

lemma be_word_be_bytes [simp]:
  fixes w :: "'a::len word"
  shows "LENGTH('a) \<le> 8 * n \<Longrightarrow> be_word (be_bytes n w) = w"
  using foldl_be_bytes [of 0 n w] by (simp add: be_word_def take_bit_word_eq_self)

lemma be_bytes_be_word:
  "8 * length bs \<le> LENGTH('a::len) \<Longrightarrow> be_bytes (length bs) (be_word bs :: 'a word) = bs"
proof (induction bs rule: rev_induct)
  case Nil
  then show ?case by simp
next
  case (snoc b bs)
  let ?w = "be_word bs :: 'a word"
  have low: "ucast (push_bit 8 ?w OR ucast b) = b"
    using snoc.prems by (intro bit_word_eqI) (auto simp: bit_simps)
  have high: "be_bytes (length bs) (drop_bit 8 (push_bit 8 ?w OR ucast b)) = be_bytes (length bs) ?w"
  proof -
    have "ucast (drop_bit (8 * i) (drop_bit 8 (push_bit 8 ?w OR ucast b))) = (ucast (drop_bit (8 * i) ?w) :: 8 word)"
      if "i < length bs" for i
      using that snoc.prems by (intro bit_word_eqI) (auto simp: bit_simps dest: bit_imp_le_length)
    then show ?thesis by (simp add: be_bytes_def)
  qed
  show ?case
    using snoc low high by (simp add: be_word_snoc be_bytes_snoc)
qed

lemma be_bytes_inject:
  fixes v w :: "'a::len word"
  assumes "LENGTH('a) \<le> 8 * n" and "be_bytes n v = be_bytes n w"
  shows "v = w"
  using assms be_word_be_bytes by metis

lemma mem_word_bytes [simp]:
  fixes w :: "'a::len word"
  shows "LENGTH('a) \<le> 8 * n \<Longrightarrow> mem_word e (mem_bytes e n w) = w"
  by (cases e) (simp_all add: mem_word_def mem_bytes_def)

lemma mem_bytes_word:
  "length bs = n \<Longrightarrow> 8 * n \<le> LENGTH('a::len) \<Longrightarrow> mem_bytes e n (mem_word e bs :: 'a word) = bs"
  using be_bytes_be_word [where 'a = 'a, of bs] be_bytes_be_word [where 'a = 'a, of "rev bs"]
  by (cases e) (simp_all add: mem_word_def mem_bytes_def)

lemma mem_bytes_htons [simp]: "mem_bytes e 2 (htons e x) = be_bytes 2 x"
  by (simp add: htons_def mem_bytes_word)

lemma mem_bytes_htonl [simp]: "mem_bytes e 4 (htonl e x) = be_bytes 4 x"
  by (simp add: htonl_def mem_bytes_word)

lemma ntohs_mem_word [simp]: "length bs = 2 \<Longrightarrow> ntohs e (mem_word e bs) = be_word bs"
  by (simp add: ntohs_def mem_bytes_word)

lemma ntohl_mem_word [simp]: "length bs = 4 \<Longrightarrow> ntohl e (mem_word e bs) = be_word bs"
  by (simp add: ntohl_def mem_bytes_word)

lemma be_bytes_8_split:
  fixes v :: "64 word"
  shows "be_bytes 8 v = be_bytes 4 (ucast (drop_bit 32 v) :: 32 word) @ be_bytes 4 (ucast v :: 32 word)"
proof -
  have hi: "ucast (drop_bit (8 * (4 + i)) v) = (ucast (drop_bit (8 * i) (ucast (drop_bit 32 v) :: 32 word)) :: 8 word)"
    and lo: "ucast (drop_bit (8 * i) v) = (ucast (drop_bit (8 * i) (ucast v :: 32 word)) :: 8 word)"
    if "i < 4" for i
    using that by (auto intro!: bit_word_eqI simp: bit_simps ac_simps)
  show ?thesis
    using hi [of 0] hi [of 1] hi [of 2] hi [of 3] lo [of 0] lo [of 1] lo [of 2] lo [of 3]
    by (simp add: be_bytes_def upt_rec)
qed

text \<open>The 64-bit word with the given low and high halves.\<close>

definition join_words :: "32 word \<Rightarrow> 32 word \<Rightarrow> 64 word" where
  "join_words lo hi = ucast lo OR push_bit 32 (ucast hi)"

lemma join_words_halves [simp]:
  "ucast (drop_bit 32 (join_words lo hi)) = hi"
  "ucast (join_words lo hi) = lo"
  unfolding join_words_def by (rule bit_word_eqI; auto simp: bit_simps dest: bit_imp_le_length)+

lemma join_words_of_halves: "join_words (ucast v) (ucast (drop_bit 32 v)) = v"
  unfolding join_words_def by (rule bit_word_eqI) (auto simp: bit_simps dest: bit_imp_le_length)

lemma ucast_and_low: "(ucast ((v :: 64 word) AND 0xFFFFFFFF) :: 32 word) = ucast v"
proof -
  have "(0xFFFFFFFF :: 64 word) = mask 32" by (simp add: mask_eq_exp_minus_1)
  moreover have "(ucast (v AND mask 32) :: 32 word) = ucast v"
    by (rule bit_word_eqI) (auto simp: bit_simps)
  ultimately show ?thesis by simp
qed

lemma htonll_LE: "htonll LE x = join_words (htonl LE (ucast (drop_bit 32 x))) (htonl LE (ucast x))"
  by (simp add: htonll_def ucast_and_low join_words_def)

lemma ntohll_LE: "ntohll LE x = join_words (ntohl LE (ucast (drop_bit 32 x))) (ntohl LE (ucast x))"
  by (simp add: ntohll_def ucast_and_low join_words_def)

text \<open>On either host, the bytes of \<open>htonll x\<close> in memory are \<open>x\<close> in network order.\<close>

lemma mem_bytes_htonll [simp]: "mem_bytes e 8 (htonll e x) = be_bytes 8 x"
proof (cases e)
  case BE
  then show ?thesis by (simp add: mem_bytes_def htonll_def)
next
  case LE
  let ?hi = "htonl LE (ucast x)" and ?lo = "htonl LE (ucast (drop_bit 32 x))"
  have "mem_bytes LE 8 (htonll LE x) = mem_bytes LE 4 ?lo @ mem_bytes LE 4 ?hi"
    by (simp add: htonll_LE mem_bytes_def be_bytes_8_split [of "join_words ?lo ?hi"])
  with LE show ?thesis
    by (simp add: be_bytes_8_split [of x])
qed

lemma ntohll_htonll [simp]: "ntohll e (htonll e x) = x"
proof (cases e)
  case BE
  then show ?thesis by (simp add: ntohll_def htonll_def)
next
  case LE
  have "ntohl LE (htonl LE y) = y" for y
    using ntohl_mem_word [of "be_bytes 4 y" LE] by (simp add: htonl_def)
  with LE show ?thesis
    by (simp add: ntohll_LE htonll_LE join_words_of_halves)
qed

lemma ntohll_mem_word [simp]:
  assumes "length bs = 8"
  shows "ntohll e (mem_word e bs) = be_word bs"
proof -
  have "mem_bytes e 8 (htonll e (be_word bs)) = bs"
    using be_bytes_be_word [where 'a = 64, of bs] assms by simp
  then have "mem_word e bs = htonll e (be_word bs)"
    using mem_word_bytes [of 8 e "htonll e (be_word bs)"] by simp
  then show ?thesis by simp
qed

section \<open>Primes\<close>

definition prime_nat :: "nat \<Rightarrow> bool" where
  "prime_nat n \<longleftrightarrow> 1 < n \<and> (\<forall>d. d dvd n \<longrightarrow> d = 1 \<or> d = n)"

text \<open>\<open>(2\<^sup>3\<^sup>2 - 1)\<^sup>2\<close>: below it the loop of \<open>is_prime\<close> stops before \<open>i * i\<close> wraps.\<close>

definition prime_limit :: nat where
  "prime_limit = 18446744065119617025"

lemma prime_nat_sqrt:
  "prime_nat n \<longleftrightarrow> 1 < n \<and> (\<forall>d. 2 \<le> d \<and> d * d \<le> n \<longrightarrow> \<not> d dvd n)"
proof (intro iffI conjI allI impI notI; (elim conjE)?)
  fix d assume "prime_nat n" "2 \<le> d" "d * d \<le> n" "d dvd n"
  then have "d = n" "1 < n" by (auto simp: prime_nat_def)
  with \<open>d * d \<le> n\<close> show False using nat_mult_le_cancel_disj [of n n 1] by simp
next
  assume "1 < n" and small: "\<forall>d. 2 \<le> d \<and> d * d \<le> n \<longrightarrow> \<not> d dvd n"
  have "d = 1 \<or> d = n" if "d dvd n" for d
  proof (rule ccontr)
    assume *: "\<not> (d = 1 \<or> d = n)"
    from that obtain e where n: "n = d * e" by (auto elim: dvdE)
    have "d \<noteq> 0" "d \<noteq> 1" "e \<noteq> 1" using n * \<open>1 < n\<close> by auto
    moreover have "e \<noteq> 0" using n \<open>1 < n\<close> by (intro notI) simp
    ultimately have de: "2 \<le> d" "2 \<le> e" by linarith+
    have "d * d \<le> n \<or> e * e \<le> n" using n by (cases d e rule: le_cases) auto
    with small de n show False by auto
  qed
  with \<open>1 < n\<close> show "prime_nat n" by (simp add: prime_nat_def)
qed (simp add: prime_nat_def)

text \<open>In the range of the loop neither the square of the divisor nor the remainder wraps.\<close>

lemma is_prime_loop_tests:
  assumes "i \<le> 4294967295" and "n < prime_limit"
  shows "of_nat i * of_nat i \<le> (of_nat n :: 64 word) \<longleftrightarrow> i * i \<le> n"
    and "of_nat n mod of_nat i = (0 :: 64 word) \<longleftrightarrow> i dvd n"
proof -
  have n: "unat (of_nat n :: 64 word) = n" using assms(2) by (simp add: unat_of_nat_64 prime_limit_def)
  have i: "unat (of_nat i :: 64 word) = i" using assms(1) by (simp add: unat_of_nat_64)
  have "i * i \<le> 4294967295 * 4294967295" using assms(1) by (rule mult_le_mono) (rule assms(1))
  then have "unat (of_nat i * of_nat i :: 64 word) = i * i"
    by (simp add: unat_of_nat_64 flip: of_nat_mult)
  then show "of_nat i * of_nat i \<le> (of_nat n :: 64 word) \<longleftrightarrow> i * i \<le> n"
    by (simp only: word_le_nat_alt n)
  show "of_nat n mod of_nat i = (0 :: 64 word) \<longleftrightarrow> i dvd n"
    using n i unat_mod [of "of_nat n :: 64 word" "of_nat i"] by (simp add: word_unat_eq_iff dvd_eq_mod_eq_0)
qed

lemma is_prime_loop_correct:
  assumes "odd n" and "odd i" and "3 \<le> i" and "i \<le> 4294967295" and "n < prime_limit"
    and "\<forall>d. 2 \<le> d \<and> d < i \<longrightarrow> \<not> d dvd n"
  shows "is_prime_loop (of_nat n) (of_nat i) = Some (\<forall>d. 2 \<le> d \<and> d * d \<le> n \<longrightarrow> \<not> d dvd n)"
  using assms
proof (induction "4294967295 - i" arbitrary: i rule: less_induct)
  case less
  note test = is_prime_loop_tests(1) [OF less.prems(4,5)] and md = is_prime_loop_tests(2) [OF less.prems(4,5)]
  show ?case
  proof (cases "i * i \<le> n")
    case False
    have "\<not> d dvd n" if "2 \<le> d" "d * d \<le> n" for d
    proof -
      have "d < i" using that(2) False by (metis linorder_not_less mult_le_mono order_trans)
      with less.prems(6) that(1) show ?thesis by blast
    qed
    with False test show ?thesis by (simp add: is_prime_loop.simps)
  next
    case True
    show ?thesis
    proof (cases "i dvd n")
      case True
      with \<open>i * i \<le> n\<close> less.prems(3) have "\<not> (\<forall>d. 2 \<le> d \<and> d * d \<le> n \<longrightarrow> \<not> d dvd n)"
        by (auto intro!: exI [of _ i])
      with True \<open>i * i \<le> n\<close> test md show ?thesis by (simp add: is_prime_loop.simps)
    next
      case False
      have "i < 4294967295"
      proof (rule ccontr)
        assume "\<not> i < 4294967295"
        with less.prems(4) have "i = 4294967295" by simp
        with \<open>i * i \<le> n\<close> less.prems(5) show False by (simp add: prime_limit_def)
      qed
      then have lt: "i + 2 \<le> 4294967295" using less.prems(2) by presburger
      have "\<not> d dvd n" if "2 \<le> d" "d < i + 2" for d
      proof -
        have "d < i \<or> d = i \<or> d = Suc i" using that by auto
        moreover have "\<not> Suc i dvd n" using less.prems(1,2) by (meson dvd_trans even_Suc)
        ultimately show ?thesis using less.prems(6) that(1) False by blast
      qed
      then have "is_prime_loop (of_nat n) (of_nat (i + 2)) = Some (\<forall>d. 2 \<le> d \<and> d * d \<le> n \<longrightarrow> \<not> d dvd n)"
        by (intro less.hyps) (use lt less.prems in auto)
      with False \<open>i * i \<le> n\<close> test md show ?thesis
        by (subst is_prime_loop.simps) (simp add: add.commute)
    qed
  qed
qed

lemma is_prime_correct:
  assumes "unat n < prime_limit"
  shows "is_prime n = Some (prime_nat (unat n))"
proof (cases "unat n \<le> 2 \<or> even (unat n)")
  case True
  have "n \<le> 1 \<longleftrightarrow> unat n \<le> 1" "n = 2 \<longleftrightarrow> unat n = 2" "n mod 2 = 0 \<longleftrightarrow> even (unat n)"
    by (simp_all add: word_le_nat_alt word_unat_eq_iff unat_mod even_iff_mod_2_eq_zero)
  moreover have "prime_nat 2" by (auto simp: prime_nat_def dest: dvd_imp_le) (metis dvd_0_left_iff le_neq_implies_less less_2_cases numeral_2_eq_2 One_nat_def zero_neq_numeral dvd_imp_le zero_less_numeral)
  moreover have "\<not> prime_nat (unat n)" if "even (unat n)" "unat n \<noteq> 2"
    using that by (auto simp: prime_nat_def)
  ultimately show ?thesis
    using True by (auto simp: is_prime_def prime_nat_def le_Suc_eq numeral_2_eq_2)
next
  case False
  then have odd: "odd (unat n)" "3 \<le> unat n" by auto
  have c: "\<not> n \<le> 1" "n \<noteq> 2" "n mod 2 \<noteq> 0"
    using odd by (auto simp: word_le_nat_alt word_unat_eq_iff unat_mod odd_iff_mod_2_eq_one)
  have "\<not> d dvd unat n" if "2 \<le> d" "d < 3" for d
    using that odd(1) by (cases "d = 2") auto
  then have "is_prime_loop (of_nat (unat n)) (of_nat 3) = Some (\<forall>d. 2 \<le> d \<and> d * d \<le> unat n \<longrightarrow> \<not> d dvd unat n)"
    by (intro is_prime_loop_correct) (use odd assms in auto)
  with c odd(2) show ?thesis by (simp add: is_prime_def prime_nat_sqrt)
qed

lemma closest_prime_finds:
  assumes "prime_nat p" and "unat n \<le> p" and "p < prime_limit"
  shows "\<exists>q. closest_prime n = Some q \<and> prime_nat (unat q) \<and> unat n \<le> unat q \<and>
    (\<forall>r. prime_nat r \<and> unat n \<le> r \<longrightarrow> unat q \<le> r)"
  using assms
proof (induction "p - unat n" arbitrary: n rule: less_induct)
  case less
  have lim: "unat n < prime_limit" using less.prems by simp
  show ?case
  proof (cases "prime_nat (unat n)")
    case True
    then show ?thesis using is_prime_correct [OF lim] by (auto simp: closest_prime.simps)
  next
    case False
    then have "unat n < p" using less.prems by (metis le_neq_implies_less)
    moreover have s: "unat (n + 1) = Suc (unat n)"
      using lim by (simp add: unat_word_ariths prime_limit_def)
    ultimately have "p - unat (n + 1) < p - unat n" "unat (n + 1) \<le> p" by simp_all
    then obtain q where q: "closest_prime (n + 1) = Some q" "prime_nat (unat q)" "unat (n + 1) \<le> unat q"
      "\<forall>r. prime_nat r \<and> unat (n + 1) \<le> r \<longrightarrow> unat q \<le> r"
      using less.hyps [of "n + 1"] less.prems(1,3) by blast
    have "unat q \<le> r" if "prime_nat r" "unat n \<le> r" for r
      using q(4) s False that by (metis Suc_leI le_neq_implies_less)
    with q s False is_prime_correct [OF lim] show ?thesis
      by (subst closest_prime.simps) auto
  qed
qed

section \<open>Properties\<close>

text \<open>
  \<open>htonll\<close> is right on hosts of either byte order: the eight bytes of its result in memory are
  the value in network order, and \<open>ntohll\<close> undoes it.
\<close>

lemma htonll_network_order:
  "mem_bytes e 8 (htonll e x) = be_bytes 8 x \<and> ntohll e (htonll e x) = x \<and> htonll e (ntohll e x) = x"
proof -
  have "mem_bytes e 8 (htonll e (ntohll e x)) = mem_bytes e 8 x"
    using ntohll_mem_word [of "mem_bytes e 8 x" e] be_bytes_be_word [where 'a = 64, of "mem_bytes e 8 x"] by simp
  then have "mem_word e (mem_bytes e 8 (htonll e (ntohll e x))) = (mem_word e (mem_bytes e 8 x) :: 64 word)"
    by (simp only:)
  then have "htonll e (ntohll e x) = x" by (simp del: mem_bytes_htonll)
  then show ?thesis by simp
qed

text \<open>
  An int written to a buffer of at least four bytes is read back from it, whatever the host's
  byte order and whatever order the reader's host has; the rest of the buffer is unchanged, and a
  shorter buffer is overrun.
\<close>

theorem write_then_read_int:
  "if 4 \<le> length b
   then \<exists>b'. write_int_to_buffer e b v = ret b' \<and> length b' = length b \<and> drop 4 b' = drop 4 b \<and>
     read_int_from_buffer e' b' = ret v
   else write_int_to_buffer e b v = fail Out_of_bounds"
  by (auto simp: write_int_to_buffer_def read_int_from_buffer_def bwrite_def bread_def)

text \<open>
  C32. Below \<open>(2\<^sup>3\<^sup>2 - 1)\<^sup>2\<close> the test \<open>is_prime\<close> ends and decides primality, and \<open>closest_prime\<close> started
  at \<open>n\<close> ends with the least prime that is at least \<open>n\<close>, provided there is one below that bound.
\<close>

theorem closest_prime_least:
  assumes "prime_nat p" and "unat n \<le> p" and "p < prime_limit"
  shows "is_prime n = Some (prime_nat (unat n)) \<and>
    (\<exists>q. closest_prime n = Some q \<and> prime_nat (unat q) \<and> unat n \<le> unat q \<and>
      (\<forall>r. prime_nat r \<and> unat n \<le> r \<longrightarrow> unat q \<le> r))"
  using closest_prime_finds [OF assms] is_prime_correct [of n] assms by simp

theorem closest_prime_least_witness:
  "\<exists>q. closest_prime 8 = Some q \<and> 8 \<le> unat q \<and> unat q \<le> 11"
proof -
  have p: "prime_nat 11"
  proof -
    have "\<not> d dvd 11" if "2 \<le> d" "d * d \<le> (11 :: nat)" for d
    proof -
      have "d < 4"
      proof (rule ccontr)
        assume "\<not> d < 4"
        then have "4 * 4 \<le> d * d" by (intro mult_le_mono) simp_all
        with that(2) show False by simp
      qed
      with that(1) have "d = 2 \<or> d = 3" by auto
      then show ?thesis by auto
    qed
    then show ?thesis by (simp add: prime_nat_sqrt)
  qed
  have "unat (8 :: 64 word) \<le> 11" "(11 :: nat) < prime_limit" by (simp_all add: prime_limit_def)
  from closest_prime_least [OF p this] p show ?thesis by auto
qed

end
