(* ===== verification/Slab.thy ===== *)
theory Slab
  imports Recycler Utils
begin

text \<open>
  slab.c: the reference-counted buffer slab. A BufRef is an object of a typed heap; the slab
  keeps the addresses of its idle BufRefs in the array \<open>buf_refs\<close>, of which the first \<open>len\<close>
  entries of \<open>cap\<close> are used. The reference count is a \<open>size_t\<close> (64 bits, it wraps).
  \<open>len\<close> and \<open>cap\<close> count array elements that exist in memory, so they are natural numbers.
\<close>

section \<open>Definitions\<close>

record bufref =
  br_ref :: "64 word"
  br_buf :: "8 word list"

record slab =
  sl_cap :: nat
  sl_len :: nat
  sl_buf_cap :: "64 word"
  sl_buf_refs :: "nat option list"

definition SLAB_INIT_CAP :: nat where
  "SLAB_INIT_CAP = 64"

text \<open>
  The \<open>n\<close> bytes of a flexible array member that a block asked for with that size has. The sum of this size and
  that of the struct does not wrap here; in C it would for the eight largest capacities, while the slabs of the program
  have 64 and 2048 bytes.
\<close>

definition fit :: "nat \<Rightarrow> 8 word list \<Rightarrow> 8 word list" where
  "fit n bs = take n (bs @ replicate n 0)"

definition malloc_buf_ref :: "slab \<Rightarrow> bufref heap \<Rightarrow> (nat \<times> bufref heap) comp" where
  "malloc_buf_ref s h =
     must_malloc (\<lambda>b. b\<lparr>br_buf := fit (unat (sl_buf_cap s)) (br_buf b)\<rparr>) h ''malloc_buf_ref''"

definition slab_init_body :: "nat \<Rightarrow> slab \<times> bufref heap \<Rightarrow> (slab \<times> bufref heap) comp" where
  "slab_init_body i = (\<lambda>(s, h). bindC (malloc_buf_ref s h) (\<lambda>(a, h).
     bindC (awrite (sl_buf_refs s) i (Some a)) (\<lambda>refs. ret (s\<lparr>sl_buf_refs := refs\<rparr>, h))))"

definition slab_init_cap :: "64 word \<Rightarrow> nat \<Rightarrow> bufref heap \<Rightarrow> (slab \<times> bufref heap) comp" where
  "slab_init_cap buf_cap slab_cap h =
     bindC (must_malloc_arr h slab_cap ''slab_init malloc buf_refs'') (\<lambda>refs.
     foldC slab_init_body [0..<slab_cap]
       (\<lparr>sl_cap = slab_cap, sl_len = slab_cap, sl_buf_cap = buf_cap, sl_buf_refs = refs\<rparr>, h))"

definition slab_init :: "64 word \<Rightarrow> bufref heap \<Rightarrow> (slab \<times> bufref heap) comp" where
  "slab_init buf_cap h = slab_init_cap buf_cap SLAB_INIT_CAP h"

text \<open>Only the BufRefs in the array are freed (and the array, which the model drops).\<close>

definition slab_deinit :: "slab \<Rightarrow> bufref heap \<Rightarrow> bufref heap comp" where
  "slab_deinit s h =
     foldC (\<lambda>i h. bindC (aread (sl_buf_refs s) i) (\<lambda>p. hfree h p)) [0..<sl_len s] h"

definition slab_acquire :: "slab \<Rightarrow> bufref heap \<Rightarrow> 64 word \<Rightarrow> (nat \<times> slab \<times> bufref heap) comp" where
  "slab_acquire s h ref =
     bindC
       (if sl_len s > 0
        then bindC (aread (sl_buf_refs s) (sl_len s - 1)) (\<lambda>p.
             bindC (ptr p) (\<lambda>a. ret (a, s\<lparr>sl_len := sl_len s - 1\<rparr>, h)))
        else bindC (malloc_buf_ref s h) (\<lambda>(a, h). ret (a, s, h)))
       (\<lambda>(a, s, h). bindC (hget h a) (\<lambda>b. bindC (hput h a (b\<lparr>br_ref := ref\<rparr>)) (\<lambda>h. ret (a, s, h))))"

definition slab_buf_cap :: "slab \<Rightarrow> 64 word" where
  "slab_buf_cap s = sl_buf_cap s"

definition slab_release :: "slab \<Rightarrow> bufref heap \<Rightarrow> nat \<Rightarrow> (slab \<times> bufref heap) comp" where
  "slab_release s h a =
     bindC (hget h a) (\<lambda>b.
     let ref = br_ref b - 1 in
     bindC (hput h a (b\<lparr>br_ref := ref\<rparr>)) (\<lambda>h.
     if ref \<noteq> 0 then ret (s, h)
     else bindC
       (if sl_cap s = sl_len s
        then bindC (must_realloc h (sl_buf_refs s) (sl_cap s * 2) ''slab_release realloc buffers'')
               (\<lambda>refs. ret (s\<lparr>sl_cap := sl_cap s * 2, sl_buf_refs := refs\<rparr>))
        else ret s)
       (\<lambda>s. bindC (awrite (sl_buf_refs s) (sl_len s) (Some a)) (\<lambda>refs.
            ret (s\<lparr>sl_buf_refs := refs, sl_len := Suc (sl_len s)\<rparr>, h)))))"

section \<open>Invariant\<close>

text \<open>The live BufRefs whose buffer has this slab's size, and the idle ones of them.\<close>

definition slab_known :: "slab \<times> bufref heap \<Rightarrow> nat set" where
  "slab_known = (\<lambda>(s, h). {a. \<exists>b. cells h a = Some b \<and> length (br_buf b) = unat (sl_buf_cap s)})"

definition slab_idle :: "slab \<times> bufref heap \<Rightarrow> nat list" where
  "slab_idle = (\<lambda>(s, h). map the (take (sl_len s) (sl_buf_refs s)))"

definition slab_inv :: "slab \<times> bufref heap \<Rightarrow> bool" where
  "slab_inv = (\<lambda>(s, h). heap_wf h \<and> 0 < sl_cap s \<and> sl_len s \<le> sl_cap s \<and>
     length (sl_buf_refs s) = sl_cap s \<and>
     None \<notin> set (take (sl_len s) (sl_buf_refs s)) \<and>
     distinct (slab_idle (s, h)) \<and> set (slab_idle (s, h)) \<subseteq> slab_known (s, h))"

text \<open>The BufRef has one reference left, the last release returns it to the slab.\<close>

definition last_ref :: "slab \<times> bufref heap \<Rightarrow> nat \<Rightarrow> bool" where
  "last_ref = (\<lambda>(s, h) a. \<exists>b. cells h a = Some b \<and> br_ref b = 1)"

lemmas slab_defs = slab_inv_def slab_idle_def slab_known_def

lemma length_fit [simp]: "length (fit n bs) = n"
  by (simp add: fit_def)

lemma slab_known_put:
  assumes "cells h a = Some b" and "length (br_buf b') = length (br_buf b)"
  shows "slab_known (s, h\<lparr>cells := (cells h)(a \<mapsto> b')\<rparr>) = slab_known (s, h)"
  using assms by (auto simp: slab_known_def)

lemma slab_known_cap:
  "sl_buf_cap s' = sl_buf_cap s \<Longrightarrow> slab_known (s', h) = slab_known (s, h)"
  by (simp add: slab_known_def)

section \<open>Acquire and release\<close>

text \<open>A buffer is idle: it is popped, and its count is set.\<close>

lemma slab_acquire_reuse:
  assumes inv: "slab_inv (s, h)" and idle: "slab_idle (s, h) = xs @ [x]"
  shows "\<exists>b. cells h x = Some b \<and> slab_acquire s h r =
    ret (x, s\<lparr>sl_len := sl_len s - 1\<rparr>, h\<lparr>cells := (cells h)(x \<mapsto> b\<lparr>br_ref := r\<rparr>)\<rparr>)"
proof -
  have t: "take (sl_len s) (sl_buf_refs s) = map Some xs @ [Some x]"
    using map_the_snoc [of "take (sl_len s) (sl_buf_refs s)" xs x] inv idle by (simp add: slab_defs)
  then have "0 < sl_len s" "sl_buf_refs s ! (sl_len s - 1) = Some x" "sl_len s - 1 < length (sl_buf_refs s)"
    using take_eq_snocD [OF t] inv by (auto simp: slab_inv_def)
  moreover have "x \<in> slab_known (s, h)"
    using inv idle by (simp add: slab_inv_def)
  then obtain b where "cells h x = Some b"
    by (auto simp: slab_known_def)
  ultimately show ?thesis
    by (simp add: slab_acquire_def aread_def ptr_def hget_def hput_def)
qed

text \<open>No buffer is idle: a new one of the slab's size is allocated.\<close>

lemma slab_acquire_new:
  assumes "slab_inv (s, h)" and "sl_len s = 0"
  shows "spec (slab_acquire s h r) is_exit (\<lambda>(a, s', h'). a = brk h \<and> s' = s \<and>
    (\<exists>b. h' = h\<lparr>cells := (cells h)(a \<mapsto> b), brk := Suc (brk h)\<rparr> \<and>
      br_ref b = r \<and> length (br_buf b) = unat (sl_buf_cap s)))"
  using assms
  by (auto simp: slab_acquire_def malloc_buf_ref_def must_malloc_def malloc_def fatal_error_def
      split: option.splits
      intro!: exI [of _ "(the (fresh h (brk h)))\<lparr>br_buf := fit (unat (sl_buf_cap s)) (br_buf (the (fresh h (brk h)))),
        br_ref := r\<rparr>"])

lemma slab_inv_acquired:
  assumes "slab_inv (s, h)" and "slab_idle (s, h) = xs @ [x]" and "cells h x = Some b"
    and s'_def: "s' = s\<lparr>sl_len := sl_len s - 1\<rparr>" and h'_def: "h' = h\<lparr>cells := (cells h)(x \<mapsto> b\<lparr>br_ref := r\<rparr>)\<rparr>"
  shows "slab_idle (s', h') = xs" and "slab_known (s', h') = slab_known (s, h)" and "slab_inv (s', h')"
proof -
  have le: "sl_len s \<le> length (sl_buf_refs s)" using assms(1) by (simp add: slab_inv_def)
  have t: "take (sl_len s) (sl_buf_refs s) = map Some xs @ [Some x]"
    using map_the_snoc [of "take (sl_len s) (sl_buf_refs s)" xs x] assms(1,2) by (simp add: slab_defs)
  then have t': "take (sl_len s - 1) (sl_buf_refs s) = map Some xs"
    using take_eq_snocD [OF t le] by blast
  then show i: "slab_idle (s', h') = xs"
    by (simp add: slab_idle_def s'_def)
  show k: "slab_known (s', h') = slab_known (s, h)"
    using assms(3) slab_known_put [of h x b "b\<lparr>br_ref := r\<rparr>" s'] slab_known_cap [of s' s h]
    by (simp add: s'_def h'_def)
  have "None \<notin> set (take (sl_len s') (sl_buf_refs s'))"
    using t' by (simp add: s'_def)
  then show "slab_inv (s', h')"
    using assms(1-3) i k unfolding slab_inv_def by (auto simp: s'_def h'_def)
qed

text \<open>Releasing one of several references only lowers the count.\<close>

lemma slab_release_shared:
  assumes "cells h a = Some b" and "br_ref b \<noteq> 1"
  shows "slab_release s h a = ret (s, h\<lparr>cells := (cells h)(a \<mapsto> b\<lparr>br_ref := br_ref b - 1\<rparr>)\<rparr>)"
  using assms by (simp add: slab_release_def hget_def hput_def Let_def)

text \<open>Releasing the last reference pushes the buffer; a full array is doubled first.\<close>

lemma slab_release_last:
  assumes inv: "slab_inv (s, h)" and b: "cells h a = Some b" "br_ref b = 1"
  shows "spec (slab_release s h a) is_exit (\<lambda>(s', h').
    h' = h\<lparr>cells := (cells h)(a \<mapsto> b\<lparr>br_ref := 0\<rparr>)\<rparr> \<and>
    sl_cap s' = (if sl_cap s = sl_len s then 2 * sl_cap s else sl_cap s) \<and>
    sl_len s' = Suc (sl_len s) \<and> sl_buf_cap s' = sl_buf_cap s \<and> length (sl_buf_refs s') = sl_cap s' \<and>
    take (Suc (sl_len s)) (sl_buf_refs s') = take (sl_len s) (sl_buf_refs s) @ [Some a])"
  using assms
  by (auto simp: slab_release_def Let_def must_realloc_def fatal_error_def slab_inv_def take_snoc_update)

lemma slab_inv_released:
  assumes "slab_inv (s, h)" and "a \<in> slab_known (s, h)" and "a \<notin> set (slab_idle (s, h))"
    and "cells h a = Some b" and "h' = h\<lparr>cells := (cells h)(a \<mapsto> b\<lparr>br_ref := 0\<rparr>)\<rparr>"
    and "sl_cap s' \<ge> Suc (sl_len s)" and "sl_len s' = Suc (sl_len s)" and "sl_buf_cap s' = sl_buf_cap s"
    and "length (sl_buf_refs s') = sl_cap s'"
    and "take (Suc (sl_len s)) (sl_buf_refs s') = take (sl_len s) (sl_buf_refs s) @ [Some a]"
  shows "slab_inv (s', h')" and "slab_idle (s', h') = slab_idle (s, h) @ [a]"
    and "slab_known (s', h') = slab_known (s, h)"
proof -
  show i: "slab_idle (s', h') = slab_idle (s, h) @ [a]"
    using assms by (simp add: slab_idle_def)
  show k: "slab_known (s', h') = slab_known (s, h)"
    using assms(4,5,8) slab_known_put [of h a b "b\<lparr>br_ref := 0\<rparr>" s'] slab_known_cap [of s' s h] by simp
  have "None \<notin> set (take (sl_len s') (sl_buf_refs s'))"
    using assms(1,7,10) by (simp add: slab_inv_def)
  then show "slab_inv (s', h')"
    using assms i k unfolding slab_inv_def by auto
qed

lemma slab_release_recycles:
  assumes "slab_inv (s, h)" and "a \<in> slab_known (s, h)" and "a \<notin> set (slab_idle (s, h))"
    and "cells h a = Some b" and "br_ref b = 1"
  shows "spec (slab_release s h a) is_exit (\<lambda>t. slab_inv t \<and>
    slab_idle t = slab_idle (s, h) @ [a] \<and> slab_known t = slab_known (s, h))"
proof (rule spec_conseq [OF slab_release_last [OF assms(1,4,5)]], clarify)
  fix s' :: slab and h'
  assume post: "sl_cap s' = (if sl_cap s = sl_len s then 2 * sl_cap s else sl_cap s)"
    "sl_len s' = Suc (sl_len s)" "sl_buf_cap s' = sl_buf_cap s" "length (sl_buf_refs s') = sl_cap s'"
    "take (Suc (sl_len s)) (sl_buf_refs s') = take (sl_len s) (sl_buf_refs s) @ [Some a]"
  have "Suc (sl_len s) \<le> sl_cap s'"
    using post(1) assms(1) by (auto simp: slab_inv_def)
  note r = slab_inv_released [OF assms(1-4) refl this post(2-5)]
  show "slab_inv (s', h\<lparr>cells := (cells h)(a \<mapsto> b\<lparr>br_ref := 0\<rparr>)\<rparr>) \<and>
    slab_idle (s', h\<lparr>cells := (cells h)(a \<mapsto> b\<lparr>br_ref := 0\<rparr>)\<rparr>) = slab_idle (s, h) @ [a] \<and>
    slab_known (s', h\<lparr>cells := (cells h)(a \<mapsto> b\<lparr>br_ref := 0\<rparr>)\<rparr>) = slab_known (s, h)"
    using r by blast
qed

lemma slab_inv_grown:
  assumes "slab_inv (s, h)" and "sl_len s = 0"
    and h': "h' = h\<lparr>cells := (cells h)(brk h \<mapsto> b), brk := Suc (brk h)\<rparr>"
    and "length (br_buf b) = unat (sl_buf_cap s)"
  shows "slab_inv (s, h')" and "slab_idle (s, h') = []"
    and "slab_known (s, h') = insert (brk h) (slab_known (s, h))" and "brk h \<notin> slab_known (s, h)"
  using assms heap_wf_fresh [of h] by (auto simp: slab_defs)

text \<open>The slab, with single-reference buffers, meets the contract of an object pool.\<close>

interpretation slab_pool: recycler slab_inv slab_idle slab_known last_ref
  "\<lambda>(s, h). slab_acquire s h 1" "\<lambda>(s, h) a. slab_release s h a"
proof (unfold_locales, goal_cases)
  case (1 sh)
  then show ?case by (cases sh) (simp add: slab_inv_def)
next
  case (2 sh)
  then show ?case by (cases sh) (simp add: slab_inv_def)
next
  case (3 sh xs x)
  obtain s h where sh: "sh = (s, h)" by (cases sh)
  obtain b where "cells h x = Some b" "slab_acquire s h 1 =
      ret (x, s\<lparr>sl_len := sl_len s - 1\<rparr>, h\<lparr>cells := (cells h)(x \<mapsto> b\<lparr>br_ref := 1\<rparr>)\<rparr>)"
    using slab_acquire_reuse [of s h xs x 1] 3 sh by blast
  then show ?case
    using slab_inv_acquired [of s h xs x b _ _ 1] 3 sh by simp
next
  case (4 sh)
  obtain s h where sh: "sh = (s, h)" by (cases sh)
  with 4 have "sl_len s = 0" by (auto simp: slab_defs)
  then show ?case
    using 4 sh by (auto intro!: spec_conseq [OF slab_acquire_new] dest: slab_inv_grown)
next
  case (5 sh a)
  obtain s h where sh: "sh = (s, h)" by (cases sh)
  with 5 obtain b where b: "cells h a = Some b" "br_ref b = 1" by (auto simp: last_ref_def)
  then show ?case
    using 5 sh slab_release_recycles [of s h a b] by simp
qed

section \<open>Creation, destruction, counted references\<close>

text \<open>After \<open>i\<close> rounds of the initialisation loop: \<open>i\<close> new buffers, the rest of the heap as before.\<close>

definition filled :: "64 word \<Rightarrow> nat \<Rightarrow> bufref heap \<Rightarrow> nat \<Rightarrow> slab \<times> bufref heap \<Rightarrow> bool" where
  "filled bc n h0 i = (\<lambda>(s, h). sl_cap s = n \<and> sl_len s = n \<and> sl_buf_cap s = bc \<and>
     length (sl_buf_refs s) = n \<and> heap_wf h \<and> brk h = brk h0 + i \<and>
     take i (sl_buf_refs s) = map Some [brk h0..<brk h0 + i] \<and>
     (\<forall>a\<in>{brk h0..<brk h0 + i}. \<exists>b. cells h a = Some b \<and> length (br_buf b) = unat bc) \<and>
     (\<forall>a<brk h0. cells h a = cells h0 a))"

lemma filled_step:
  assumes "filled bc n h0 i (s, h)" and "i < n"
  shows "spec (slab_init_body i (s, h)) is_exit (filled bc n h0 (Suc i))"
proof (cases "fresh h (brk h)")
  case None
  then show ?thesis
    by (simp add: slab_init_body_def malloc_buf_ref_def must_malloc_def malloc_def fatal_error_def)
next
  case (Some c)
  let ?b = "c\<lparr>br_buf := fit (unat bc) (br_buf c)\<rparr>"
  have "malloc_buf_ref s h = ret (brk h, h\<lparr>cells := (cells h)(brk h \<mapsto> ?b), brk := Suc (brk h)\<rparr>)"
    using Some assms by (simp add: malloc_buf_ref_def must_malloc_def malloc_def filled_def)
  moreover have "heap_wf (h\<lparr>cells := (cells h)(brk h \<mapsto> ?b), brk := Suc (brk h)\<rparr>)"
    using assms unfolding filled_def by (blast intro: heap_wf_alloc)
  ultimately show ?thesis
    using assms by (auto simp: slab_init_body_def filled_def take_snoc_update less_Suc_eq)
qed

lemma filled_inv:
  assumes "filled bc n h0 n (s, h)" and "0 < n"
  shows "slab_inv (s, h)" and "slab_idle (s, h) = [brk h0..<brk h0 + n]"
proof -
  have refs: "sl_buf_refs s = map Some [brk h0..<brk h0 + n]"
    using assms by (auto simp: filled_def)
  then show i: "slab_idle (s, h) = [brk h0..<brk h0 + n]"
    using assms by (simp add: slab_idle_def filled_def comp_def)
  show "slab_inv (s, h)"
    using assms refs i by (auto simp: slab_inv_def slab_known_def filled_def)
qed

lemma slab_release_many:
  assumes "cells h a = Some b" and "unat (br_ref b) = Suc n"
  shows "foldC (\<lambda>i (s, h). slab_release s h a) [0..<n] (s, h) =
    ret (s, h\<lparr>cells := (cells h)(a \<mapsto> b\<lparr>br_ref := 1\<rparr>)\<rparr>)"
proof -
  let ?I = "\<lambda>i t. t = (s, h\<lparr>cells := (cells h)(a \<mapsto> b\<lparr>br_ref := br_ref b - of_nat i\<rparr>)\<rparr>)"
  have step: "spec ((\<lambda>(s, h). slab_release s h a) t) no_fault (?I (Suc i))"
    if "i < n" "?I i t" for i t
  proof -
    have "unat (br_ref b - of_nat i) = Suc n - i"
    proof -
      have "of_nat i \<le> br_ref b" "unat (of_nat i :: 64 word) = i"
        using that(1) assms(2) unat_lt_64 [of "br_ref b"]
        by (auto simp: word_le_nat_alt unat_of_nat_64)
      then show ?thesis using assms(2) by (simp add: unat_sub)
    qed
    with that(1) have "br_ref b - of_nat i \<noteq> 1" by auto
    with that(2) show ?thesis
      by (simp add: slab_release_shared diff_diff_eq add.commute)
  qed
  have "spec (foldC (\<lambda>i (s, h). slab_release s h a) [0..<n] (s, h)) no_fault (?I n)"
  proof (rule spec_foldC_range [where I = ?I])
    show "?I 0 (s, h)" using assms(1) by (simp add: map_upd_triv)
  qed (use step in auto)
  moreover have "br_ref b - of_nat n = 1"
  proof -
    have "br_ref b = of_nat (Suc n)" by (simp flip: assms(2))
    then show ?thesis by simp
  qed
  ultimately show ?thesis by (auto simp: spec_ret_iff)
qed

text \<open>Only the count or the contents of a buffer change: the slab is not affected.\<close>

lemma slab_put:
  assumes "cells h b = Some r" and "length (br_buf r') = length (br_buf r)"
  shows "slab_inv (s, h\<lparr>cells := (cells h)(b \<mapsto> r')\<rparr>) \<longleftrightarrow> slab_inv (s, h)"
    and "slab_idle (s, h\<lparr>cells := (cells h)(b \<mapsto> r')\<rparr>) = slab_idle (s, h)"
proof -
  show i: "slab_idle (s, h\<lparr>cells := (cells h)(b \<mapsto> r')\<rparr>) = slab_idle (s, h)" by (simp add: slab_idle_def)
  have "heap_wf (h\<lparr>cells := (cells h)(b \<mapsto> r')\<rparr>) \<longleftrightarrow> heap_wf h"
    using assms(1) by (auto simp: heap_wf_def)
  then show "slab_inv (s, h\<lparr>cells := (cells h)(b \<mapsto> r')\<rparr>) \<longleftrightarrow> slab_inv (s, h)"
    using i slab_known_put [OF assms] by (simp add: slab_inv_def)
qed

lemma slab_take:
  assumes "slab_inv (s, h)"
  shows "spec (slab_acquire s h ref) is_exit (\<lambda>(a, s', h').
    slab_inv (s', h') \<and> a \<notin> slab_known (s, h) - set (slab_idle (s, h)) \<and>
    (\<exists>b. cells h' a = Some b \<and> br_ref b = ref \<and> length (br_buf b) = unat (slab_buf_cap s)) \<and>
    (slab_idle (s, h) \<noteq> [] \<longrightarrow> slab_idle (s, h) = slab_idle (s', h') @ [a]) \<and>
    (\<forall>a'. a' \<noteq> a \<longrightarrow> cells h' a' = cells h a'))"
proof (cases "slab_idle (s, h)" rule: rev_cases)
  case Nil
  with assms have "sl_len s = 0" by (auto simp: slab_defs)
  with assms Nil show ?thesis
    by (auto intro!: spec_conseq [OF slab_acquire_new] simp: slab_inv_grown slab_buf_cap_def)
next
  case (snoc xs x)
  obtain b where b: "cells h x = Some b" and eq: "slab_acquire s h ref =
      ret (x, s\<lparr>sl_len := sl_len s - 1\<rparr>, h\<lparr>cells := (cells h)(x \<mapsto> b\<lparr>br_ref := ref\<rparr>)\<rparr>)"
    using slab_acquire_reuse [OF assms snoc] by blast
  have "x \<in> slab_known (s, h)" using assms snoc by (simp add: slab_inv_def)
  with b have "length (br_buf b) = unat (sl_buf_cap s)" by (simp add: slab_known_def)
  with b snoc show ?thesis
    using slab_inv_acquired [OF assms snoc b refl refl] by (simp add: eq slab_buf_cap_def)
qed

lemma slab_init_built:
  assumes "heap_wf h" and "0 < slab_cap"
  shows "spec (slab_init_cap buf_cap slab_cap h) is_exit (\<lambda>(s, h').
    slab_inv (s, h') \<and> slab_buf_cap s = buf_cap \<and> sl_cap s = slab_cap \<and>
    slab_idle (s, h') = [brk h..<brk h + slab_cap] \<and> (\<forall>a<brk h. cells h' a = cells h a))"
proof -
  let ?s = "\<lparr>sl_cap = slab_cap, sl_len = slab_cap, sl_buf_cap = buf_cap,
    sl_buf_refs = replicate slab_cap None\<rparr>"
  have "spec (foldC slab_init_body [0..<slab_cap] (?s, h)) is_exit (filled buf_cap slab_cap h slab_cap)"
  proof (rule spec_foldC_range [where I = "filled buf_cap slab_cap h"])
    show "filled buf_cap slab_cap h 0 (?s, h)"
      using assms(1) by (simp add: filled_def)
  qed (use filled_step in auto)
  then have "spec (foldC slab_init_body [0..<slab_cap] (?s, h)) is_exit (\<lambda>(s, h').
    slab_inv (s, h') \<and> slab_buf_cap s = buf_cap \<and> sl_cap s = slab_cap \<and>
    slab_idle (s, h') = [brk h..<brk h + slab_cap] \<and> (\<forall>a<brk h. cells h' a = cells h a))"
    by (rule spec_conseq) (use assms(2) filled_inv in \<open>auto simp: slab_buf_cap_def filled_def\<close>)
  then show ?thesis
    by (simp add: slab_init_cap_def must_malloc_arr_def fatal_error_def)
qed

text \<open>The slab in full when malloc always succeeds.\<close>

lemma slab_init_plenty:
  assumes "\<And>k. fresh h k = Some c" and "arr_ok h n"
  shows "slab_init_cap cap n h = ret (\<lparr>sl_cap = n, sl_len = n, sl_buf_cap = cap, sl_buf_refs = map Some [brk h..<brk h + n]\<rparr>,
    h\<lparr>cells := (\<lambda>a. if brk h \<le> a \<and> a < brk h + n then Some (c\<lparr>br_buf := fit (unat cap) (br_buf c)\<rparr>) else cells h a), brk := brk h + n\<rparr>)"
proof -
  let ?at = "\<lambda>i. (\<lparr>sl_cap = n, sl_len = n, sl_buf_cap = cap, sl_buf_refs = map Some [brk h..<brk h + i] @ replicate (n - i) None\<rparr>,
    h\<lparr>cells := (\<lambda>a. if brk h \<le> a \<and> a < brk h + i then Some (c\<lparr>br_buf := fit (unat cap) (br_buf c)\<rparr>) else cells h a), brk := brk h + i\<rparr>)"
  have "spec (foldC slab_init_body [0..<n] (?at 0)) no_fault (\<lambda>x. x = ?at n)"
  proof (rule spec_foldC_range [where I = "\<lambda>i x. x = ?at i"])
    fix i x assume "i < n" "x = ?at i"
    moreover have "(map Some [brk h..<brk h + i] @ replicate (n - i) None)[i := Some (brk h + i)] =
        map Some [brk h..<brk h + Suc i] @ replicate (n - Suc i) None"
      using \<open>i < n\<close> by (simp add: list_update_append Suc_diff_Suc [symmetric])
    ultimately show "spec (slab_init_body i x) no_fault (\<lambda>x. x = ?at (Suc i))"
      using assms(1) by (simp add: slab_init_body_def malloc_buf_ref_def must_malloc_def malloc_def awrite_def fun_eq_iff)
  qed simp_all
  moreover have "?at 0 = (\<lparr>sl_cap = n, sl_len = n, sl_buf_cap = cap, sl_buf_refs = replicate n None\<rparr>, h)"
    by (cases h) (auto simp: fun_eq_iff)
  ultimately show ?thesis
    using assms(2) by (simp add: slab_init_cap_def must_malloc_arr_def spec_ret_iff)
qed

section \<open>Properties\<close>

text \<open>A slab of capacity 1 with one idle buffer, and one in use that has three references.\<close>

definition demo_slab :: slab where
  "demo_slab = \<lparr>sl_cap = 1, sl_len = 1, sl_buf_cap = 2, sl_buf_refs = [Some 0]\<rparr>"

definition demo_bufs :: "bufref heap" where
  "demo_bufs = \<lparr>cells = [0 \<mapsto> \<lparr>br_ref = 0, br_buf = [1, 2]\<rparr>, 1 \<mapsto> \<lparr>br_ref = 3, br_buf = [3, 4]\<rparr>],
     brk = 2, fresh = (\<lambda>n. Some \<lparr>br_ref = 0, br_buf = []\<rparr>), arr_ok = (\<lambda>n. True)\<rparr>"

lemma demo_slab_inv: "slab_inv (demo_slab, demo_bufs)"
  by (simp add: demo_slab_def demo_bufs_def slab_defs heap_wf_def)

text \<open>
  Initialisation: from any well-formed heap, \<open>slab_init_cap\<close> with a positive capacity ends, by
  exiting because memory is exhausted or by returning a slab that satisfies its invariant and
  holds \<open>slab_cap\<close> new, distinct, idle buffers of \<open>buf_cap\<close> bytes; nothing allocated before
  changes.
\<close>

theorem slab_init_cap_correct:
  assumes "heap_wf h" and "0 < slab_cap"
  shows "spec (slab_init_cap buf_cap slab_cap h) is_exit (\<lambda>(s, h').
    slab_inv (s, h') \<and> slab_buf_cap s = buf_cap \<and> sl_cap s = slab_cap \<and>
    slab_idle (s, h') = [brk h..<brk h + slab_cap] \<and> (\<forall>a<brk h. cells h' a = cells h a))"
  using assms by (rule slab_init_built)

theorem slab_init_cap_correct_witness:
  "spec (slab_init_cap 64 2 (empty_heap \<lparr>br_ref = 7, br_buf = []\<rparr>)) is_exit (\<lambda>(s, h').
    slab_inv (s, h') \<and> slab_buf_cap s = 64 \<and> sl_cap s = 2 \<and> slab_idle (s, h') = [0, 1])"
  using slab_init_cap_correct [of "empty_heap \<lparr>br_ref = 7, br_buf = []\<rparr>" 2 64]
  by (simp add: empty_heap_def heap_wf_def case_prod_unfold)

text \<open>
  C26. Acquiring a buffer: \<open>slab_acquire\<close> ends without touching memory it may not touch. It exits
  when it must allocate and memory is exhausted; otherwise the buffer it returns was not in use,
  has the slab's size and the reference count asked for, the most recently released idle buffer
  is preferred, the invariant holds again, and every other object is as it was.
\<close>

theorem slab_acquire_correct:
  assumes "slab_inv (s, h)"
  shows "spec (slab_acquire s h ref) is_exit (\<lambda>(a, s', h').
    slab_inv (s', h') \<and> a \<notin> slab_known (s, h) - set (slab_idle (s, h)) \<and>
    (\<exists>b. cells h' a = Some b \<and> br_ref b = ref \<and> length (br_buf b) = unat (slab_buf_cap s)) \<and>
    (slab_idle (s, h) \<noteq> [] \<longrightarrow> slab_idle (s, h) = slab_idle (s', h') @ [a]) \<and>
    (\<forall>a'. a' \<noteq> a \<longrightarrow> cells h' a' = cells h a'))"
  using assms by (rule slab_take)

theorem slab_acquire_correct_witness:
  "spec (slab_acquire demo_slab demo_bufs 5) is_exit (\<lambda>(a, s', h').
    slab_inv (s', h') \<and> a \<notin> slab_known (demo_slab, demo_bufs) - set (slab_idle (demo_slab, demo_bufs)))"
  by (rule spec_conseq [OF slab_acquire_correct [OF demo_slab_inv]]) auto

text \<open>
  C25. Counted references: a buffer in use with \<open>n + 1\<close> references stays in use for \<open>n\<close> releases,
  which change nothing but its count; the next release makes it the slab's top idle buffer, with
  the invariant kept (the array doubles when it is full).
\<close>

theorem slab_release_counts:
  assumes "slab_inv (s, h)" and "a \<in> slab_known (s, h)" and "a \<notin> set (slab_idle (s, h))"
    and "cells h a = Some b" and "unat (br_ref b) = Suc n"
  shows "foldC (\<lambda>i (s, h). slab_release s h a) [0..<n] (s, h) =
      ret (s, h\<lparr>cells := (cells h)(a \<mapsto> b\<lparr>br_ref := 1\<rparr>)\<rparr>) \<and>
    spec (slab_release s (h\<lparr>cells := (cells h)(a \<mapsto> b\<lparr>br_ref := 1\<rparr>)\<rparr>) a) is_exit (\<lambda>t. slab_inv t \<and>
      slab_idle t = slab_idle (s, h) @ [a] \<and> slab_known t = slab_known (s, h))"
proof -
  let ?h = "h\<lparr>cells := (cells h)(a \<mapsto> b\<lparr>br_ref := 1\<rparr>)\<rparr>"
  have same: "slab_idle (s, ?h) = slab_idle (s, h)" "slab_known (s, ?h) = slab_known (s, h)"
    using assms(4) by (simp_all add: slab_idle_def slab_known_put)
  have "slab_inv (s, ?h)"
    using assms(1,4) same by (simp add: slab_inv_def)
  with same show ?thesis
    using slab_release_many [OF assms(4,5)] slab_release_recycles [of s ?h a "b\<lparr>br_ref := 1\<rparr>"] assms(2,3)
    by simp
qed

theorem slab_release_counts_witness:
  "spec (slab_release demo_slab (demo_bufs\<lparr>cells := (cells demo_bufs)(1 \<mapsto> \<lparr>br_ref = 1, br_buf = [3, 4]\<rparr>)\<rparr>) 1)
     is_exit (\<lambda>t. slab_inv t \<and> slab_idle t = [0, 1])"
proof -
  have "1 \<in> slab_known (demo_slab, demo_bufs)" "1 \<notin> set (slab_idle (demo_slab, demo_bufs))"
    and idle: "slab_idle (demo_slab, demo_bufs) = [0]"
    and "cells demo_bufs 1 = Some \<lparr>br_ref = 3, br_buf = [3, 4]\<rparr>"
    by (simp_all add: demo_slab_def demo_bufs_def slab_known_def slab_idle_def)
  then have "spec (slab_release demo_slab
      (demo_bufs\<lparr>cells := (cells demo_bufs)(1 \<mapsto> \<lparr>br_ref = 1, br_buf = [3, 4]\<rparr>)\<rparr>) 1) is_exit
      (\<lambda>t. slab_inv t \<and> slab_idle t = slab_idle (demo_slab, demo_bufs) @ [1] \<and>
        slab_known t = slab_known (demo_slab, demo_bufs))"
    using slab_release_counts [OF demo_slab_inv, of 1 "\<lparr>br_ref = 3, br_buf = [3, 4]\<rparr>" 2] by simp
  then show ?thesis
    by (rule spec_conseq) (simp add: idle)
qed

text \<open>
  Destruction: \<open>slab_deinit\<close> of a slab that satisfies its invariant frees each idle buffer once
  and nothing else (the buffers in use stay with their owners); no free is a double free.
\<close>

lemma slab_deinit_frees_idle:
  assumes "slab_inv (s, h)"
  shows "slab_deinit s h = ret (h\<lparr>cells := cells h |` (- set (slab_idle (s, h)))\<rparr>)"
proof -
  let ?as = "slab_idle (s, h)"
  have "map Some ?as = take (sl_len s) (sl_buf_refs s)"
    using assms map_Some_the [of "take (sl_len s) (sl_buf_refs s)"] by (simp add: slab_defs)
  moreover have "length ?as = sl_len s"
    using assms by (simp add: slab_defs)
  moreover have "\<forall>a\<in>set ?as. cells h a \<noteq> None"
    using assms by (auto simp: slab_inv_def slab_known_def)
  ultimately show ?thesis
    using hfree_prefix [of ?as h "sl_buf_refs s"] assms by (simp add: slab_deinit_def slab_inv_def)
qed

end
