(* ===== verification/Op_Pool.thy ===== *)
theory Op_Pool
  imports Recycler Utils
begin

text \<open>
  op.c and op_pool.c: the operations in flight and the pool that recycles them. Operations are
  objects of a typed heap; the array \<open>ops\<close> maps a pool id to an operation's address (the first
  \<open>ops_next_idx\<close> of \<open>ops_cap\<close> entries are used), \<open>free_ops_idx\<close> is the stack of the ids that
  are free (\<open>free_len\<close> of \<open>free_cap\<close> entries). The sizes an operation carries are 64-bit words;
  the pool's own counters are natural numbers, as they count objects in memory.
\<close>

section \<open>Definitions\<close>

datatype op_type = OP_ACCEPT | OP_READ | OP_WRITE

record operation =
  op_pool_id :: nat
  op_type :: op_type
  op_client_id :: "64 word"
  op_client_fd :: int
  op_buf_cap :: "64 word"
  op_buf_len :: "64 word"
  op_buf_ref :: "nat option"
  op_processed :: "64 word"

fun op_type_str :: "op_type \<Rightarrow> string" where
  "op_type_str OP_ACCEPT = ''ACCEPT''"
| "op_type_str OP_READ = ''READ''"
| "op_type_str OP_WRITE = ''WRITE''"

definition op_is_incomplete :: "operation \<Rightarrow> 64 word \<Rightarrow> bool" where
  "op_is_incomplete op processed =
     (let requested = op_buf_len op - op_processed op in processed < requested)"

record op_pool =
  ops_next_idx :: nat
  ops_cap :: nat
  ops :: "nat option list"
  free_len :: nat
  free_cap :: nat
  free_ops_idx :: "nat option list"

definition OPERATIONS_INIT_CAP :: nat where
  "OPERATIONS_INIT_CAP = 1024"

definition FREE_OPS_INIT_CAP :: nat where
  "FREE_OPS_INIT_CAP = 256"

definition op_pool_init_with_cap :: "nat \<Rightarrow> nat \<Rightarrow> operation heap \<Rightarrow> op_pool comp" where
  "op_pool_init_with_cap oc fc h =
     bindC (must_malloc_arr h oc ''op_pool_init_with_cap malloc ops'') (\<lambda>ops_arr.
     bindC (must_malloc_arr h fc ''op_pool_init_with_cap malloc free_ops_idx'') (\<lambda>free_arr.
     ret \<lparr>ops_next_idx = 0, ops_cap = oc, ops = ops_arr,
          free_len = 0, free_cap = fc, free_ops_idx = free_arr\<rparr>))"

definition op_pool_init :: "operation heap \<Rightarrow> op_pool comp" where
  "op_pool_init h = op_pool_init_with_cap OPERATIONS_INIT_CAP FREE_OPS_INIT_CAP h"

definition op_pool_deinit :: "op_pool \<Rightarrow> operation heap \<Rightarrow> operation heap comp" where
  "op_pool_deinit pool h =
     foldC (\<lambda>i h. bindC (aread (ops pool) i) (\<lambda>p. hfree h p)) [0..<ops_next_idx pool] h"

definition op_pool_get :: "op_pool \<Rightarrow> nat \<Rightarrow> nat option comp" where
  "op_pool_get pool pool_id =
     bindC (assertC (pool_id < ops_next_idx pool) ''pool_id < pool->ops_next_idx'') (\<lambda>_.
     aread (ops pool) pool_id)"

definition op_pool_new_entry ::
  "op_pool \<Rightarrow> operation heap \<Rightarrow> (nat \<times> op_pool \<times> operation heap) comp" where
  "op_pool_new_entry pool h =
     (if free_len pool \<noteq> 0 then
        bindC (aread (free_ops_idx pool) (free_len pool - 1)) (\<lambda>slot.
        bindC (ptr slot) (\<lambda>pool_id.
        let pool = pool\<lparr>free_len := free_len pool - 1\<rparr> in
        bindC (aread (ops pool) pool_id) (\<lambda>p.
        bindC (ptr p) (\<lambda>a.
        bindC (hget h a) (\<lambda>op.
        bindC (assertC (op_pool_id op = pool_id) ''op->pool_id == pool_id'') (\<lambda>_.
        ret (a, pool, h)))))))
      else
        bindC
          (if ops_next_idx pool = ops_cap pool
           then bindC (must_realloc h (ops pool) (ops_cap pool * 2) ''op_pool_new_entry realloc ops'')
                  (\<lambda>arr. ret (pool\<lparr>ops_cap := ops_cap pool * 2, ops := arr\<rparr>))
           else ret pool) (\<lambda>pool.
        bindC (must_malloc id h ''op_pool_new_entry malloc op'') (\<lambda>(a, h).
        bindC (hget h a) (\<lambda>op.
        bindC (hput h a (op\<lparr>op_pool_id := ops_next_idx pool, op_client_fd := - 1, op_buf_ref := None\<rparr>)) (\<lambda>h.
        bindC (awrite (ops pool) (ops_next_idx pool) (Some a)) (\<lambda>arr.
        ret (a, pool\<lparr>ops := arr, ops_next_idx := Suc (ops_next_idx pool)\<rparr>, h)))))))"

text \<open>The doubled capacity is a number here: it wraps only for arrays that do not fit in memory.\<close>

definition op_pool_return :: "op_pool \<Rightarrow> operation heap \<Rightarrow> nat \<Rightarrow> op_pool comp" where
  "op_pool_return pool h a =
     bindC (hget h a) (\<lambda>op.
     bindC (assertC (op_buf_ref op = None) ''op->buf_ref == NULL'') (\<lambda>_.
     bindC (assertC (op_client_fd op = - 1) ''op->client_fd == -1'') (\<lambda>_.
     bindC
       (if free_len pool = free_cap pool
        then bindC (must_realloc h (free_ops_idx pool) (free_cap pool * 2) ''pool_put realloc free_ops_idx'')
               (\<lambda>arr. ret (pool\<lparr>free_cap := free_cap pool * 2, free_ops_idx := arr\<rparr>))
        else ret pool) (\<lambda>pool.
     bindC (awrite (free_ops_idx pool) (free_len pool) (Some (op_pool_id op))) (\<lambda>arr.
     ret (pool\<lparr>free_ops_idx := arr, free_len := Suc (free_len pool)\<rparr>))))))"

section \<open>Invariant\<close>

text \<open>
  The addresses of all operations of the pool, in the order of their ids; and the ids of the
  free ones, in the order of the stack.
\<close>

definition pool_addrs :: "op_pool \<Rightarrow> nat list" where
  "pool_addrs p = map the (take (ops_next_idx p) (ops p))"

definition free_ids :: "op_pool \<Rightarrow> nat list" where
  "free_ids p = map the (take (free_len p) (free_ops_idx p))"

definition pool_known :: "op_pool \<times> operation heap \<Rightarrow> nat set" where
  "pool_known = (\<lambda>(p, h). set (pool_addrs p))"

definition pool_idle :: "op_pool \<times> operation heap \<Rightarrow> nat list" where
  "pool_idle = (\<lambda>(p, h). map ((!) (pool_addrs p)) (free_ids p))"

text \<open>What the pool's contract asks of its user: the id of an operation is left alone.\<close>

definition ids_kept :: "op_pool \<Rightarrow> operation heap \<Rightarrow> bool" where
  "ids_kept p h \<longleftrightarrow> (\<forall>i<ops_next_idx p. \<exists>op. cells h (pool_addrs p ! i) = Some op \<and> op_pool_id op = i)"

definition pool_shape :: "op_pool \<Rightarrow> bool" where
  "pool_shape p \<longleftrightarrow>
     0 < ops_cap p \<and> ops_next_idx p \<le> ops_cap p \<and> length (ops p) = ops_cap p \<and>
     0 < free_cap p \<and> free_len p \<le> free_cap p \<and> length (free_ops_idx p) = free_cap p \<and>
     None \<notin> set (take (ops_next_idx p) (ops p)) \<and> None \<notin> set (take (free_len p) (free_ops_idx p)) \<and>
     distinct (pool_addrs p) \<and> distinct (free_ids p) \<and> set (free_ids p) \<subseteq> {..<ops_next_idx p}"

definition pool_inv :: "op_pool \<times> operation heap \<Rightarrow> bool" where
  "pool_inv = (\<lambda>(p, h). heap_wf h \<and> pool_shape p \<and> ids_kept p h)"

text \<open>What the caller owes before it returns an operation.\<close>

definition op_reset :: "op_pool \<times> operation heap \<Rightarrow> nat \<Rightarrow> bool" where
  "op_reset = (\<lambda>(p, h) a. \<exists>op. cells h a = Some op \<and> op_buf_ref op = None \<and> op_client_fd op = - 1)"

lemma length_pool_addrs: "pool_shape p \<Longrightarrow> length (pool_addrs p) = ops_next_idx p"
  by (simp add: pool_shape_def pool_addrs_def)

lemma pool_addrs_nth:
  assumes "pool_shape p" and "i < ops_next_idx p"
  shows "i < length (ops p)" and "ops p ! i = Some (pool_addrs p ! i)"
  using assms used_slot [of "ops_next_idx p" "ops p" i] by (simp_all add: pool_shape_def pool_addrs_def)

lemma pool_idle_known:
  assumes "pool_inv (p, h)"
  shows "set (pool_idle (p, h)) \<subseteq> pool_known (p, h)" and "distinct (pool_idle (p, h))"
proof -
  have shape: "pool_shape p" using assms by (simp add: pool_inv_def)
  show "set (pool_idle (p, h)) \<subseteq> pool_known (p, h)"
    using shape length_pool_addrs [OF shape] by (auto simp: pool_idle_def pool_known_def pool_shape_def)
  have "inj_on ((!) (pool_addrs p)) (set (free_ids p))"
    using shape length_pool_addrs [OF shape]
    by (auto simp: inj_on_def pool_shape_def nth_eq_iff_index_eq subset_iff)
  then show "distinct (pool_idle (p, h))"
    using shape by (simp add: pool_idle_def distinct_map pool_shape_def)
qed

section \<open>Taking and returning an operation\<close>

text \<open>Popping the stack of free ids.\<close>

lemma op_pool_pop:
  assumes inv: "pool_inv (p, h)" and ids: "free_ids p = is @ [i]"
  defines "p' \<equiv> p\<lparr>free_len := free_len p - 1\<rparr>"
  shows "op_pool_new_entry p h = ret (pool_addrs p ! i, p', h)"
    and "free_ids p' = is" and "pool_addrs p' = pool_addrs p" and "pool_inv (p', h)"
proof -
  have shape: "pool_shape p" using inv by (simp add: pool_inv_def)
  have le: "free_len p \<le> length (free_ops_idx p)" and nn: "None \<notin> set (take (free_len p) (free_ops_idx p))"
    using shape by (simp_all add: pool_shape_def)
  have t: "take (free_len p) (free_ops_idx p) = map Some is @ [Some i]"
    using map_the_snoc [OF _ nn] ids by (simp add: free_ids_def)
  note top = take_eq_snocD [OF t le]
  have i: "i < ops_next_idx p" using shape ids by (simp add: pool_shape_def)
  with inv obtain op where op: "cells h (pool_addrs p ! i) = Some op" "op_pool_id op = i"
    by (auto simp: pool_inv_def ids_kept_def)
  show "op_pool_new_entry p h = ret (pool_addrs p ! i, p', h)"
    using top le op pool_addrs_nth [OF shape i]
    by (auto simp: op_pool_new_entry_def aread_def ptr_def hget_def assertC_def Let_def p'_def)
  show ids': "free_ids p' = is"
    using top by (auto simp: free_ids_def p'_def)
  show addrs: "pool_addrs p' = pool_addrs p"
    by (simp add: pool_addrs_def p'_def)
  have "None \<notin> set (take (free_len p') (free_ops_idx p'))"
    using top by (auto simp: p'_def)
  then have "pool_shape p'"
    using shape ids ids' addrs unfolding pool_shape_def by (auto simp: p'_def)
  then show "pool_inv (p', h)"
    using inv addrs by (simp add: pool_inv_def ids_kept_def p'_def)
qed

lemma pool_brk_new:
  assumes "pool_inv (p, h)"
  shows "brk h \<notin> set (pool_addrs p)"
proof -
  have shape: "pool_shape p" using assms by (simp add: pool_inv_def)
  show ?thesis
    using assms length_pool_addrs [OF shape] heap_wf_fresh [of h]
    by (auto simp: pool_inv_def ids_kept_def in_set_conv_nth)
qed

text \<open>No id is free: a new operation with the next id, after doubling a full array.\<close>

lemma op_pool_grow:
  assumes inv: "pool_inv (p, h)" and ids: "free_ids p = []"
  shows "spec (op_pool_new_entry p h) is_exit (\<lambda>(a, p', h'). a = brk h \<and>
    ops_next_idx p' = Suc (ops_next_idx p) \<and> ops_next_idx p' \<le> ops_cap p' \<and>
    length (ops p') = ops_cap p' \<and>
    take (Suc (ops_next_idx p)) (ops p') = take (ops_next_idx p) (ops p) @ [Some a] \<and>
    free_len p' = free_len p \<and> free_cap p' = free_cap p \<and> free_ops_idx p' = free_ops_idx p \<and>
    (\<exists>op. h' = h\<lparr>cells := (cells h)(a \<mapsto> op), brk := Suc (brk h)\<rparr> \<and>
      op_pool_id op = ops_next_idx p \<and> op_client_fd op = - 1 \<and> op_buf_ref op = None))"
proof -
  have shape: "pool_shape p" using inv by (simp add: pool_inv_def)
  with ids have "free_len p = 0" by (auto simp: pool_shape_def free_ids_def)
  with shape show ?thesis
    by (auto simp: op_pool_new_entry_def must_realloc_def must_malloc_def malloc_def fatal_error_def
        pool_shape_def take_snoc_update split: option.splits
        intro!: exI [of _ "(the (fresh h (brk h)))\<lparr>op_pool_id := ops_next_idx p, op_client_fd := - 1, op_buf_ref := None\<rparr>"])
qed

lemma pool_inv_grown:
  assumes inv: "pool_inv (p, h)" and ids: "free_ids p = []"
    and p': "ops_next_idx p' = Suc (ops_next_idx p)" "ops_next_idx p' \<le> ops_cap p'"
      "length (ops p') = ops_cap p'"
      "take (Suc (ops_next_idx p)) (ops p') = take (ops_next_idx p) (ops p) @ [Some (brk h)]"
      "free_len p' = free_len p" "free_cap p' = free_cap p" "free_ops_idx p' = free_ops_idx p"
    and h': "h' = h\<lparr>cells := (cells h)(brk h \<mapsto> op), brk := Suc (brk h)\<rparr>"
    and op: "op_pool_id op = ops_next_idx p"
  shows "pool_addrs p' = pool_addrs p @ [brk h]" and "free_ids p' = []"
    and "pool_inv (p', h')"
proof -
  have shape: "pool_shape p" and wf: "heap_wf h" and kept: "ids_kept p h"
    using inv by (simp_all add: pool_inv_def)
  show addrs: "pool_addrs p' = pool_addrs p @ [brk h]"
    using p'(1,4) by (simp add: pool_addrs_def)
  show free: "free_ids p' = []"
    using ids p'(5,7) by (simp add: free_ids_def)
  note new = pool_brk_new [OF inv]
  have "pool_shape p'"
    using shape p' new addrs free by (auto simp: pool_shape_def)
  moreover have "ids_kept p' h'"
    using kept new op h' p'(1) length_pool_addrs [OF shape] unfolding ids_kept_def addrs
    by (auto simp: nth_append less_Suc_eq in_set_conv_nth)
  ultimately show "pool_inv (p', h')"
    using wf h' by (simp add: pool_inv_def)
qed

text \<open>Returning an operation pushes its id, after doubling a full array.\<close>

lemma op_pool_return_fields:
  assumes "pool_shape p" and "cells h a = Some op" and "op_buf_ref op = None" and "op_client_fd op = - 1"
  shows "spec (op_pool_return p h a) is_exit (\<lambda>p'.
    ops_next_idx p' = ops_next_idx p \<and> ops_cap p' = ops_cap p \<and> ops p' = ops p \<and>
    free_len p' = Suc (free_len p) \<and> free_len p' \<le> free_cap p' \<and> length (free_ops_idx p') = free_cap p' \<and>
    free_cap p' = (if free_len p = free_cap p then 2 * free_cap p else free_cap p) \<and>
    take (Suc (free_len p)) (free_ops_idx p') = take (free_len p) (free_ops_idx p) @ [Some (op_pool_id op)])"
  using assms
  by (auto simp: op_pool_return_def must_realloc_def fatal_error_def pool_shape_def take_snoc_update)

lemma pool_inv_pushed:
  assumes inv: "pool_inv (p, h)" and i: "i < ops_next_idx p" "i \<notin> set (free_ids p)"
    and p': "ops_next_idx p' = ops_next_idx p" "ops_cap p' = ops_cap p" "ops p' = ops p"
      "free_len p' = Suc (free_len p)" "free_len p' \<le> free_cap p'" "length (free_ops_idx p') = free_cap p'"
      "take (Suc (free_len p)) (free_ops_idx p') = take (free_len p) (free_ops_idx p) @ [Some i]"
  shows "free_ids p' = free_ids p @ [i]" and "pool_addrs p' = pool_addrs p" and "pool_inv (p', h)"
proof -
  have shape: "pool_shape p" and kept: "ids_kept p h" and wf: "heap_wf h"
    using inv by (simp_all add: pool_inv_def)
  show f: "free_ids p' = free_ids p @ [i]" and a: "pool_addrs p' = pool_addrs p"
    using p' by (simp_all add: free_ids_def pool_addrs_def)
  have "pool_shape p'"
    using shape i p' f a unfolding pool_shape_def by auto
  moreover have "ids_kept p' h" using kept a p'(1) by (simp add: ids_kept_def)
  ultimately show "pool_inv (p', h)" using wf by (simp add: pool_inv_def)
qed

lemma op_pool_push:
  assumes inv: "pool_inv (p, h)" and i: "i < ops_next_idx p" "i \<notin> set (free_ids p)"
    and reset: "op_reset (p, h) (pool_addrs p ! i)"
  shows "spec (op_pool_return p h (pool_addrs p ! i)) is_exit (\<lambda>p'.
    pool_inv (p', h) \<and> free_ids p' = free_ids p @ [i] \<and> pool_addrs p' = pool_addrs p)"
proof -
  from i inv reset obtain op where op: "cells h (pool_addrs p ! i) = Some op" "op_pool_id op = i"
    "op_buf_ref op = None" "op_client_fd op = - 1"
    by (auto simp: ids_kept_def op_reset_def pool_inv_def)
  have "pool_shape p" using inv by (simp add: pool_inv_def)
  note post = op_pool_return_fields [OF this op(1,3,4)]
  show ?thesis
    by (rule spec_conseq [OF post]) (use op(2) pool_inv_pushed [OF inv i] in blast)
qed

text \<open>The operation pool meets the contract of an object pool.\<close>

interpretation operation_pool: recycler pool_inv pool_idle pool_known op_reset
  "\<lambda>(p, h). op_pool_new_entry p h" "\<lambda>(p, h) a. bindC (op_pool_return p h a) (\<lambda>p. ret (p, h))"
proof (unfold_locales, goal_cases)
  case (1 ph)
  then show ?case by (cases ph) (simp add: pool_idle_known)
next
  case (2 ph)
  then show ?case by (cases ph) (simp add: pool_idle_known)
next
  case (3 ph xs x)
  obtain p h where ph: "ph = (p, h)" by (cases ph)
  from 3 ph obtain "is" i where ids: "free_ids p = is @ [i]" and x: "x = pool_addrs p ! i"
    and xs: "xs = map ((!) (pool_addrs p)) is"
    by (auto simp: pool_idle_def map_eq_append_conv)
  show ?case
    using 3 ph ids x xs op_pool_pop [of p h "is" i] by (simp add: pool_idle_def pool_known_def)
next
  case (4 ph)
  obtain p h where ph: "ph = (p, h)" by (cases ph)
  with 4 have ids: "free_ids p = []" by (auto simp: pool_idle_def)
  have inv: "pool_inv (p, h)" using 4 ph by simp
  show ?case
    unfolding ph
    by (auto intro!: spec_conseq [OF op_pool_grow [OF inv ids]] simp: pool_idle_def pool_known_def
        pool_inv_grown [OF inv ids] pool_brk_new [OF inv])
next
  case (5 ph a)
  obtain p h where ph: "ph = (p, h)" by (cases ph)
  have shape: "pool_shape p" using 5 ph by (simp add: pool_inv_def)
  from 5 ph obtain i where i: "i < ops_next_idx p" and a: "a = pool_addrs p ! i"
    using length_pool_addrs [OF shape] by (auto simp: pool_known_def in_set_conv_nth)
  with 5 ph have "i \<notin> set (free_ids p)" by (auto simp: pool_idle_def)
  then show ?case
    using 5 ph i a by (auto intro!: spec_conseq [OF op_pool_push] simp: pool_idle_def pool_known_def)
qed

section \<open>Properties\<close>

text \<open>The invariant together with the contract's other half: what is free has been reset.\<close>

definition pool_clean :: "op_pool \<times> operation heap \<Rightarrow> bool" where
  "pool_clean ph \<longleftrightarrow> pool_inv ph \<and> (\<forall>a\<in>set (pool_idle ph). op_reset ph a)"

lemma op_pool_get_known:
  assumes "pool_shape p" and "i < ops_next_idx p"
  shows "op_pool_get p i = ret (Some (pool_addrs p ! i))"
  using assms pool_addrs_nth [OF assms] by (simp add: op_pool_get_def assertC_def aread_def)

lemma op_reset_heap: "cells h' a = cells h a \<Longrightarrow> op_reset (p', h') a = op_reset (p, h) a"
  by (simp add: op_reset_def)

lemma op_pool_take:
  assumes "pool_clean (p, h)"
  shows "spec (op_pool_new_entry p h) is_exit (\<lambda>(a, p', h').
    pool_clean (p', h') \<and> a \<notin> pool_known (p, h) - set (pool_idle (p, h)) \<and>
    (\<exists>op. cells h' a = Some op \<and> op_buf_ref op = None \<and> op_client_fd op = - 1 \<and>
      op_pool_get p' (op_pool_id op) = ret (Some a)) \<and>
    (pool_idle (p, h) \<noteq> [] \<longrightarrow> pool_idle (p, h) = pool_idle (p', h') @ [a]) \<and>
    (\<forall>a'. a' \<noteq> a \<longrightarrow> cells h' a' = cells h a'))"
proof -
  have inv: "pool_inv (p, h)" and clean: "\<And>a. a \<in> set (pool_idle (p, h)) \<Longrightarrow> op_reset (p, h) a"
    using assms by (auto simp: pool_clean_def)
  have shape: "pool_shape p" using inv by (simp add: pool_inv_def)
  show ?thesis
  proof (cases "free_ids p" rule: rev_cases)
    case Nil
    have "pool_clean (p', h') \<and> op_pool_get p' (ops_next_idx p) = ret (Some (brk h))"
      if "ops_next_idx p' = Suc (ops_next_idx p)" "ops_next_idx p' \<le> ops_cap p'" "length (ops p') = ops_cap p'"
        "take (Suc (ops_next_idx p)) (ops p') = take (ops_next_idx p) (ops p) @ [Some (brk h)]"
        "free_len p' = free_len p" "free_cap p' = free_cap p" "free_ops_idx p' = free_ops_idx p"
        "h' = h\<lparr>cells := (cells h)(brk h \<mapsto> op), brk := Suc (brk h)\<rparr>" "op_pool_id op = ops_next_idx p" for p' h' op
      using pool_inv_grown [OF inv Nil that] that(1) length_pool_addrs [OF shape] Nil
      by (auto simp: pool_clean_def pool_inv_def pool_idle_def pool_known_def op_pool_get_known nth_append)
    moreover have "brk h \<notin> pool_known (p, h)" "pool_idle (p, h) = []"
      using pool_brk_new [OF inv] Nil by (simp_all add: pool_known_def pool_idle_def)
    ultimately show ?thesis
      by (intro spec_conseq [OF op_pool_grow [OF inv Nil]]) auto
  next
    case (snoc "is" i)
    note pop = op_pool_pop [OF inv snoc]
    have idle: "pool_idle (p, h) = map ((!) (pool_addrs p)) is @ [pool_addrs p ! i]"
      using snoc by (simp add: pool_idle_def)
    have i: "i < ops_next_idx p" using shape snoc by (simp add: pool_shape_def)
    from inv i obtain op where op: "cells h (pool_addrs p ! i) = Some op" "op_pool_id op = i"
      by (auto simp: pool_inv_def ids_kept_def)
    moreover have "op_reset (p, h) (pool_addrs p ! i)" using clean idle by simp
    ultimately have "op_buf_ref op = None" "op_client_fd op = - 1" by (auto simp: op_reset_def)
    moreover have idle': "pool_idle (p\<lparr>free_len := free_len p - 1\<rparr>, h) = map ((!) (pool_addrs p)) is"
      using pop(2,3) by (simp add: pool_idle_def)
    have "op_reset (p\<lparr>free_len := free_len p - 1\<rparr>, h) a" if "a \<in> set (map ((!) (pool_addrs p)) is)" for a
      using that clean [of a] idle by (simp add: op_reset_def)
    then have "pool_clean (p\<lparr>free_len := free_len p - 1\<rparr>, h)"
      using pop(4) by (simp only: pool_clean_def idle') simp
    ultimately show ?thesis
      using pop op i idle op_pool_get_known [of "p\<lparr>free_len := free_len p - 1\<rparr>" i]
      by (simp add: pool_idle_def pool_inv_def)
  qed
qed

text \<open>Taking an operation brings exactly that operation into use.\<close>

lemma op_pool_take_busy:
  assumes "pool_clean (p, h)"
  shows "spec (op_pool_new_entry p h) is_exit (\<lambda>(a, p', h'). pool_clean (p', h') \<and>
    a \<notin> pool_known (p, h) - set (pool_idle (p, h)) \<and>
    pool_known (p', h') - set (pool_idle (p', h')) = insert a (pool_known (p, h) - set (pool_idle (p, h))) \<and>
    op_reset (p', h') a \<and> (\<forall>a'. a' \<noteq> a \<longrightarrow> cells h' a' = cells h a'))"
proof -
  have "pool_inv (p, h)" using assms by (simp add: pool_clean_def)
  from spec_conj [OF operation_pool.take_in_use [OF this, simplified] op_pool_take [OF assms]]
  show ?thesis by (rule spec_mono) (auto simp: op_reset_def)
qed

text \<open>Every operation of the pool is found under the id it carries, and the ids differ.\<close>

lemma pool_get_known:
  assumes "pool_inv (p, h)" and "a \<in> pool_known (p, h)"
  obtains op where "cells h a = Some op" "op_pool_get p (op_pool_id op) = ret (Some a)"
proof -
  have shape: "pool_shape p" using assms(1) by (simp add: pool_inv_def)
  obtain i where i: "i < ops_next_idx p" "a = pool_addrs p ! i"
    using assms(2) length_pool_addrs [OF shape] by (auto simp: pool_known_def in_set_conv_nth)
  then obtain op where "cells h a = Some op" "op_pool_id op = i"
    using assms(1) by (auto simp: pool_inv_def ids_kept_def)
  with i show thesis using op_pool_get_known [OF shape i(1)] by (intro that) auto
qed

text \<open>Changing an operation that is in use, but not its id, keeps the pool's contract.\<close>

lemma pool_clean_put:
  assumes "pool_clean (p, h)" and "cells h a = Some op" and "op_pool_id op' = op_pool_id op"
    and "a \<in> set (pool_idle (p, h)) \<Longrightarrow> op_buf_ref op' = None \<and> op_client_fd op' = - 1"
  shows "pool_clean (p, h\<lparr>cells := (cells h)(a \<mapsto> op')\<rparr>)"
    and "pool_known (p, h\<lparr>cells := (cells h)(a \<mapsto> op')\<rparr>) = pool_known (p, h)"
    and "pool_idle (p, h\<lparr>cells := (cells h)(a \<mapsto> op')\<rparr>) = pool_idle (p, h)"
proof -
  have "ids_kept p (h\<lparr>cells := (cells h)(a \<mapsto> op')\<rparr>)"
    using assms(1-3) by (auto simp: pool_clean_def pool_inv_def ids_kept_def)
  then show "pool_clean (p, h\<lparr>cells := (cells h)(a \<mapsto> op')\<rparr>)"
    using assms by (auto simp: pool_clean_def pool_inv_def pool_idle_def op_reset_def)
qed (simp_all add: pool_known_def pool_idle_def)

lemma op_pool_give:
  assumes "pool_clean (p, h)" and "a \<in> pool_known (p, h) - set (pool_idle (p, h))" and "op_reset (p, h) a"
  shows "spec (op_pool_return p h a) is_exit (\<lambda>p'. pool_clean (p', h) \<and>
    pool_known (p', h) - set (pool_idle (p', h)) = pool_known (p, h) - set (pool_idle (p, h)) - {a} \<and>
    spec (op_pool_new_entry p' h) no_fault (\<lambda>(a', p'', h'). a' = a \<and> h' = h))"
proof -
  have inv: "pool_inv (p, h)" using assms(1) by (simp add: pool_clean_def)
  then have shape: "pool_shape p" by (simp add: pool_inv_def)
  from assms(2) obtain i where i: "i < ops_next_idx p" and a: "a = pool_addrs p ! i"
    using length_pool_addrs [OF shape] by (auto simp: pool_known_def in_set_conv_nth)
  with assms(2) have ni: "i \<notin> set (free_ids p)" by (auto simp: pool_idle_def)
  have "pool_clean (p', h) \<and>
      pool_known (p', h) - set (pool_idle (p', h)) = pool_known (p, h) - set (pool_idle (p, h)) - {a} \<and>
      spec (op_pool_new_entry p' h) no_fault (\<lambda>(a', p'', h'). a' = a \<and> h' = h)"
    if "pool_inv (p', h)" "free_ids p' = free_ids p @ [i]" "pool_addrs p' = pool_addrs p" for p'
    using that assms(1,3) a op_pool_pop(1) [OF that(1,2)]
    by (auto simp: pool_clean_def pool_idle_def pool_known_def op_reset_def)
  note good = this
  have reset: "op_reset (p, h) (pool_addrs p ! i)" using assms(3) a by simp
  have "spec (op_pool_return p h a) is_exit (\<lambda>p'.
      pool_inv (p', h) \<and> free_ids p' = free_ids p @ [i] \<and> pool_addrs p' = pool_addrs p)"
    using op_pool_push [OF inv i ni reset] by (simp add: a)
  then show ?thesis
    by (rule spec_conseq) (use good in blast)
qed

lemma op_pool_init_clean:
  assumes "heap_wf h" and "0 < oc" and "0 < fc"
  shows "spec (op_pool_init_with_cap oc fc h) is_exit
    (\<lambda>p. pool_clean (p, h) \<and> pool_known (p, h) = {} \<and> ops_cap p = oc \<and> free_cap p = fc)"
  using assms
  by (simp add: op_pool_init_with_cap_def must_malloc_arr_def fatal_error_def pool_clean_def pool_inv_def
      pool_shape_def ids_kept_def pool_addrs_def free_ids_def pool_idle_def pool_known_def)

text \<open>A pool with two operations: 0 is free, 1 is in use and has been reset.\<close>

definition demo_op :: "nat \<Rightarrow> operation" where
  "demo_op i = \<lparr>op_pool_id = i, op_type = OP_READ, op_client_id = 9, op_client_fd = - 1,
     op_buf_cap = 64, op_buf_len = 12, op_buf_ref = None, op_processed = 0\<rparr>"

definition demo_pool :: op_pool where
  "demo_pool = \<lparr>ops_next_idx = 2, ops_cap = 2, ops = [Some 0, Some 1],
     free_len = 1, free_cap = 1, free_ops_idx = [Some 0]\<rparr>"

definition demo_ops :: "operation heap" where
  "demo_ops = \<lparr>cells = [0 \<mapsto> demo_op 0, 1 \<mapsto> demo_op 1], brk = 2,
     fresh = (\<lambda>n. Some (demo_op 7)), arr_ok = (\<lambda>n. True)\<rparr>"

lemma demo_pool_clean: "pool_clean (demo_pool, demo_ops)"
  by (simp add: pool_clean_def pool_inv_def pool_shape_def ids_kept_def pool_addrs_def free_ids_def
      pool_idle_def op_reset_def demo_pool_def demo_ops_def demo_op_def heap_wf_def less_Suc_eq
      numeral_2_eq_2)

text \<open>
  A new pool: with positive capacities \<open>op_pool_init_with_cap\<close> exits for lack of memory or
  returns a pool that satisfies the pool contract and in which no operation exists.
\<close>

theorem op_pool_init_correct:
  assumes "heap_wf h" and "0 < oc" and "0 < fc"
  shows "spec (op_pool_init_with_cap oc fc h) is_exit
    (\<lambda>p. pool_clean (p, h) \<and> pool_known (p, h) = {} \<and> ops_cap p = oc \<and> free_cap p = fc)"
  using assms by (rule op_pool_init_clean)

theorem op_pool_init_correct_witness:
  "spec (op_pool_init_with_cap 8 4 (empty_heap (undefined :: operation))) is_exit
    (\<lambda>p. pool_clean (p, empty_heap undefined) \<and> pool_known (p, empty_heap (undefined :: operation)) = {} \<and>
      ops_cap p = 8 \<and> free_cap p = 4)"
  using op_pool_init_correct [of "empty_heap (undefined :: operation)" 8 4] by simp

text \<open>
  C29. Taking an operation from a pool that satisfies its contract ends: the process exits for lack
  of memory, or the operation returned was not in use, has no buffer and no descriptor, is found
  again under its pool id by \<open>op_pool_get\<close>, is the operation returned last if one is free, and
  the contract holds again with every other operation unchanged.
\<close>

theorem op_pool_new_entry_correct:
  assumes "pool_clean (p, h)"
  shows "spec (op_pool_new_entry p h) is_exit (\<lambda>(a, p', h').
    pool_clean (p', h') \<and> a \<notin> pool_known (p, h) - set (pool_idle (p, h)) \<and>
    (\<exists>op. cells h' a = Some op \<and> op_buf_ref op = None \<and> op_client_fd op = - 1 \<and>
      op_pool_get p' (op_pool_id op) = ret (Some a)) \<and>
    (pool_idle (p, h) \<noteq> [] \<longrightarrow> pool_idle (p, h) = pool_idle (p', h') @ [a]) \<and>
    (\<forall>a'. a' \<noteq> a \<longrightarrow> cells h' a' = cells h a'))"
  using assms by (rule op_pool_take)

theorem op_pool_new_entry_correct_witness:
  "spec (op_pool_new_entry demo_pool demo_ops) is_exit (\<lambda>(a, p', h'). pool_clean (p', h') \<and>
    a \<notin> pool_known (demo_pool, demo_ops) - set (pool_idle (demo_pool, demo_ops)))"
  by (rule spec_conseq [OF op_pool_new_entry_correct [OF demo_pool_clean]]) auto

text \<open>
  C28. Returning an operation that is in use and has been reset passes every assertion and every
  array access of \<open>op_pool_return\<close>: the process exits for lack of memory, or the pool's contract
  holds again, exactly that operation leaves use, and it is the next one to be handed out.
\<close>

theorem op_pool_return_correct:
  assumes "pool_clean (p, h)" and "a \<in> pool_known (p, h) - set (pool_idle (p, h))" and "op_reset (p, h) a"
  shows "spec (op_pool_return p h a) is_exit (\<lambda>p'. pool_clean (p', h) \<and>
    pool_known (p', h) - set (pool_idle (p', h)) = pool_known (p, h) - set (pool_idle (p, h)) - {a} \<and>
    spec (op_pool_new_entry p' h) no_fault (\<lambda>(a', p'', h'). a' = a \<and> h' = h))"
  using assms by (rule op_pool_give)

theorem op_pool_return_correct_witness:
  "spec (op_pool_return demo_pool demo_ops 1) is_exit (\<lambda>p'. pool_clean (p', demo_ops) \<and>
    spec (op_pool_new_entry p' demo_ops) no_fault (\<lambda>(a', p'', h'). a' = 1 \<and> h' = demo_ops))"
proof -
  have "1 \<in> pool_known (demo_pool, demo_ops) - set (pool_idle (demo_pool, demo_ops))"
    and "op_reset (demo_pool, demo_ops) 1"
    by (simp_all add: pool_known_def pool_idle_def pool_addrs_def free_ids_def op_reset_def
        demo_pool_def demo_ops_def demo_op_def numeral_2_eq_2)
  note r = op_pool_return_correct [OF demo_pool_clean this]
  show ?thesis by (rule spec_conseq [OF r]) auto
qed

text \<open>
  \<open>op_pool_deinit\<close> frees every operation of the pool exactly once, and nothing else.
\<close>

lemma op_pool_deinit_frees_all:
  assumes "pool_inv (p, h)"
  shows "op_pool_deinit p h = ret (h\<lparr>cells := cells h |` (- pool_known (p, h))\<rparr>)"
proof -
  have shape: "pool_shape p" and kept: "ids_kept p h"
    using assms by (simp_all add: pool_inv_def)
  have "take (length (pool_addrs p)) (ops p) = map Some (pool_addrs p)"
    using shape map_Some_the [of "take (ops_next_idx p) (ops p)"]
    by (simp add: length_pool_addrs) (simp add: pool_addrs_def pool_shape_def)
  moreover have "\<forall>a\<in>set (pool_addrs p). cells h a \<noteq> None"
    using kept length_pool_addrs [OF shape] by (metis ids_kept_def in_set_conv_nth option.distinct(1))
  ultimately show ?thesis
    using hfree_prefix [of "pool_addrs p" h "ops p"] shape length_pool_addrs [OF shape]
    by (simp add: op_pool_deinit_def pool_known_def pool_shape_def)
qed

end
