(* ===== verification/Chain.thy ===== *)
theory Chain
  imports Caht_Prelude
begin

text \<open>
  Singly linked chains in a typed heap, and hash tables whose buckets are such chains: the data
  structure of client_map.c and groups.c. \<open>nx\<close> reads a node's next pointer and \<open>key\<close> its key.

  \<open>chain nx h p as\<close>: the pointer \<open>p\<close> leads through exactly the nodes \<open>as\<close> to NULL.
  \<open>table nx key hsh bs h ass\<close>: bucket \<open>i\<close> is the chain \<open>ass ! i\<close>, no node is in two places, every
  node is in the bucket its key hashes to, and no key occurs twice. \<open>entry\<close> is the map from keys
  to nodes that such a table stands for.
\<close>

section \<open>Definitions\<close>

text \<open>The loop \<open>while (node != NULL) { if (match) break; node = node->next; }\<close>.\<close>

partial_function (option) chain_search ::
  "('a \<Rightarrow> bool) \<Rightarrow> ('a \<Rightarrow> nat option) \<Rightarrow> 'a heap \<Rightarrow> nat option \<Rightarrow> nat option comp" where
  "chain_search P nx h p = (case p of
       None \<Rightarrow> ret None
     | Some a \<Rightarrow> bindC (hget h a) (\<lambda>c. if P c then ret (Some a) else chain_search P nx h (nx c)))"

declare chain_search.simps [code]

primrec chain :: "('a \<Rightarrow> nat option) \<Rightarrow> (nat \<rightharpoonup> 'a) \<Rightarrow> nat option \<Rightarrow> nat list \<Rightarrow> bool" where
  "chain nx h p [] \<longleftrightarrow> p = None"
| "chain nx h p (a # as) \<longleftrightarrow> p = Some a \<and> (\<exists>c. h a = Some c \<and> chain nx h (nx c) as)"

definition table ::
  "('a \<Rightarrow> nat option) \<Rightarrow> ('a \<Rightarrow> 'k) \<Rightarrow> ('k \<Rightarrow> nat) \<Rightarrow> nat option list \<Rightarrow> (nat \<rightharpoonup> 'a) \<Rightarrow> nat list list \<Rightarrow> bool" where
  "table nx key hsh bs h ass \<longleftrightarrow>
     length ass = length bs \<and> (\<forall>i<length bs. chain nx h (bs ! i) (ass ! i)) \<and>
     (\<forall>i<length bs. \<forall>a\<in>set (ass ! i). hsh (key (the (h a))) = i) \<and>
     (\<forall>i<length bs. distinct (map (\<lambda>a. key (the (h a))) (ass ! i)))"

definition entry :: "('a \<Rightarrow> 'k) \<Rightarrow> ('k \<Rightarrow> nat) \<Rightarrow> (nat \<rightharpoonup> 'a) \<Rightarrow> nat list list \<Rightarrow> 'k \<rightharpoonup> nat" where
  "entry key hsh h ass k =
     (if hsh k < length ass then find (\<lambda>a. key (the (h a)) = k) (ass ! hsh k) else None)"

section \<open>Chains\<close>

lemma chain_live: "chain nx h p as \<Longrightarrow> set as \<subseteq> dom h"
  by (induction as arbitrary: p) auto

lemma chain_fun_upd_other [simp]:
  "a \<notin> set as \<Longrightarrow> chain nx (h(a := v)) p as = chain nx h p as"
  by (induction as arbitrary: p) auto

lemma chain_same_next:
  "h a = Some c \<Longrightarrow> nx c' = nx c \<Longrightarrow> chain nx (h(a \<mapsto> c')) p as = chain nx h p as"
  by (induction as arbitrary: p) auto

lemma chain_unique: "chain nx h p as \<Longrightarrow> chain nx h p bs \<Longrightarrow> as = bs"
proof (induction as arbitrary: p bs)
  case Nil
  then show ?case by (cases bs) auto
next
  case (Cons a as)
  then show ?case by (cases bs) auto
qed

lemma chain_distinct: "chain nx h p as \<Longrightarrow> distinct as"
proof (induction as arbitrary: p)
  case Nil
  then show ?case by simp
next
  case (Cons a as)
  from Cons.prems obtain c where c: "h a = Some c" "chain nx h (nx c) as" by auto
  have "a \<notin> set as"
  proof
    assume "a \<in> set as"
    then obtain xs ys where as: "as = xs @ a # ys" by (meson split_list)
    have tail: "chain nx h q (zs @ a # ys) \<Longrightarrow> chain nx h (nx c) ys" for q zs
      by (induction zs arbitrary: q) (use c(1) in auto)
    with c(2) as have "chain nx h (nx c) ys" by blast
    then show False using chain_unique [OF c(2)] as by (metis append_Cons append_Nil2 append_assoc append_eq_conv_conj append_same_eq list.distinct(1) self_append_conv2)
  qed
  then show ?case using Cons c by auto
qed

lemma chain_append:
  "chain nx h p (xs @ a # ys) \<Longrightarrow> \<exists>c. h a = Some c \<and> chain nx h (nx c) ys"
  by (induction xs arbitrary: p) auto

lemma chain_search_find:
  "chain nx (cells h) p as \<Longrightarrow>
    chain_search P nx h p = ret (find (\<lambda>a. P (the (cells h a))) as)"
proof (induction as arbitrary: p)
  case Nil
  then show ?case by (simp add: chain_search.simps)
next
  case (Cons a as)
  then show ?case by (auto simp: chain_search.simps [of P nx h "Some a"] hget_def)
qed

text \<open>Unlinking the node after \<open>a\<close>: only the next pointer of \<open>a\<close> changes.\<close>

lemma chain_unlink:
  assumes "chain nx h p (xs @ a # b # ys)" and "h a = Some c" and "h b = Some d" and "nx c' = nx d"
  shows "chain nx (h(a \<mapsto> c')) p (xs @ a # ys)"
proof -
  have "a \<notin> set xs" "a \<notin> set ys" using chain_distinct [OF assms(1)] by auto
  with assms show ?thesis
    by (induction xs arbitrary: p) auto
qed

section \<open>Tables\<close>

lemma in_concat_nth: "a \<in> set (concat ass) \<longleftrightarrow> (\<exists>i<length ass. a \<in> set (ass ! i))"
  by (metis UN_iff in_set_conv_nth set_concat)

lemma find_Some_iff_unique:
  assumes "distinct (map f xs)" and "x \<in> set xs"
  shows "find (\<lambda>a. f a = f x) xs = Some x"
  using assms by (induction xs) (auto dest: image_eqI)

lemma find_None_keys: "find (\<lambda>a. f a = k) xs = None \<longleftrightarrow> k \<notin> f ` set xs"
  by (auto simp: find_None_iff)

lemma table_chain: "table nx key hsh bs h ass \<Longrightarrow> i < length bs \<Longrightarrow> chain nx h (bs ! i) (ass ! i)"
  by (simp add: table_def)

lemma table_before:
  assumes "table nx key hsh bs h ass" and "i < length bs" and "ass ! i = xs @ v # ys"
  shows "\<forall>z\<in>set xs. key (the (h z)) \<noteq> key (the (h v))"
proof -
  have "distinct (map (\<lambda>a. key (the (h a))) (xs @ v # ys))" using assms unfolding table_def by metis
  then show ?thesis by (auto intro: rev_image_eqI)
qed

lemma table_bucket_unique:
  assumes "table nx key hsh bs h ass" and "i < length bs" and "j < length bs"
    and "a \<in> set (ass ! i)" and "a \<in> set (ass ! j)"
  shows "i = j"
  using assms unfolding table_def by metis

lemma table_nodes_live:
  assumes "table nx key hsh bs h ass" and "a \<in> set (concat ass)"
  shows "a \<in> dom h"
proof -
  from assms obtain i where "i < length bs" "a \<in> set (ass ! i)"
    unfolding in_concat_nth by (auto simp: table_def)
  with table_chain [OF assms(1)] chain_live show ?thesis by blast
qed

lemma entry_node:
  assumes "table nx key hsh bs h ass" and "entry key hsh h ass k = Some a"
  shows "hsh k < length bs" and "a \<in> set (ass ! hsh k)" and "key (the (h a)) = k"
  using assms by (auto simp: entry_def table_def find_Some_iff split: if_splits)

lemma entry_of_node:
  assumes "table nx key hsh bs h ass" and "i < length bs" and "a \<in> set (ass ! i)"
  shows "entry key hsh h ass (key (the (h a))) = Some a"
proof -
  have "hsh (key (the (h a))) = i" and "distinct (map (\<lambda>a. key (the (h a))) (ass ! i))"
    using assms by (auto simp: table_def)
  with assms show ?thesis
    by (simp add: entry_def table_def find_Some_iff_unique [of "\<lambda>a. key (the (h a))"])
qed

lemma ran_entry:
  assumes "table nx key hsh bs h ass"
  shows "ran (entry key hsh h ass) = set (concat ass)"
proof (intro set_eqI iffI)
  fix a assume "a \<in> ran (entry key hsh h ass)"
  then obtain k where "entry key hsh h ass k = Some a" by (auto simp: ran_def)
  from entry_node [OF assms this] assms show "a \<in> set (concat ass)"
    unfolding in_concat_nth by (auto simp: table_def)
next
  fix a assume "a \<in> set (concat ass)"
  then obtain i where "i < length bs" "a \<in> set (ass ! i)"
    using assms unfolding in_concat_nth by (auto simp: table_def)
  from entry_of_node [OF assms this] show "a \<in> ran (entry key hsh h ass)"
    by (auto simp: ran_def)
qed

lemma entry_inj:
  assumes "table nx key hsh bs h ass" and "entry key hsh h ass k = Some a" and "entry key hsh h ass k' = Some a"
  shows "k = k'"
  using entry_node(3) [OF assms(1,2)] entry_node(3) [OF assms(1,3)] by simp

text \<open>Searching the bucket of a key finds the key's entry.\<close>

lemma table_search:
  assumes "table nx key hsh bs (cells h) ass" and "hsh k < length bs"
  shows "chain_search (\<lambda>c. key c = k) nx h (bs ! hsh k) = ret (entry key hsh (cells h) ass k)"
  using assms chain_search_find [OF table_chain [OF assms]] by (simp add: entry_def table_def)

text \<open>Changing a node outside the table, or a node's payload, keeps the table and its map.\<close>

lemma table_frame:
  assumes "table nx key hsh bs h ass" and "\<And>a. a \<in> set (concat ass) \<Longrightarrow> h' a = h a"
  shows "table nx key hsh bs h' ass" and "entry key hsh h' ass = entry key hsh h ass"
proof -
  have eq: "h' a = h a" if "i < length ass" "a \<in> set (ass ! i)" for i a
    using assms(2) that in_concat_nth by metis
  have "chain nx h p as \<Longrightarrow> \<forall>a\<in>set as. h' a = h a \<Longrightarrow> chain nx h' p as" for p as
    by (induction as arbitrary: p) auto
  then show "table nx key hsh bs h' ass"
    using assms(1) eq by (auto simp: table_def cong: map_cong)
  show "entry key hsh h' ass = entry key hsh h ass"
    using eq by (auto simp: entry_def fun_eq_iff cong: find_cong)
qed

lemma table_payload:
  assumes "table nx key hsh bs h ass" and "h a = Some c" and "nx c' = nx c" and "key c' = key c"
  shows "table nx key hsh bs (h(a \<mapsto> c')) ass" and "entry key hsh (h(a \<mapsto> c')) ass = entry key hsh h ass"
proof -
  have k: "(\<lambda>x. key (the ((h(a \<mapsto> c')) x))) = (\<lambda>x. key (the (h x)))"
    using assms(2,4) by auto
  show "table nx key hsh bs (h(a \<mapsto> c')) ass"
    using assms chain_same_next [of h a c nx c'] k by (simp add: table_def fun_eq_iff)
  show "entry key hsh (h(a \<mapsto> c')) ass = entry key hsh h ass"
    using k by (simp add: entry_def fun_eq_iff)
qed

text \<open>A new node at the head of its bucket.\<close>

lemma table_insert:
  assumes tab: "table nx key hsh bs h ass" and i: "hsh k < length bs"
    and new: "a \<notin> set (concat ass)" and absent: "entry key hsh h ass k = None"
    and c: "nx c = bs ! hsh k" "key c = k"
  shows "table nx key hsh (bs[hsh k := Some a]) (h(a \<mapsto> c)) (ass[hsh k := a # ass ! hsh k])"
    and "entry key hsh (h(a \<mapsto> c)) (ass[hsh k := a # ass ! hsh k]) = (entry key hsh h ass)(k \<mapsto> a)"
proof -
  have tab': "table nx key hsh bs (h(a \<mapsto> c)) ass" and e: "entry key hsh (h(a \<mapsto> c)) ass = entry key hsh h ass"
    using new by (auto intro!: table_frame [OF tab])
  have len: "length ass = length bs" using tab by (simp add: table_def)
  have "find (\<lambda>x. key (the (h x)) = k) (ass ! hsh k) = None"
    using absent i len by (simp add: entry_def)
  then have "\<forall>x\<in>set (ass ! hsh k). key (the (h x)) \<noteq> k" by (simp add: find_None_iff)
  moreover have "a \<notin> set (ass ! hsh k)" using new i len in_concat_nth by metis
  ultimately have "k \<notin> (\<lambda>x. key (the ((h(a \<mapsto> c)) x))) ` set (ass ! hsh k)"
    by (auto split: if_splits)
  then show "table nx key hsh (bs[hsh k := Some a]) (h(a \<mapsto> c)) (ass[hsh k := a # ass ! hsh k])"
    using tab' i c by (auto simp: table_def nth_list_update)
  have "entry key hsh (h(a \<mapsto> c)) (ass[hsh k := a # ass ! hsh k]) k' = ((entry key hsh (h(a \<mapsto> c)) ass)(k \<mapsto> a)) k'" for k'
    using i c len by (cases "hsh k' = hsh k") (auto simp: entry_def nth_list_update)
  then show "entry key hsh (h(a \<mapsto> c)) (ass[hsh k := a # ass ! hsh k]) = (entry key hsh h ass)(k \<mapsto> a)"
    using e by (simp add: fun_eq_iff)
qed

text \<open>
  A node taken out of its bucket: the bucket's chain is now the rest of it, and no other bucket
  and no key has changed.
\<close>

lemma table_remove_table:
  assumes tab: "table nx key hsh bs h ass" and i: "i < length bs" and split: "ass ! i = xs @ a # ys"
    and ch: "chain nx h' p' (xs @ ys)"
    and keys: "\<And>b. b \<in> set (xs @ ys) \<Longrightarrow> key (the (h' b)) = key (the (h b))"
    and others: "\<And>j b. j < length bs \<Longrightarrow> j \<noteq> i \<Longrightarrow> b \<in> set (ass ! j) \<Longrightarrow> h' b = h b"
  shows "table nx key hsh (bs[i := p']) h' (ass[i := xs @ ys])"
proof -
  have len: "length ass = length bs" using tab by (simp add: table_def)
  have frame: "chain nx h p as \<Longrightarrow> \<forall>a\<in>set as. h' a = h a \<Longrightarrow> chain nx h' p as" for p as
    by (induction as arbitrary: p) auto
  have mk: "map (\<lambda>b. key (the (h' b))) (xs @ ys) = map (\<lambda>b. key (the (h b))) (xs @ ys)"
    using keys by (intro map_cong) auto
  have dist: "distinct (map (\<lambda>b. key (the (h b))) (xs @ a # ys))"
    using tab i split by (simp add: table_def del: distinct_append map_append flip: split)
  then have "distinct (map (\<lambda>b. key (the (h b))) (xs @ ys))" by simp
  then have di: "distinct (map (\<lambda>b. key (the (h' b))) (xs @ ys))" by (simp only: mk)
  have hi: "hsh (key (the (h' b))) = i" if "b \<in> set (xs @ ys)" for b
    using keys [OF that] that tab i split by (auto simp: table_def)
  have same: "distinct (map (\<lambda>b. key (the (h' b))) (ass ! j))" if "j < length bs" "j \<noteq> i" for j
  proof -
    have "map (\<lambda>b. key (the (h' b))) (ass ! j) = map (\<lambda>b. key (the (h b))) (ass ! j)"
      using others [OF that] by (intro map_cong) auto
    then show ?thesis using tab that(1) by (simp only: table_def)
  qed
  show "table nx key hsh (bs[i := p']) h' (ass[i := xs @ ys])"
    unfolding table_def
  proof (intro conjI allI impI ballI)
    fix j assume j: "j < length (bs[i := p'])"
    show "chain nx h' (bs[i := p'] ! j) (ass[i := xs @ ys] ! j)"
      using j ch frame tab len others by (cases "j = i") (auto simp: table_def)
    show "distinct (map (\<lambda>b. key (the (h' b))) (ass[i := xs @ ys] ! j))"
      using j di same tab len by (cases "j = i") (auto simp: table_def)
    fix b assume "b \<in> set (ass[i := xs @ ys] ! j)"
    then show "hsh (key (the (h' b))) = j"
      using j hi tab len others by (cases "j = i") (auto simp: table_def)
  qed (use len in simp)
qed

lemma table_remove_entry:
  assumes tab: "table nx key hsh bs h ass" and i: "i < length bs" and split: "ass ! i = xs @ a # ys"
    and keys: "\<And>b. b \<in> set (xs @ ys) \<Longrightarrow> key (the (h' b)) = key (the (h b))"
    and others: "\<And>j b. j < length bs \<Longrightarrow> j \<noteq> i \<Longrightarrow> b \<in> set (ass ! j) \<Longrightarrow> h' b = h b"
  shows "entry key hsh h' (ass[i := xs @ ys]) = (entry key hsh h ass)(key (the (h a)) := None)"
proof -
  have len: "length ass = length bs" using tab by (simp add: table_def)
  have dist: "distinct (map (\<lambda>b. key (the (h b))) (xs @ a # ys))"
    using tab i split by (simp add: table_def del: distinct_append map_append flip: split)
  have ka: "hsh (key (the (h a))) = i" using tab i split by (auto simp: table_def)
  have "entry key hsh h' (ass[i := xs @ ys]) k = ((entry key hsh h ass)(key (the (h a)) := None)) k" for k
  proof (cases "hsh k = i")
    case True
    have "find (\<lambda>b. key (the (h' b)) = k) (xs @ ys) = find (\<lambda>b. key (the (h b)) = k) (xs @ ys)"
      using keys by (intro find_cong) auto
    moreover have "find (\<lambda>b. key (the (h b)) = k) (xs @ ys) =
        (if k = key (the (h a)) then None else find (\<lambda>b. key (the (h b)) = k) (xs @ a # ys))"
      using dist by (induction xs) (auto simp: find_None_iff dest: sym intro: rev_image_eqI)
    ultimately show ?thesis using True i len split by (simp add: entry_def)
  next
    case False
    have "find (\<lambda>b. key (the (h' b)) = k) (ass ! hsh k) = find (\<lambda>b. key (the (h b)) = k) (ass ! hsh k)"
      if "hsh k < length bs"
      using others [OF that False] by (intro find_cong) auto
    moreover have "k \<noteq> key (the (h a))" using ka False by blast
    ultimately show ?thesis using False len by (simp add: entry_def)
  qed
  then show "entry key hsh h' (ass[i := xs @ ys]) = (entry key hsh h ass)(key (the (h a)) := None)"
    by (simp add: fun_eq_iff)
qed

end
