(* ===== verification/Client_Map.thy ===== *)
theory Client_Map
  imports Chain Utils
begin

text \<open>
  client_map.c: the table of connected clients. A ClientInfo is an object of a typed heap, the
  buckets are chains of them linked by \<open>next\<close>, and deleted ones wait in the array \<open>free\<close> to be
  used again. The bucket count is a 64-bit word, since it masks the 64-bit client id.

  \<open>cm_rep (cm, h) m\<close> says that the map \<open>cm\<close> in the heap \<open>h\<close> stands for the finite map \<open>m\<close> from
  client ids to ClientInfo addresses. The interface \<open>keyed_store\<close> is what the server relies on.
\<close>

section \<open>Definitions\<close>

record client_info =
  ci_client_id :: "64 word"
  ci_client_fd :: int
  ci_client_addr :: "8 word list"
  ci_client_addr_len :: "32 word"
  ci_username :: "8 word list"
  ci_next :: "nat option"

record client_map =
  cm_buckets_cap :: "64 word"
  cm_buckets :: "nat option list"
  cm_free_cap :: nat
  cm_free_len :: nat
  cm_free :: "nat option list"

definition FREE_INIT_LEN :: nat where
  "FREE_INIT_LEN = 64"

text \<open>A ClientInfo with every byte zero: a 16-byte socket address, a 16-byte name.\<close>

definition zero_info :: client_info where
  "zero_info = \<lparr>ci_client_id = 0, ci_client_fd = 0, ci_client_addr = replicate 16 0,
     ci_client_addr_len = 0, ci_username = replicate 16 0, ci_next = None\<rparr>"

definition cm_hash :: "64 word \<Rightarrow> 64 word \<Rightarrow> nat" where
  "cm_hash cap client_id = unat (client_id AND (cap - 1))"

definition client_map_init :: "64 word \<Rightarrow> client_info heap \<Rightarrow> client_map comp" where
  "client_map_init cap h =
     (if cap = 0 \<or> cap AND (cap - 1) \<noteq> 0 then fail (Exit_failure ''cap must be a power of 2'')
      else if \<not> arr_ok h (unat cap) \<or> \<not> arr_ok h FREE_INIT_LEN
      then fail (Exit_failure ''clinet_map_init: calloc'')
      else ret \<lparr>cm_buckets_cap = cap, cm_buckets = replicate (unat cap) None,
                cm_free_cap = FREE_INIT_LEN, cm_free_len = 0, cm_free = replicate FREE_INIT_LEN None\<rparr>)"

text \<open>The node for a new entry: taken out of the free array, or allocated.\<close>

definition cm_node :: "client_map \<Rightarrow> client_info heap \<Rightarrow> (nat \<times> client_map \<times> client_info heap) comp" where
  "cm_node cm h =
     (if cm_free_len cm \<noteq> 0
      then bindC (aread (cm_free cm) 0) (\<lambda>p.
           bindC (ptr p) (\<lambda>node.
           bindC (aread (cm_free cm) (cm_free_len cm - 1)) (\<lambda>lst.
           bindC (awrite (cm_free cm) 0 lst) (\<lambda>fr.
           ret (node, cm\<lparr>cm_free := fr, cm_free_len := cm_free_len cm - 1\<rparr>, h)))))
      else (case malloc id h of
              None \<Rightarrow> fail (Exit_failure ''client_map_get_new: malloc'')
            | Some (node, h) \<Rightarrow> ret (node, cm, h)))"

text \<open>The result is the new ClientInfo, or \<open>None\<close> where the C function returns false.\<close>

definition client_map_new_entry ::
  "client_map \<Rightarrow> client_info heap \<Rightarrow> 64 word \<Rightarrow> (nat option \<times> client_map \<times> client_info heap) comp" where
  "client_map_new_entry cm h client_id =
     (let i = cm_hash (cm_buckets_cap cm) client_id in
      bindC (aread (cm_buckets cm) i) (\<lambda>head.
      bindC (chain_search (\<lambda>c. ci_client_id c = client_id) ci_next h head) (\<lambda>found.
      if found \<noteq> None then ret (None, cm, h)
      else
        bindC (cm_node cm h) (\<lambda>(node, cm, h).
        bindC (aread (cm_buckets cm) i) (\<lambda>old_head.
        bindC (awrite (cm_buckets cm) i (Some node)) (\<lambda>bs.
        bindC (hget h node) (\<lambda>info.
        bindC (hput h node (info\<lparr>ci_next := old_head, ci_client_id := client_id\<rparr>)) (\<lambda>h.
        ret (Some node, cm\<lparr>cm_buckets := bs\<rparr>, h)))))))))"

definition client_map_get :: "client_map \<Rightarrow> client_info heap \<Rightarrow> 64 word \<Rightarrow> nat option comp" where
  "client_map_get cm h client_id =
     bindC (aread (cm_buckets cm) (cm_hash (cm_buckets_cap cm) client_id)) (\<lambda>node.
     chain_search (\<lambda>c. ci_client_id c = client_id) ci_next h node)"

definition client_map_add_free ::
  "client_map \<Rightarrow> client_info heap \<Rightarrow> nat \<Rightarrow> (client_map \<times> client_info heap) comp" where
  "client_map_add_free cm h info =
     bindC
       (if cm_free_len cm = cm_free_cap cm
        then if arr_ok h (cm_free_cap cm * 2)
             then ret (cm\<lparr>cm_free_cap := cm_free_cap cm * 2, cm_free := resize (cm_free_cap cm * 2) (cm_free cm)\<rparr>)
             else fail (Exit_failure ''client_map_add_free: realloc'')
        else ret cm) (\<lambda>cm.
     bindC (hput h info zero_info) (\<lambda>h.
     bindC (awrite (cm_free cm) (cm_free_len cm) (Some info)) (\<lambda>fr.
     ret (cm\<lparr>cm_free := fr, cm_free_len := Suc (cm_free_len cm)\<rparr>, h))))"

text \<open>The loop over the rest of the chain; \<open>prev\<close> is a node, \<open>cur\<close> may be NULL.\<close>

partial_function (option) client_map_delete_loop ::
  "client_map \<Rightarrow> client_info heap \<Rightarrow> 64 word \<Rightarrow> nat \<Rightarrow> nat option \<Rightarrow> (bool \<times> client_map \<times> client_info heap) comp" where
  "client_map_delete_loop cm h client_id prev cur = (case cur of
       None \<Rightarrow> ret (False, cm, h)
     | Some c \<Rightarrow>
         bindC (hget h c) (\<lambda>info.
         if ci_client_id info = client_id
         then bindC (hget h prev) (\<lambda>pinfo.
              bindC (hput h prev (pinfo\<lparr>ci_next := ci_next info\<rparr>)) (\<lambda>h.
              bindC (client_map_add_free cm h c) (\<lambda>(cm, h). ret (True, cm, h))))
         else client_map_delete_loop cm h client_id c (ci_next info)))"

declare client_map_delete_loop.simps [code]

definition client_map_delete ::
  "client_map \<Rightarrow> client_info heap \<Rightarrow> 64 word \<Rightarrow> (bool \<times> client_map \<times> client_info heap) comp" where
  "client_map_delete cm h client_id =
     (let i = cm_hash (cm_buckets_cap cm) client_id in
      bindC (aread (cm_buckets cm) i) (\<lambda>p.
      bindC (ptr p) (\<lambda>head.
      bindC (hget h head) (\<lambda>info.
      if ci_client_id info = client_id
      then bindC (awrite (cm_buckets cm) i (ci_next info)) (\<lambda>bs.
           bindC (client_map_add_free (cm\<lparr>cm_buckets := bs\<rparr>) h head) (\<lambda>(cm, h). ret (True, cm, h)))
      else client_map_delete_loop cm h client_id head (ci_next info)))))"

text \<open>The loops of \<open>client_map_deinit\<close>: a chain is freed node by node, the next pointer read first.\<close>

partial_function (option) free_chain :: "client_info heap \<Rightarrow> nat option \<Rightarrow> client_info heap comp" where
  "free_chain h node = (case node of
       None \<Rightarrow> ret h
     | Some a \<Rightarrow> bindC (hget h a) (\<lambda>info. bindC (hfree h (Some a)) (\<lambda>h. free_chain h (ci_next info))))"

declare free_chain.simps [code]

definition client_map_deinit :: "client_map \<Rightarrow> client_info heap \<Rightarrow> client_info heap comp" where
  "client_map_deinit cm h =
     bindC (foldC (\<lambda>i h. bindC (aread (cm_buckets cm) i) (\<lambda>p. free_chain h p))
              [0..<unat (cm_buckets_cap cm)] h) (\<lambda>h.
     foldC (\<lambda>i h. bindC (aread (cm_free cm) i) (\<lambda>p. hfree h p)) [0..<cm_free_len cm] h)"

section \<open>The interface of a keyed store\<close>

text \<open>
  \<open>rep s m\<close>: the state \<open>s\<close> stands for the finite map \<open>m\<close>. Looking a key up returns its value,
  adding a key that exists changes nothing, adding a new key binds it to a value bound to no
  other key, deleting a key that exists unbinds it; adding and deleting may end the process when
  memory is exhausted.
\<close>

locale keyed_store =
  fixes rep :: "'s \<Rightarrow> ('k \<rightharpoonup> 'v) \<Rightarrow> bool"
    and lookup :: "'s \<Rightarrow> 'k \<Rightarrow> 'v option comp"
    and add :: "'s \<Rightarrow> 'k \<Rightarrow> ('v option \<times> 's) comp"
    and del :: "'s \<Rightarrow> 'k \<Rightarrow> (bool \<times> 's) comp"
  assumes lookup_rep: "rep s m \<Longrightarrow> lookup s k = ret (m k)"
    and values_distinct: "rep s m \<Longrightarrow> m k = Some v \<Longrightarrow> m k' = Some v \<Longrightarrow> k = k'"
    and add_present: "rep s m \<Longrightarrow> m k = Some v \<Longrightarrow> add s k = ret (None, s)"
    and add_absent: "rep s m \<Longrightarrow> m k = None \<Longrightarrow>
      spec (add s k) is_exit (\<lambda>(r, t). \<exists>v. r = Some v \<and> v \<notin> ran m \<and> rep t (m(k \<mapsto> v)))"
    and del_present: "rep s m \<Longrightarrow> m k = Some v \<Longrightarrow>
      spec (del s k) is_exit (\<lambda>(b, t). b \<and> rep t (m(k := None)))"
begin

text \<open>What was added is found, and every other key is found as before.\<close>

lemma add_then_lookup:
  assumes "rep s m" and "m k = None"
  shows "spec (add s k) is_exit (\<lambda>(r, t). r \<noteq> None \<and> lookup t k = ret r \<and>
    (\<forall>k'. k' \<noteq> k \<longrightarrow> lookup t k' = lookup s k'))"
  using assms(1) by (intro spec_conseq [OF add_absent [OF assms]]) (auto simp: lookup_rep)

text \<open>What was deleted is not found any more, and every other key is found as before.\<close>

lemma del_then_lookup:
  assumes "rep s m" and "m k = Some v"
  shows "spec (del s k) is_exit (\<lambda>(b, t). b \<and> lookup t k = ret None \<and>
    (\<forall>k'. k' \<noteq> k \<longrightarrow> lookup t k' = lookup s k'))"
  using assms(1) by (intro spec_conseq [OF del_present [OF assms]]) (auto simp: lookup_rep)

text \<open>Adding a key and deleting it again gives back the same map.\<close>

lemma add_then_del:
  assumes "rep s m" and "m k = None"
  shows "spec (bindC (add s k) (\<lambda>(r, t). del t k)) is_exit (\<lambda>(b, u). b \<and> rep u m)"
proof -
  have "spec (del t k) is_exit (\<lambda>(b, u). b \<and> rep u m)" if "rep t (m(k \<mapsto> v))" for t v
  proof (rule spec_conseq [OF del_present [OF that]])
    have "(m(k \<mapsto> v))(k := None) = m" using assms(2) by auto
    then show "\<And>x. (case x of (b, ta) \<Rightarrow> b \<and> rep ta ((m(k \<mapsto> v))(k := None))) \<Longrightarrow>
        (case x of (b, u) \<Rightarrow> b \<and> rep u m)" by auto
  qed simp
  then show ?thesis
    by (simp add: case_prod_unfold) (intro spec_conseq [OF add_absent [OF assms]], auto simp: case_prod_unfold)
qed

end

section \<open>Representation\<close>

definition cm_idle :: "client_map \<Rightarrow> nat list" where
  "cm_idle cm = map the (take (cm_free_len cm) (cm_free cm))"

definition cm_shape :: "client_map \<Rightarrow> bool" where
  "cm_shape cm \<longleftrightarrow> cm_buckets_cap cm \<noteq> 0 \<and> length (cm_buckets cm) = unat (cm_buckets_cap cm) \<and>
     0 < cm_free_cap cm \<and> cm_free_len cm \<le> cm_free_cap cm \<and> length (cm_free cm) = cm_free_cap cm \<and>
     None \<notin> set (take (cm_free_len cm) (cm_free cm)) \<and> distinct (cm_idle cm)"

abbreviation cm_table :: "client_map \<Rightarrow> (nat \<rightharpoonup> client_info) \<Rightarrow> nat list list \<Rightarrow> bool" where
  "cm_table cm \<equiv> table ci_next ci_client_id (cm_hash (cm_buckets_cap cm)) (cm_buckets cm)"

abbreviation cm_entry :: "client_map \<Rightarrow> (nat \<rightharpoonup> client_info) \<Rightarrow> nat list list \<Rightarrow> 64 word \<rightharpoonup> nat" where
  "cm_entry cm \<equiv> entry ci_client_id (cm_hash (cm_buckets_cap cm))"

definition cm_rep :: "client_map \<times> client_info heap \<Rightarrow> (64 word \<rightharpoonup> nat) \<Rightarrow> bool" where
  "cm_rep = (\<lambda>(cm, h) m. heap_wf h \<and> cm_shape cm \<and>
     set (cm_idle cm) \<subseteq> dom (cells h) \<and> set (cm_idle cm) \<inter> ran m = {} \<and>
     (\<exists>ass. cm_table cm (cells h) ass \<and> m = cm_entry cm (cells h) ass))"

lemma cm_repE:
  assumes "cm_rep (cm, h) m"
  obtains ass where "heap_wf h" "cm_shape cm" "set (cm_idle cm) \<subseteq> dom (cells h)"
    "set (cm_idle cm) \<inter> ran m = {}" "cm_table cm (cells h) ass" "m = cm_entry cm (cells h) ass"
    "ran m = set (concat ass)"
proof -
  from assms obtain ass where "cm_table cm (cells h) ass" "m = cm_entry cm (cells h) ass"
    and "heap_wf h" "cm_shape cm" "set (cm_idle cm) \<subseteq> dom (cells h)" "set (cm_idle cm) \<inter> ran m = {}"
    by (auto simp: cm_rep_def)
  with ran_entry [OF this(1)] show thesis by (intro that) blast+
qed

lemma cm_hash_bound: "cm_shape cm \<Longrightarrow> cm_hash (cm_buckets_cap cm) k < length (cm_buckets cm)"
  by (simp add: cm_shape_def cm_hash_def unat_mask_less)

lemma cm_get:
  assumes "cm_rep (cm, h) m"
  shows "client_map_get cm h k = ret (m k)"
proof -
  obtain ass where a: "cm_shape cm" "cm_table cm (cells h) ass" "m = cm_entry cm (cells h) ass"
    using assms by (rule cm_repE)
  then show ?thesis
    using cm_hash_bound [of cm k] table_search [of ci_next ci_client_id _ "cm_buckets cm" h ass k]
    by (simp add: client_map_get_def aread_def)
qed

lemma cm_add_present:
  assumes "cm_rep (cm, h) m" and "m k = Some a"
  shows "client_map_new_entry cm h k = ret (None, cm, h)"
proof -
  have "cm_shape cm" using assms(1) by (rule cm_repE)
  then show ?thesis
    using cm_get [OF assms(1), of k] assms(2) cm_hash_bound [of cm k]
    by (simp add: client_map_new_entry_def client_map_get_def aread_def Let_def)
qed

section \<open>Adding an entry\<close>

lemma cm_node_spec:
  assumes wf: "heap_wf h" and shape: "cm_shape cm" and live: "set (cm_idle cm) \<subseteq> dom (cells h)"
  shows "spec (cm_node cm h) is_exit (\<lambda>(a, cm', h'). cm_shape cm' \<and> heap_wf h' \<and>
    cm_buckets_cap cm' = cm_buckets_cap cm \<and> cm_buckets cm' = cm_buckets cm \<and>
    set (cm_idle cm') = set (cm_idle cm) - {a} \<and>
    (a \<in> set (cm_idle cm) \<and> h' = h \<or> cells h a = None \<and> a = brk h \<and> (\<forall>x. x \<noteq> a \<longrightarrow> cells h' x = cells h x)) \<and>
    cells h' a \<noteq> None)"
proof (cases "cm_free_len cm = 0")
  case True
  then have "cm_idle cm = []" by (simp add: cm_idle_def)
  with True show ?thesis
    using wf shape heap_wf_fresh [OF wf]
    by (auto simp: cm_node_def malloc_def split: option.splits)
next
  case False
  let ?n = "cm_free_len cm" and ?ids = "cm_idle cm"
  have n: "?n \<le> length (cm_free cm)" and nn: "None \<notin> set (take ?n (cm_free cm))" and d: "distinct ?ids"
    using shape by (auto simp: cm_shape_def)
  have xs: "take ?n (cm_free cm) = map Some ?ids" using map_Some_the [OF nn] by (simp add: cm_idle_def)
  then have len: "length ?ids = ?n" using n by (metis length_map length_take min.absorb2)
  have x: "cm_free cm ! i = Some (?ids ! i)" if "i < ?n" for i
    using used_slot [OF nn that n] by (simp add: cm_idle_def)
  let ?fr = "(cm_free cm)[0 := cm_free cm ! (?n - 1)]" and ?ids' = "take (?n - 1) (?ids[0 := ?ids ! (?n - 1)])"
  let ?cm = "cm\<lparr>cm_free := ?fr, cm_free_len := ?n - 1\<rparr>"
  have "take (?n - 1) ?fr = take (?n - 1) ((take ?n (cm_free cm))[0 := cm_free cm ! (?n - 1)])"
    by (simp add: take_update_swap min_def)
  also have "\<dots> = map Some ?ids'"
    using False x [of "?n - 1"] by (simp add: xs map_update flip: take_map)
  finally have fr: "take (?n - 1) ?fr = map Some ?ids'" .
  then have idle: "cm_idle ?cm = ?ids'" by (simp add: cm_idle_def comp_def)
  have "?ids \<noteq> []" using False len by auto
  note sw = swap_remove_first [OF d this, unfolded len]
  have "cm_shape ?cm"
    using shape fr idle sw(1) by (auto simp: cm_shape_def)
  moreover have "cm_node cm h = ret (?ids ! 0, ?cm, h)"
    using False n x [of 0] by (auto simp: cm_node_def aread_def awrite_def ptr_def)
  moreover have "?ids ! 0 \<in> set ?ids" using False len by simp
  moreover have "cells h (?ids ! 0) \<noteq> None" using live calculation(3) by blast
  ultimately show ?thesis
    using wf sw(2) idle by simp
qed

text \<open>Linking a node that is in no bucket at the head of the bucket of a new key.\<close>

lemma cm_link:
  assumes rep: "cm_rep (cm, h) m" and k: "m k = None"
    and cm1: "cm_shape cm1" "cm_buckets_cap cm1 = cm_buckets_cap cm" "cm_buckets cm1 = cm_buckets cm"
      "set (cm_idle cm1) = set (cm_idle cm) - {a}"
    and h1: "heap_wf h1" "cells h1 a = Some c" "\<And>x. x \<noteq> a \<Longrightarrow> cells h1 x = cells h x" and new: "a \<notin> ran m"
  defines "i \<equiv> cm_hash (cm_buckets_cap cm) k"
  shows "cm_rep (cm1\<lparr>cm_buckets := (cm_buckets cm)[i := Some a]\<rparr>,
    h1\<lparr>cells := (cells h1)(a \<mapsto> c\<lparr>ci_next := cm_buckets cm ! i, ci_client_id := k\<rparr>)\<rparr>) (m(k \<mapsto> a))"
proof -
  obtain ass where shape: "cm_shape cm" and live: "set (cm_idle cm) \<subseteq> dom (cells h)"
    and sep: "set (cm_idle cm) \<inter> ran m = {}" and tab: "cm_table cm (cells h) ass"
    and m: "m = cm_entry cm (cells h) ass" and ran: "ran m = set (concat ass)"
    using rep by (rule cm_repE)
  let ?c = "c\<lparr>ci_next := cm_buckets cm ! i, ci_client_id := k\<rparr>"
  have i: "i < length (cm_buckets cm)" unfolding i_def using shape by (rule cm_hash_bound)
  have fr: "cells h1 x = cells h x" if "x \<in> set (concat ass)" for x
    using that h1(3) new ran by metis
  note tab1 = table_frame(1) [OF tab fr]
  have m1: "m = cm_entry cm (cells h1) ass" using m table_frame(2) [OF tab fr] by simp
  have "a \<notin> set (concat ass)" using new ran by metis
  note ins = table_insert [OF tab1 i [unfolded i_def] this k [unfolded m1], of ?c]
  have t: "table ci_next ci_client_id (cm_hash (cm_buckets_cap cm)) ((cm_buckets cm)[i := Some a])
      ((cells h1)(a \<mapsto> ?c)) (ass[i := a # ass ! i])"
    using ins(1) by (simp add: i_def)
  have e: "cm_entry cm ((cells h1)(a \<mapsto> ?c)) (ass[i := a # ass ! i]) = m(k \<mapsto> a)"
    using ins(2) by (simp add: i_def flip: m1)
  have idle: "cm_idle (cm1\<lparr>cm_buckets := bs\<rparr>) = cm_idle cm1" for bs
    by (simp add: cm_idle_def)
  have s: "cm_shape (cm1\<lparr>cm_buckets := (cm_buckets cm)[i := Some a]\<rparr>)"
    using cm1(1-3) by (simp add: cm_shape_def cm_idle_def)
  have "x \<in> dom ((cells h1)(a \<mapsto> ?c))" if "x \<in> set (cm_idle cm1)" for x
    using that cm1(4) live h1(3) [of x] by auto
  moreover have "set (cm_idle cm1) \<inter> ran (m(k \<mapsto> a)) = {}"
    using cm1(4) sep k by auto
  ultimately show ?thesis
    using s h1(1,2) t e idle cm1(2) unfolding cm_rep_def by auto
qed

lemma cm_add_absent:
  assumes rep: "cm_rep (cm, h) m" and k: "m k = None"
  shows "spec (client_map_new_entry cm h k) is_exit (\<lambda>(r, cm', h'). \<exists>a. r = Some a \<and> a \<notin> ran m \<and>
    cm_rep (cm', h') (m(k \<mapsto> a)) \<and> (\<exists>c. cells h' a = Some c \<and> ci_client_id c = k) \<and>
    (\<forall>x. x \<noteq> a \<longrightarrow> cells h' x = cells h x))"
proof -
  obtain ass where wf: "heap_wf h" and shape: "cm_shape cm" and live: "set (cm_idle cm) \<subseteq> dom (cells h)"
    and sep: "set (cm_idle cm) \<inter> ran m = {}" and tab: "cm_table cm (cells h) ass" and ran: "ran m = set (concat ass)"
    using rep by (rule cm_repE)
  let ?i = "cm_hash (cm_buckets_cap cm) k"
  have i: "?i < length (cm_buckets cm)" using shape by (rule cm_hash_bound)
  have search: "client_map_get cm h k = ret None" using cm_get [OF rep] k by simp
  have "spec (cm_node cm h) is_exit (\<lambda>(a, cm1, h1). \<exists>c. cells h1 a = Some c \<and> a \<notin> ran m \<and>
      cm_buckets cm1 = cm_buckets cm \<and> (\<forall>x. x \<noteq> a \<longrightarrow> cells h1 x = cells h x) \<and>
      cm_rep (cm1\<lparr>cm_buckets := (cm_buckets cm)[?i := Some a]\<rparr>,
        h1\<lparr>cells := (cells h1)(a \<mapsto> c\<lparr>ci_next := cm_buckets cm ! ?i, ci_client_id := k\<rparr>)\<rparr>) (m(k \<mapsto> a)))"
  proof (rule spec_conseq [OF cm_node_spec [OF wf shape live]], clarify)
    fix a cm1 h1 c
    assume node: "cm_shape cm1" "heap_wf h1" "cm_buckets_cap cm1 = cm_buckets_cap cm" "cm_buckets cm1 = cm_buckets cm"
      "set (cm_idle cm1) = set (cm_idle cm) - {a}"
      "a \<in> set (cm_idle cm) \<and> h1 = h \<or> cells h a = None \<and> a = brk h \<and> (\<forall>x. x \<noteq> a \<longrightarrow> cells h1 x = cells h x)"
      "cells h1 a = Some c"
    have new: "a \<notin> ran m" using node(6) sep table_nodes_live [OF tab, of a] ran by auto
    have frame: "cells h1 x = cells h x" if "x \<noteq> a" for x using node(6) that by auto
    show "\<exists>c. cells h1 a = Some c \<and> a \<notin> ran m \<and>
      cm_buckets cm1 = cm_buckets cm \<and> (\<forall>x. x \<noteq> a \<longrightarrow> cells h1 x = cells h x) \<and>
      cm_rep (cm1\<lparr>cm_buckets := (cm_buckets cm)[?i := Some a]\<rparr>,
        h1\<lparr>cells := (cells h1)(a \<mapsto> c\<lparr>ci_next := cm_buckets cm ! ?i, ci_client_id := k\<rparr>)\<rparr>) (m(k \<mapsto> a))"
      using cm_link [OF rep k node(1,3,4,5,2,7) frame new] node(4,7) new frame by blast
  qed
  then show ?thesis
    using i search
    by (auto simp: client_map_new_entry_def client_map_get_def Let_def aread_def case_prod_unfold elim!: spec_conseq)
qed

section \<open>Deleting an entry\<close>

lemma cm_add_free_spec:
  assumes wf: "heap_wf h" and shape: "cm_shape cm" and a: "a \<notin> set (cm_idle cm)" "cells h a = Some c"
  shows "spec (client_map_add_free cm h a) is_exit (\<lambda>(cm', h'). cm_shape cm' \<and>
    cm_buckets cm' = cm_buckets cm \<and> cm_buckets_cap cm' = cm_buckets_cap cm \<and>
    cm_idle cm' = cm_idle cm @ [a] \<and> h' = h\<lparr>cells := (cells h)(a \<mapsto> zero_info)\<rparr>)"
proof -
  have push: "cm_shape (g\<lparr>cm_free := (cm_free g)[cm_free_len g := Some a], cm_free_len := Suc (cm_free_len g)\<rparr>) \<and>
      cm_idle (g\<lparr>cm_free := (cm_free g)[cm_free_len g := Some a], cm_free_len := Suc (cm_free_len g)\<rparr>) = cm_idle g @ [a]"
    if "cm_shape g" "cm_free_len g < cm_free_cap g" "a \<notin> set (cm_idle g)" for g
    using that by (auto simp: cm_shape_def cm_idle_def take_snoc_update)
  let ?g = "cm\<lparr>cm_free_cap := cm_free_cap cm * 2, cm_free := resize (cm_free_cap cm * 2) (cm_free cm)\<rparr>"
  have g: "cm_shape ?g" "cm_idle ?g = cm_idle cm"
    using shape by (auto simp: cm_shape_def cm_idle_def)
  show ?thesis
  proof (cases "cm_free_len cm = cm_free_cap cm")
    case True
    then show ?thesis
      using push [of ?g] g shape a by (auto simp: client_map_add_free_def cm_shape_def)
  next
    case False
    then show ?thesis
      using push [of cm] shape a by (auto simp: client_map_add_free_def cm_shape_def)
  qed
qed

text \<open>
  Taking the node \<open>a\<close> out of its chain: \<open>h1\<close> is the heap in which the bucket starts with \<open>p\<close> and the
  nodes around \<open>a\<close> are linked to each other.
\<close>

lemma cm_unlink_table:
  assumes tab: "cm_table cm (cells h) ass" and i: "i < length (cm_buckets cm)" and split: "ass ! i = xs @ a # ys"
    and ch: "chain ci_next (cells h1) p (xs @ ys)"
    and keys: "\<And>b. b \<in> set (xs @ ys) \<Longrightarrow> ci_client_id (the (cells h1 b)) = ci_client_id (the (cells h b))"
    and others: "\<And>b. b \<notin> set (xs @ ys) \<Longrightarrow> cells h1 b = cells h b"
  shows "cm_table (cm\<lparr>cm_buckets := (cm_buckets cm)[i := p]\<rparr>) (cells h1) (ass[i := xs @ ys])"
    and "cm_entry cm (cells h1) (ass[i := xs @ ys]) = (cm_entry cm (cells h) ass)(ci_client_id (the (cells h a)) := None)"
proof -
  have "cells h1 b = cells h b" if "j < length (cm_buckets cm)" "j \<noteq> i" "b \<in> set (ass ! j)" for j b
  proof (rule others)
    show "b \<notin> set (xs @ ys)"
    proof
      assume "b \<in> set (xs @ ys)"
      then have "b \<in> set (ass ! i)" using split by auto
      with table_bucket_unique [OF tab that(1) i that(3)] that(2) show False by blast
    qed
  qed
  then show "cm_table (cm\<lparr>cm_buckets := (cm_buckets cm)[i := p]\<rparr>) (cells h1) (ass[i := xs @ ys])"
    and "cm_entry cm (cells h1) (ass[i := xs @ ys]) = (cm_entry cm (cells h) ass)(ci_client_id (the (cells h a)) := None)"
    using table_remove_table [OF tab i split ch keys] table_remove_entry [OF tab i split keys] by auto
qed

text \<open>The node is then added to the free array: its key is unbound.\<close>

lemma cm_unlink_free:
  assumes rep: "cm_rep (cm, h) m" and tab: "cm_table cm (cells h) ass" and m: "m = cm_entry cm (cells h) ass"
    and i: "i < length (cm_buckets cm)" and split: "ass ! i = xs @ a # ys"
    and k: "ci_client_id (the (cells h a)) = k"
    and h1: "heap_wf h1" "dom (cells h1) = dom (cells h)" and ch: "chain ci_next (cells h1) p (xs @ ys)"
    and keys: "\<And>b. b \<in> set (xs @ ys) \<Longrightarrow> ci_client_id (the (cells h1 b)) = ci_client_id (the (cells h b))"
    and others: "\<And>b. b \<notin> set (xs @ ys) \<Longrightarrow> cells h1 b = cells h b"
  shows "spec (client_map_add_free (cm\<lparr>cm_buckets := (cm_buckets cm)[i := p]\<rparr>) h1 a) is_exit
    (\<lambda>(cm', h'). cm_rep (cm', h') (m(k := None)) \<and> a \<in> set (cm_idle cm'))"
proof -
  let ?cm = "cm\<lparr>cm_buckets := (cm_buckets cm)[i := p]\<rparr>" and ?ass = "ass[i := xs @ ys]"
  have len: "length ass = length (cm_buckets cm)" using tab by (simp add: table_def)
  have ran: "ran m = set (concat ass)" using ran_entry [OF tab] m by simp
  have shape: "cm_shape cm" and live: "set (cm_idle cm) \<subseteq> dom (cells h)" and sep: "set (cm_idle cm) \<inter> ran m = {}"
    using rep by (auto elim: cm_repE)
  have "a \<in> set (concat ass)" using i len split unfolding in_concat_nth by (metis in_set_conv_decomp)
  then have idle: "a \<notin> set (cm_idle cm)" and adom: "a \<in> dom (cells h)"
    using sep ran table_nodes_live [OF tab] by auto
  then obtain c where c: "cells h1 a = Some c" using h1(2) by auto
  have rem: "cm_table ?cm (cells h1) ?ass"
    "cm_entry cm (cells h1) ?ass = (cm_entry cm (cells h) ass)(ci_client_id (the (cells h a)) := None)"
    using cm_unlink_table [OF tab i split ch keys others] by simp_all
  have e: "cm_entry cm (cells h1) ?ass = m(k := None)" using rem(2) k m by simp
  have "set (concat ?ass) = ran (m(k := None))" using ran_entry [OF rem(1)] e by simp
  moreover have "a \<notin> ran (m(k := None))"
  proof
    assume "a \<in> ran (m(k := None))"
    then obtain k' where "k' \<noteq> k" "m k' = Some a" by (auto simp: ran_def split: if_splits)
    then show False using entry_node(3) [OF tab, of k' a] k m by simp
  qed
  ultimately have fr: "((cells h1)(a \<mapsto> zero_info)) b = cells h1 b" if "b \<in> set (concat ?ass)" for b
    using that by auto
  note z = table_frame [OF rem(1), of "(cells h1)(a \<mapsto> zero_info)", OF fr]
  have reps: "cm_rep (cm', h1\<lparr>cells := (cells h1)(a \<mapsto> zero_info)\<rparr>) (m(k := None))"
    if "cm_shape cm'" "cm_buckets cm' = (cm_buckets cm)[i := p]" "cm_buckets_cap cm' = cm_buckets_cap cm"
      "cm_idle cm' = cm_idle cm @ [a]" for cm'
  proof -
    have "set (cm_idle cm') \<subseteq> dom ((cells h1)(a \<mapsto> zero_info))" using that(4) live h1(2) by auto
    moreover have "ran (m(k := None)) \<subseteq> ran m" by (auto simp: ran_def)
    then have "set (cm_idle cm') \<inter> ran (m(k := None)) = {}"
      using that(4) sep \<open>a \<notin> ran (m(k := None))\<close> by auto
    moreover have "m(k := None) = cm_entry cm ((cells h1)(a \<mapsto> zero_info)) ?ass" using z(2) e by simp
    moreover have "cm_table cm' ((cells h1)(a \<mapsto> zero_info)) ?ass" using z(1) that(2,3) by simp
    ultimately show ?thesis
      unfolding cm_rep_def using that(1,3) h1(1) c by auto
  qed
  have "cm_shape ?cm" "cm_idle ?cm = cm_idle cm" using shape by (simp_all add: cm_shape_def cm_idle_def)
  from cm_add_free_spec [OF h1(1) this(1), of a c] this(2) idle c show ?thesis
    by (auto elim!: spec_conseq dest: reps)
qed

text \<open>The loop, started at the node \<open>prev\<close>, unlinks the first later node with the key.\<close>

lemma client_map_delete_loop_found:
  assumes "chain ci_next (cells h) (Some prev) (prev # zs @ a # ys)"
    and "\<forall>z\<in>set zs. ci_client_id (the (cells h z)) \<noteq> k" and "ci_client_id (the (cells h a)) = k"
  shows "client_map_delete_loop cm h k prev (ci_next (the (cells h prev))) =
    bindC (client_map_add_free cm (h\<lparr>cells := (cells h)(last (prev # zs) \<mapsto>
        (the (cells h (last (prev # zs))))\<lparr>ci_next := ci_next (the (cells h a))\<rparr>)\<rparr>) a)
      (\<lambda>(cm, h). ret (True, cm, h))"
  using assms
proof (induction zs arbitrary: prev)
  case Nil
  then obtain c ca where "cells h prev = Some c" "ci_next c = Some a" "cells h a = Some ca" "ci_client_id ca = k"
    by auto
  then show ?case
    by (simp add: client_map_delete_loop.simps [of cm h k prev "Some a"] hget_def hput_def fun_upd_def case_prod_unfold)
next
  case (Cons z zs)
  then obtain cz where z: "cells h z = Some cz" "ci_next (the (cells h prev)) = Some z" by auto
  have "chain ci_next (cells h) (Some z) (z # zs @ a # ys)" using Cons.prems(1) by auto
  from Cons.IH [OF this] Cons.prems(2,3) z show ?case
    by (simp add: client_map_delete_loop.simps [of cm h k prev "Some z"] hget_def)
qed

lemma client_map_delete_loop_absent:
  assumes "chain ci_next (cells h) p zs" and "\<forall>z\<in>set zs. ci_client_id (the (cells h z)) \<noteq> k"
  shows "client_map_delete_loop cm h k prev p = ret (False, cm, h)"
  using assms
proof (induction zs arbitrary: prev p)
  case Nil
  then show ?case by (simp add: client_map_delete_loop.simps)
next
  case (Cons z zs)
  then show ?case
    by (auto simp: client_map_delete_loop.simps [of cm h k prev "Some z"] hget_def)
qed

lemma cm_unlink_chain:
  assumes ch: "chain ci_next c p (xs @ v # ys)" and xs: "xs \<noteq> []" and l: "c (last xs) = Some cl"
  shows "chain ci_next (c(last xs \<mapsto> cl\<lparr>ci_next := ci_next (the (c v))\<rparr>)) p (xs @ ys)"
proof -
  have bl: "butlast xs @ last xs # zz = xs @ zz" for zz
    using append_butlast_last_id [OF xs] by (metis append.assoc append_Cons append_Nil)
  obtain cv where cv: "c v = Some cv" using chain_live [OF ch] by auto
  have "chain ci_next (c(last xs \<mapsto> cl\<lparr>ci_next := ci_next (the (c v))\<rparr>)) p (butlast xs @ last xs # ys)"
    by (rule chain_unlink [where b = v and c = cl and d = cv]) (use ch l cv in \<open>simp_all add: bl\<close>)
  then show ?thesis by (simp add: bl)
qed

lemma cm_del_present:
  assumes rep: "cm_rep (cm, h) m" and v: "m k = Some v"
  shows "spec (client_map_delete cm h k) is_exit
    (\<lambda>(b, cm', h'). b \<and> cm_rep (cm', h') (m(k := None)) \<and> v \<in> set (cm_idle cm'))"
proof -
  obtain ass where wf: "heap_wf h" and tab: "cm_table cm (cells h) ass" and m: "m = cm_entry cm (cells h) ass"
    using rep by (rule cm_repE)
  let ?i = "cm_hash (cm_buckets_cap cm) k"
  have e: "?i < length (cm_buckets cm)" "v \<in> set (ass ! ?i)" "ci_client_id (the (cells h v)) = k"
    using entry_node [OF tab] v m by auto
  then obtain xs ys where split: "ass ! ?i = xs @ v # ys" by (meson split_list)
  note ch = table_chain [OF tab e(1), unfolded split]
  note unlink = cm_unlink_free [OF rep tab m e(1) split e(3)]
  have keys: "\<forall>z\<in>set xs. ci_client_id (the (cells h z)) \<noteq> k" using table_before [OF tab e(1) split] e(3) by simp
  show ?thesis
  proof (cases xs)
    case Nil
    then obtain c where c: "cm_buckets cm ! ?i = Some v" "cells h v = Some c" "chain ci_next (cells h) (ci_next c) ys"
      using ch by auto
    have "spec (client_map_add_free (cm\<lparr>cm_buckets := (cm_buckets cm)[?i := ci_next c]\<rparr>) h v) is_exit
        (\<lambda>(cm', h'). cm_rep (cm', h') (m(k := None)) \<and> v \<in> set (cm_idle cm'))"
      by (rule unlink) (use wf c(3) Nil in simp_all)
    then show ?thesis
      using c e by (auto simp: client_map_delete_def Let_def aread_def case_prod_unfold)
  next
    case (Cons hd zs)
    let ?l = "last (hd # zs)" and ?p = "cm_buckets cm ! ?i"
    obtain c where c: "?p = Some hd" "cells h hd = Some c" using ch Cons by auto
    have l: "?l \<in> set (xs @ ys)" using last_in_set [of xs] Cons by (auto simp del: last_in_set last.simps)
    then obtain cl where cl: "cells h ?l = Some cl" using chain_live [OF ch] by auto
    let ?h = "h\<lparr>cells := (cells h)(?l \<mapsto> cl\<lparr>ci_next := ci_next (the (cells h v))\<rparr>)\<rparr>"
    have "chain ci_next (cells ?h) ?p (xs @ ys)" using cm_unlink_chain [OF ch] cl Cons by (simp del: last.simps)
    moreover have "dom (cells ?h) = dom (cells h)" using cl by auto
    ultimately have "spec (client_map_add_free (cm\<lparr>cm_buckets := (cm_buckets cm)[?i := ?p]\<rparr>) ?h v) is_exit
        (\<lambda>(cm', h'). cm_rep (cm', h') (m(k := None)) \<and> v \<in> set (cm_idle cm'))"
      by (intro unlink) (use wf cl l in auto)
    then have "spec (client_map_add_free cm ?h v) is_exit
        (\<lambda>(cm', h'). cm_rep (cm', h') (m(k := None)) \<and> v \<in> set (cm_idle cm'))"
      by (simp only: list_update_id) simp
    moreover have "ci_client_id c \<noteq> k" using keys c Cons by auto
    moreover have "chain ci_next (cells h) (Some hd) (hd # zs @ v # ys)" using ch c Cons by simp
    note client_map_delete_loop_found [OF this, of k cm] 
    ultimately show ?thesis
      using c e keys Cons cl by (auto simp: client_map_delete_def Let_def aread_def hget_def ptr_def case_prod_unfold)
  qed
qed

text \<open>Deleting a key that is not in the map: false, or a NULL dereference when its bucket is empty.\<close>

lemma cm_del_absent:
  assumes rep: "cm_rep (cm, h) m" and k: "m k = None"
  shows "client_map_delete cm h k =
    (if cm_buckets cm ! cm_hash (cm_buckets_cap cm) k = None then fail Null_deref else ret (False, cm, h))"
proof -
  obtain ass where shape: "cm_shape cm" and tab: "cm_table cm (cells h) ass" and m: "m = cm_entry cm (cells h) ass"
    using rep by (rule cm_repE)
  let ?i = "cm_hash (cm_buckets_cap cm) k"
  have i: "?i < length (cm_buckets cm)" using shape by (rule cm_hash_bound)
  have absent: "\<forall>z\<in>set (ass ! ?i). ci_client_id (the (cells h z)) \<noteq> k"
    using k m i tab by (auto simp: entry_def table_def find_None_iff)
  note ch = table_chain [OF tab i]
  show ?thesis
  proof (cases "ass ! ?i")
    case Nil
    then show ?thesis using ch i by (simp add: client_map_delete_def Let_def aread_def ptr_def)
  next
    case (Cons z zs)
    then obtain c where c: "cm_buckets cm ! ?i = Some z" "cells h z = Some c" "chain ci_next (cells h) (ci_next c) zs"
      using ch by auto
    then show ?thesis
      using client_map_delete_loop_absent [OF c(3), of k cm z] absent Cons i
      by (simp add: client_map_delete_def Let_def aread_def ptr_def hget_def)
  qed
qed

section \<open>Creating and freeing the map\<close>

lemma cm_init_rep:
  assumes "heap_wf h" and "cap \<noteq> 0" and "cap AND (cap - 1) = 0" and "arr_ok h (unat cap)" and "arr_ok h FREE_INIT_LEN"
  shows "\<exists>cm. client_map_init cap h = ret cm \<and> cm_rep (cm, h) Map.empty"
proof -
  have t: "table ci_next ci_client_id (cm_hash cap) (replicate (unat cap) None) (cells h) (replicate (unat cap) [])"
    by (simp add: table_def)
  have "entry ci_client_id (cm_hash cap) (cells h) (replicate (unat cap) []) = Map.empty"
    by (auto simp: entry_def fun_eq_iff)
  then have e: "Map.empty = entry ci_client_id (cm_hash cap) (cells h) (replicate (unat cap) [])" by simp
  show ?thesis
    using assms t e
    by (auto simp: client_map_init_def cm_rep_def cm_shape_def cm_idle_def FREE_INIT_LEN_def intro!: exI)
qed

lemma cm_init:
  assumes "heap_wf h"
  shows "spec (client_map_init cap h) is_exit (\<lambda>cm. cm_rep (cm, h) Map.empty)"
proof (cases "cap \<noteq> 0 \<and> cap AND (cap - 1) = 0 \<and> arr_ok h (unat cap) \<and> arr_ok h FREE_INIT_LEN")
  case True
  then show ?thesis using cm_init_rep [OF assms, of cap] by auto
next
  case False
  then show ?thesis by (auto simp: client_map_init_def)
qed

lemma free_chain_frees:
  "chain ci_next (cells h) p as \<Longrightarrow> free_chain h p = ret (h\<lparr>cells := cells h |` (- set as)\<rparr>)"
proof (induction as arbitrary: p h)
  case Nil
  then show ?case by (simp add: free_chain.simps restrict_map_def)
next
  case (Cons a as)
  then obtain c where c: "p = Some a" "cells h a = Some c" "chain ci_next (cells h) (ci_next c) as" by auto
  have "a \<notin> set as" using chain_distinct [OF Cons.prems] by simp
  then have "chain ci_next (cells (h\<lparr>cells := (cells h)(a := None)\<rparr>)) (ci_next c) as" using c(3) by simp
  from Cons.IH [OF this] c show ?case
    by (auto simp: free_chain.simps [of h "Some a"] hget_def hfree_def restrict_map_def fun_eq_iff
        intro!: arg_cong [where f = "\<lambda>f. h\<lparr>cells := f\<rparr>"])
qed

lemma free_buckets:
  assumes tab: "table ci_next ci_client_id hsh bs (cells h) ass"
  shows "foldC (\<lambda>i h. bindC (aread bs i) (\<lambda>p. free_chain h p)) [0..<length bs] h =
    ret (h\<lparr>cells := cells h |` (- set (concat ass))\<rparr>)"
proof -
  let ?I = "\<lambda>i t. t = h\<lparr>cells := cells h |` (- set (concat (take i ass)))\<rparr>"
  have len: "length ass = length bs" using tab by (simp add: table_def)
  have step: "spec (bindC (aread bs i) (\<lambda>p. free_chain t p)) no_fault (?I (Suc i))"
    if i: "i < length bs" and t: "?I i t" for i t
  proof -
    have "cells t b = cells h b" if "b \<in> set (ass ! i)" for b
    proof -
      have "b \<notin> set (concat (take i ass))"
        using table_bucket_unique [OF tab _ i _ that] i len unfolding in_concat_nth by (metis in_set_takeD length_take min.strict_boundedE nat_less_le nth_take)
      then show ?thesis using t by simp
    qed
    moreover have "chain ci_next h0 p as \<Longrightarrow> \<forall>b\<in>set as. h1 b = h0 b \<Longrightarrow> chain ci_next h1 p as" for h0 h1 p as
      by (induction as arbitrary: p) auto
    ultimately have "chain ci_next (cells t) (bs ! i) (ass ! i)" using table_chain [OF tab i] by blast
    from free_chain_frees [OF this] i len t show ?thesis
      by (simp add: aread_def take_Suc_conv_app_nth Un_commute Int_commute)
  qed
  have "spec (foldC (\<lambda>i h. bindC (aread bs i) (\<lambda>p. free_chain h p)) [0..<length bs] h) no_fault (?I (length bs))"
    by (rule spec_foldC_range) (use step in \<open>simp_all add: restrict_map_def\<close>)
  then show ?thesis using len by (auto simp: spec_ret_iff)
qed

lemma cm_deinit:
  assumes rep: "cm_rep (cm, h) m"
  shows "client_map_deinit cm h = ret (h\<lparr>cells := cells h |` (- (ran m \<union> set (cm_idle cm)))\<rparr>)"
proof -
  obtain ass where shape: "cm_shape cm" and live: "set (cm_idle cm) \<subseteq> dom (cells h)"
    and sep: "set (cm_idle cm) \<inter> ran m = {}" and tab: "cm_table cm (cells h) ass" and ran: "ran m = set (concat ass)"
    using rep by (rule cm_repE)
  let ?h = "h\<lparr>cells := cells h |` (- ran m)\<rparr>"
  have "take (cm_free_len cm) (cm_free cm) = map Some (cm_idle cm)"
    using shape map_Some_the [of "take (cm_free_len cm) (cm_free cm)"] by (simp add: cm_shape_def cm_idle_def)
  moreover have "length (cm_idle cm) = cm_free_len cm" using shape by (simp add: cm_shape_def cm_idle_def)
  moreover have "\<forall>a\<in>set (cm_idle cm). cells ?h a \<noteq> None" using live sep by (auto simp: restrict_map_def)
  ultimately have "foldC (\<lambda>i h. bindC (aread (cm_free cm) i) (\<lambda>p. hfree h p)) [0..<cm_free_len cm] ?h =
      ret (?h\<lparr>cells := cells ?h |` (- set (cm_idle cm))\<rparr>)"
    using hfree_prefix [of "cm_idle cm" ?h "cm_free cm"] shape by (simp add: cm_shape_def)
  then show ?thesis
    using free_buckets [OF tab] shape ran by (simp add: client_map_deinit_def cm_shape_def)
qed

section \<open>The client map is a keyed store\<close>

interpretation client_store: keyed_store cm_rep "\<lambda>(cm, h). client_map_get cm h"
  "\<lambda>(cm, h). client_map_new_entry cm h" "\<lambda>(cm, h). client_map_delete cm h"
proof (unfold_locales, goal_cases)
  case (1 s m k)
  then show ?case by (cases s) (simp add: cm_get)
next
  case (2 s m k v k')
  obtain cm h where s: "s = (cm, h)" by (cases s)
  from 2(1)[unfolded s] obtain ass where tab: "cm_table cm (cells h) ass" and m: "m = cm_entry cm (cells h) ass"
    by (rule cm_repE)
  from entry_inj [OF tab] 2(2,3) m show ?case by blast
next
  case (3 s m k v)
  then show ?case by (cases s) (simp add: cm_add_present)
next
  case (4 s m k)
  then show ?case
    by (cases s) (auto simp: case_prod_unfold elim!: spec_conseq [OF cm_add_absent])
next
  case (5 s m k v)
  then show ?case
    by (cases s) (auto simp: case_prod_unfold elim!: spec_conseq [OF cm_del_present])
qed

section \<open>The contents of a ClientInfo\<close>

text \<open>Changing a ClientInfo, its id and its next pointer apart, keeps the map.\<close>

lemma cm_rep_put:
  assumes "cm_rep (cm, h) m" and "cells h a = Some c" and "ci_next c' = ci_next c" and "ci_client_id c' = ci_client_id c"
  shows "cm_rep (cm, h\<lparr>cells := (cells h)(a \<mapsto> c')\<rparr>) m"
proof -
  obtain ass where "heap_wf h" "cm_shape cm" "set (cm_idle cm) \<subseteq> dom (cells h)"
    "set (cm_idle cm) \<inter> ran m = {}" "cm_table cm (cells h) ass" "m = cm_entry cm (cells h) ass"
    using assms(1) by (rule cm_repE)
  moreover from this(5) have "cm_table cm ((cells h)(a \<mapsto> c')) ass" "m = cm_entry cm ((cells h)(a \<mapsto> c')) ass"
    using table_payload [of ci_next ci_client_id _ "cm_buckets cm" "cells h" ass a c c'] assms(2-4) calculation(6) by auto
  ultimately show ?thesis
    using assms(2) unfolding cm_rep_def by auto
qed

lemma cm_rep_live:
  assumes "cm_rep (cm, h) m" and "m k = Some a"
  obtains c where "cells h a = Some c" "ci_client_id c = k"
proof -
  obtain ass where "cm_table cm (cells h) ass" "m = cm_entry cm (cells h) ass" "ran m = set (concat ass)"
    using assms(1) by (rule cm_repE)
  then have "a \<in> dom (cells h)" "ci_client_id (the (cells h a)) = k"
    using assms(2) table_nodes_live entry_node(3) ranI [of m k a] by fastforce+
  then show thesis using that by auto
qed

text \<open>
  The sizes of a ClientInfo's two arrays. Every block that is allocated for a ClientInfo has them,
  so they hold of all objects of the heap.
\<close>

definition info_sized :: "client_info \<Rightarrow> bool" where
  "info_sized c \<longleftrightarrow> length (ci_client_addr c) = 16 \<and> length (ci_username c) = 16"

definition infos_ok :: "client_info heap \<Rightarrow> bool" where
  "infos_ok h \<longleftrightarrow> (\<forall>a c. cells h a = Some c \<longrightarrow> info_sized c) \<and> (\<forall>n c. fresh h n = Some c \<longrightarrow> info_sized c)"

lemma infos_ok_put: "infos_ok h \<Longrightarrow> info_sized c \<Longrightarrow> infos_ok (h\<lparr>cells := (cells h)(a \<mapsto> c)\<rparr>)"
  by (simp add: infos_ok_def)

lemma infos_ok_cell: "infos_ok h \<Longrightarrow> cells h a = Some c \<Longrightarrow> info_sized c"
  by (simp add: infos_ok_def)

lemma info_sized_link [simp]: "info_sized (c\<lparr>ci_next := p\<rparr>) = info_sized c" "info_sized (c\<lparr>ci_client_id := k\<rparr>) = info_sized c"
  "info_sized (c\<lparr>ci_client_fd := fd\<rparr>) = info_sized c" "info_sized zero_info"
  by (simp_all add: info_sized_def zero_info_def)


lemma infos_ok_node: "infos_ok h \<Longrightarrow> post (cm_node cm h) (\<lambda>(a, cm', h'). infos_ok h')"
  by (auto simp: cm_node_def malloc_def infos_ok_def split: option.splits)

lemma infos_ok_new_entry: "infos_ok h \<Longrightarrow> post (client_map_new_entry cm h k) (\<lambda>(r, cm', h'). infos_ok h')"
  by (auto simp: client_map_new_entry_def Let_def case_prod_unfold infos_ok_put infos_ok_cell
      intro!: post_always [where m = "chain_search P nx h p" for P nx h p] post_conseq [OF infos_ok_node])

lemma infos_ok_add_free: "infos_ok h \<Longrightarrow> post (client_map_add_free cm h a) (\<lambda>(cm', h'). infos_ok h')"
  by (simp add: client_map_add_free_def infos_ok_put)

lemma infos_ok_delete_loop:
  "infos_ok h \<Longrightarrow> post (client_map_delete_loop cm h k prev cur) (\<lambda>(b, cm', h'). infos_ok h')"
proof -
  have "infos_ok h \<longrightarrow> (\<forall>b cm' h'. y = Inr (b, cm', h') \<longrightarrow> infos_ok h')"
    if "client_map_delete_loop cm h k prev cur = Some y" for y
  proof (rule client_map_delete_loop.raw_induct [where P = "\<lambda>cm h k prev cur y.
        infos_ok h \<longrightarrow> (\<forall>b cm' h'. y = Inr (b, cm', h') \<longrightarrow> infos_ok h')", OF _ that], goal_cases)
    case (1 loop cm h k prev cur y)
    have ih: "post (loop cm h k p c) (\<lambda>(b, cm', h'). infos_ok h')" if "infos_ok h" for cm h k p c
      using 1(1) [of cm h k p c] that by (auto simp: post_def)
    have "post (Some y) (\<lambda>(b, cm', h'). infos_ok h')" if "infos_ok h"
      unfolding 1(2) [symmetric]
      using that ih
      by (auto simp: infos_ok_put infos_ok_cell case_prod_unfold split: option.splits
          intro!: post_conseq [OF infos_ok_add_free])
    then show ?case by auto
  qed
  then show "infos_ok h \<Longrightarrow> ?thesis" by (auto simp: post_def)
qed

lemma infos_ok_delete: "infos_ok h \<Longrightarrow> post (client_map_delete cm h k) (\<lambda>(b, cm', h'). infos_ok h')"
  using infos_ok_delete_loop infos_ok_add_free by (fastforce simp: client_map_delete_def Let_def case_prod_unfold)

section \<open>Other clients\<close>

text \<open>
  A ClientInfo without its link in the chain, and what \<open>client_map_delete\<close> leaves alone, even in a map that is not well
  formed: it changes nothing but links in the nodes of other ids.
\<close>

definition profile :: "client_info heap \<Rightarrow> nat \<Rightarrow> client_info option" where
  "profile h a = map_option (\<lambda>c. c\<lparr>ci_next := None\<rparr>) (cells h a)"

definition spares :: "64 word \<Rightarrow> client_info heap \<Rightarrow> client_info heap \<Rightarrow> bool" where
  "spares k h h' \<longleftrightarrow> (\<forall>a c. cells h a = Some c \<longrightarrow> ci_client_id c \<noteq> k \<longrightarrow> profile h' a = profile h a)"

lemma spares_refl [simp]: "spares k h h"
  by (simp add: spares_def)

lemma profile_id: "profile h' a = profile h a \<Longrightarrow> cells h a = Some c \<Longrightarrow> \<exists>c'. cells h' a = Some c' \<and> ci_client_id c' = ci_client_id c"
  by (cases "cells h' a") (auto simp: profile_def dest: arg_cong [where f = ci_client_id])

lemma spares_trans: "spares k h h1 \<Longrightarrow> spares k h1 h2 \<Longrightarrow> spares k h h2"
  unfolding spares_def by (metis profile_id)

lemma spares_link: "cells h p = Some c \<Longrightarrow> hput h p (c\<lparr>ci_next := n\<rparr>) = ret h' \<Longrightarrow> spares k h h'"
  by (auto simp: spares_def profile_def hput_def)

lemma spares_add_free:
  assumes "cells h a = Some c" and "ci_client_id c = k"
  shows "post (client_map_add_free cm h a) (\<lambda>(cm', h'). spares k h h')"
  using assms by (auto simp: client_map_add_free_def spares_def profile_def post_def hput_def bindC_eq_ret_iff split: if_splits)

text \<open>The found node is unlinked and freed.\<close>

lemma spares_unlink:
  assumes "cells h c = Some info" and "ci_client_id info = k"
  shows "post (bindC (hget h prev) (\<lambda>pinfo. bindC (hput h prev (pinfo\<lparr>ci_next := n\<rparr>)) (\<lambda>h.
    bindC (client_map_add_free cm h c) (\<lambda>(cm, h). ret (True, cm, h))))) (\<lambda>(b, cm', h'). spares k h h')"
proof -
  have "post (client_map_add_free cm h1 c) (\<lambda>(cm', h'). spares k h h')"
    if p: "cells h prev = Some pinfo" "hput h prev (pinfo\<lparr>ci_next := n\<rparr>) = ret h1" for pinfo h1
  proof -
    obtain c1 where "cells h1 c = Some c1" "ci_client_id c1 = k" using p assms by (cases "c = prev") (auto simp: hput_def)
    then show ?thesis
      using spares_add_free [of h1 c c1 k cm] spares_trans [OF spares_link [OF p]] by (auto elim!: post_conseq)
  qed
  then show ?thesis
    by (auto simp: post_def hget_def bindC_eq_ret_iff case_prod_unfold split: option.splits)
qed

lemma spares_delete_loop: "post (client_map_delete_loop cm h k prev cur) (\<lambda>(b, cm', h'). spares k h h')"
proof -
  have "\<forall>b cm' h'. y = Inr (b, cm', h') \<longrightarrow> spares k h h'" if "client_map_delete_loop cm h k prev cur = Some y" for y
  proof (rule client_map_delete_loop.raw_induct [where P = "\<lambda>cm h k prev cur y.
        \<forall>b cm' h'. y = Inr (b, cm', h') \<longrightarrow> spares k h h'", OF _ that], goal_cases)
    case (1 loop cm h k prev cur y)
    have ih: "post (loop cm h k p c) (\<lambda>(b, cm', h'). spares k h h')" for p c
      using 1(1) [of cm h k p c] by (auto simp: post_def)
    have "post (Some y) (\<lambda>(b, cm', h'). spares k h h')"
    proof (cases cur)
      case None
      then show ?thesis unfolding 1(2) [symmetric] by simp
    next
      case (Some c)
      then show ?thesis
        unfolding 1(2) [symmetric] using ih spares_unlink [of h c _ k prev] by (cases "cells h c") (auto simp: hget_def simp del: post_bindC)
    qed
    then show ?case by auto
  qed
  then show ?thesis by (auto simp: post_def)
qed

lemma spares_delete: "post (client_map_delete cm h k) (\<lambda>(b, cm', h'). spares k h h')"
proof -
  have "post (client_map_add_free cm' h a) (\<lambda>(cm', h'). spares k h h')" if "cells h a = Some c" "ci_client_id c = k" for cm' a c
    using spares_add_free [OF that] .
  then show ?thesis
    using spares_delete_loop by (fastforce simp: client_map_delete_def Let_def case_prod_unfold post_def hget_def bindC_eq_ret_iff split: option.splits if_splits)
qed

lemma spares_profile: "cm_rep (cm, h) m \<Longrightarrow> spares k h h' \<Longrightarrow> j \<noteq> k \<Longrightarrow> m j = Some i \<Longrightarrow> profile h' i = profile h i"
  by (erule (1) cm_rep_live) (auto simp: spares_def)

section \<open>Properties\<close>

text \<open>Two buckets; client 3 is connected (object 0) and object 1 is free.\<close>

definition demo_clients :: client_map where
  "demo_clients = \<lparr>cm_buckets_cap = 2, cm_buckets = [None, Some 0], cm_free_cap = 2, cm_free_len = 1,
     cm_free = [Some 1, None]\<rparr>"

definition demo_infos :: "client_info heap" where
  "demo_infos = (empty_heap zero_info)\<lparr>cells := [0 \<mapsto> zero_info\<lparr>ci_client_id := 3\<rparr>, 1 \<mapsto> zero_info], brk := 2\<rparr>"

lemma demo_clients_rep: "cm_rep (demo_clients, demo_infos) [3 \<mapsto> 0]"
proof -
  have one: "cm_hash 2 k = (if k AND 1 = 1 then 1 else 0)" for k
    by (auto simp: cm_hash_def and_one_eq odd_iff_mod_2_eq_one)
  have "cm_table demo_clients (cells demo_infos) [[], [0]]"
    by (auto simp: table_def demo_clients_def demo_infos_def zero_info_def one less_Suc_eq nth_Cons)
  moreover have "[3 \<mapsto> 0] = cm_entry demo_clients (cells demo_infos) [[], [0]]"
    by (auto simp: entry_def demo_clients_def demo_infos_def zero_info_def one fun_eq_iff)
  moreover have "cm_shape demo_clients" by (simp add: cm_shape_def demo_clients_def cm_idle_def)
  moreover have "heap_wf demo_infos" by (simp add: heap_wf_def demo_infos_def)
  moreover have "set (cm_idle demo_clients) \<subseteq> dom (cells demo_infos)" "set (cm_idle demo_clients) \<inter> ran [3 \<mapsto> 0 :: nat] = {}"
    by (simp_all add: demo_clients_def demo_infos_def cm_idle_def)
  ultimately show ?thesis
    unfolding cm_rep_def by blast
qed

text \<open>
  A new client map: a capacity that is not a power of two ends the process; otherwise, when the
  two arrays can be allocated, the map is built, it is empty, and no client id is found in it.
\<close>

lemma client_map_init_correct:
  assumes "heap_wf h"
  shows "spec (client_map_init cap h) is_exit
      (\<lambda>cm. cap \<noteq> 0 \<and> cap AND (cap - 1) = 0 \<and> cm_rep (cm, h) Map.empty \<and> (\<forall>k. client_map_get cm h k = ret None)) \<and>
    (cap \<noteq> 0 \<and> cap AND (cap - 1) = 0 \<and> arr_ok h (unat cap) \<and> arr_ok h FREE_INIT_LEN \<longrightarrow>
      (\<exists>cm. client_map_init cap h = ret cm))"
proof (cases "cap \<noteq> 0 \<and> cap AND (cap - 1) = 0 \<and> arr_ok h (unat cap) \<and> arr_ok h FREE_INIT_LEN")
  case True
  then obtain cm where "client_map_init cap h = ret cm" "cm_rep (cm, h) Map.empty"
    using cm_init_rep [OF assms, of cap] by blast
  with True show ?thesis using cm_get by auto
next
  case False
  then show ?thesis by (auto simp: client_map_init_def)
qed

text \<open>
  C30. Adding a client: an id that is already in the map leaves everything as it was and the result
  is false; a new id (unless memory runs out) is bound to a ClientInfo that belongs to no other
  client and holds the id, \<open>client_map_get\<close> finds it from then on and finds every other client as
  before, and no other ClientInfo is touched.
\<close>

theorem client_map_new_entry_correct:
  assumes "cm_rep (cm, h) m"
  shows "spec (client_map_new_entry cm h k) is_exit (\<lambda>(r, cm', h').
    if m k \<noteq> None then r = None \<and> cm' = cm \<and> h' = h
    else \<exists>a. r = Some a \<and> a \<notin> ran m \<and> cm_rep (cm', h') (m(k \<mapsto> a)) \<and>
      (\<exists>c. cells h' a = Some c \<and> ci_client_id c = k) \<and> (\<forall>x. x \<noteq> a \<longrightarrow> cells h' x = cells h x) \<and>
      client_map_get cm' h' k = ret (Some a) \<and>
      (\<forall>k'. k' \<noteq> k \<longrightarrow> client_map_get cm' h' k' = client_map_get cm h k'))"
proof (cases "m k")
  case None
  show ?thesis
    by (rule spec_conseq [OF cm_add_absent [OF assms None]])
      (use None cm_get [OF assms] cm_get in \<open>fastforce simp: case_prod_unfold\<close>)
next
  case (Some a)
  then show ?thesis using cm_add_present [OF assms Some] by simp
qed

theorem client_map_new_entry_correct_witness:
  "spec (client_map_new_entry demo_clients demo_infos 5) is_exit (\<lambda>(r, cm', h').
    \<exists>a. r = Some a \<and> cm_rep (cm', h') [3 \<mapsto> 0, 5 \<mapsto> a] \<and> client_map_get cm' h' 5 = ret (Some a) \<and>
      client_map_get cm' h' 3 = ret (Some 0))"
proof -
  have "client_map_get demo_clients demo_infos 3 = ret (Some 0)"
    using cm_get [OF demo_clients_rep, of 3] by simp
  then show ?thesis
    by (intro spec_conseq [OF client_map_new_entry_correct [OF demo_clients_rep, of 5]])
      (auto simp: fun_upd_twist)
qed

text \<open>
  C31. Deleting a client that is in the map (unless memory runs out) returns true, unbinds exactly
  that id, puts its ClientInfo among the free ones and leaves the data of every other client as it was. Deleting an id that is not in the map
  returns false and changes nothing if the id's bucket holds another client, and follows a NULL
  pointer if the bucket is empty.
\<close>

theorem client_map_delete_correct:
  assumes "cm_rep (cm, h) m"
  shows "case m k of
      Some a \<Rightarrow> spec (client_map_delete cm h k) is_exit (\<lambda>(b, cm', h').
        b \<and> cm_rep (cm', h') (m(k := None)) \<and> a \<in> set (cm_idle cm') \<and> client_map_get cm' h' k = ret None \<and>
        (\<forall>k'. k' \<noteq> k \<longrightarrow> client_map_get cm' h' k' = client_map_get cm h k' \<and> (\<forall>i. m k' = Some i \<longrightarrow> profile h' i = profile h i)))
    | None \<Rightarrow> client_map_delete cm h k =
        (if cm_buckets cm ! cm_hash (cm_buckets_cap cm) k = None then fail Null_deref else ret (False, cm, h))"
proof (cases "m k")
  case None
  then show ?thesis using cm_del_absent [OF assms] by simp
next
  case (Some a)
  have "spec (client_map_delete cm h k) is_exit (\<lambda>(b, cm', h').
      b \<and> cm_rep (cm', h') (m(k := None)) \<and> a \<in> set (cm_idle cm') \<and> client_map_get cm' h' k = ret None \<and>
      (\<forall>k'. k' \<noteq> k \<longrightarrow> client_map_get cm' h' k' = client_map_get cm h k' \<and> (\<forall>i. m k' = Some i \<longrightarrow> profile h' i = profile h i)))"
  proof (rule spec_conseq [OF spec_post [OF cm_del_present [OF assms Some] spares_delete]], unfold split_paired_all prod.case, elim conjE)
    fix b cm' h' assume r: "b" "cm_rep (cm', h') (m(k := None))" "a \<in> set (cm_idle cm')" "spares k h h'"
    have "client_map_get cm' h' k' = ret ((m(k := None)) k')" for k' by (rule cm_get [OF r(2)])
    moreover have "profile h' i = profile h i" if "k' \<noteq> k" "m k' = Some i" for k' i by (rule spares_profile [OF assms r(4) that])
    ultimately show "b \<and> cm_rep (cm', h') (m(k := None)) \<and> a \<in> set (cm_idle cm') \<and> client_map_get cm' h' k = ret None \<and>
        (\<forall>k'. k' \<noteq> k \<longrightarrow> client_map_get cm' h' k' = client_map_get cm h k' \<and> (\<forall>i. m k' = Some i \<longrightarrow> profile h' i = profile h i))"
      using cm_get [OF assms] r(1-3) by (intro conjI allI impI) (simp_all del: fun_upd_apply, simp_all)
  qed
  then show ?thesis using Some by simp
qed

theorem client_map_delete_correct_witness:
  "spec (client_map_delete demo_clients demo_infos 3) is_exit (\<lambda>(b, cm', h'). b \<and> client_map_get cm' h' 3 = ret None)
   \<and> client_map_delete demo_clients demo_infos 5 = ret (False, demo_clients, demo_infos)
   \<and> client_map_delete demo_clients demo_infos 2 = fail Null_deref"
proof (intro conjI)
  show "spec (client_map_delete demo_clients demo_infos 3) is_exit (\<lambda>(b, cm', h'). b \<and> client_map_get cm' h' 3 = ret None)"
    using client_map_delete_correct [OF demo_clients_rep, of 3] by (auto elim!: spec_conseq)
  show "client_map_delete demo_clients demo_infos 5 = ret (False, demo_clients, demo_infos)"
    using client_map_delete_correct [OF demo_clients_rep, of 5] by (simp add: demo_clients_def cm_hash_def)
  show "client_map_delete demo_clients demo_infos 2 = fail Null_deref"
    using client_map_delete_correct [OF demo_clients_rep, of 2] by (simp add: demo_clients_def cm_hash_def)
qed

text \<open>
  A client that connects and disconnects leaves the map as it was: adding a new id and deleting
  it again gives a map that binds the same ids to the same ClientInfos.
\<close>

theorem client_map_add_delete:
  assumes "cm_rep (cm, h) m" and "m k = None"
  shows "spec (bindC (client_map_new_entry cm h k) (\<lambda>(r, cm', h'). client_map_delete cm' h' k)) is_exit
    (\<lambda>(b, cm', h'). b \<and> cm_rep (cm', h') m \<and> (\<forall>k'. client_map_get cm' h' k' = client_map_get cm h k'))"
  using client_store.add_then_del [OF assms]
  by (elim spec_conseq [rotated] rev_mp) (auto simp: case_prod_unfold cm_get [OF assms(1)] cm_get elim!: spec_conseq)

theorem client_map_add_delete_witness:
  "spec (bindC (client_map_new_entry demo_clients demo_infos 2) (\<lambda>(r, cm', h'). client_map_delete cm' h' 2)) is_exit
    (\<lambda>(b, cm', h'). b \<and> cm_rep (cm', h') [3 \<mapsto> 0])"
  by (rule spec_conseq [OF client_map_add_delete [OF demo_clients_rep, of 2]]) auto

end
