(* ===== verification/Protocol.thy ===== *)
theory Protocol
  imports Utils
begin

text \<open>
  protocol.c: the wire format. A buffer is the list of its bytes, from the address passed on; every
  store and memcpy is checked against the end of the block. The packed structs are given by the
  offsets of their fields. Lengths are the words the C code uses (\<open>size_t\<close> 64 bits, the length on the
  wire 16 bits), so that truncation and underflow show. \<open>e\<close> is the host's byte order.

  A pointer into the argument buffer that a function hands back is the offset from its start. Where a
  C function returns -1 the result is \<open>None\<close>.
\<close>

section \<open>Definitions\<close>

definition PROT_HDR_LEN :: "64 word" where "PROT_HDR_LEN = 11"
definition MAX_UIDS_PER_MSG :: "8 word" where "MAX_UIDS_PER_MSG = 200"
definition MIN_UNAME_LEN :: "64 word" where "MIN_UNAME_LEN = 3"
definition MAX_UNAME_LEN :: "64 word" where "MAX_UNAME_LEN = 15"

datatype message_type =
    MSGT_SERVER_ERROR
  | MSGT_SET_USERNAME
  | MSGT_SET_USERNAME_RESPONSE
  | MSGT_CREATE_GROUP
  | MSGT_CREATE_GROUP_RESONSE

fun msgt_val :: "message_type \<Rightarrow> 8 word" where
  "msgt_val MSGT_SERVER_ERROR = 0"
| "msgt_val MSGT_SET_USERNAME = 1"
| "msgt_val MSGT_SET_USERNAME_RESPONSE = 2"
| "msgt_val MSGT_CREATE_GROUP = 3"
| "msgt_val MSGT_CREATE_GROUP_RESONSE = 4"

record header =
  hd_len :: "16 word"
  hd_msgt :: "8 word"
  hd_seqid :: "64 word"

text \<open>Offsets and sizes of the packed structs.\<close>

definition off_msgt :: nat where "off_msgt = 2"
definition off_seqid :: nat where "off_seqid = 3"
definition sizeof_Header :: nat where "sizeof_Header = 11"
definition off_code :: nat where "off_code = 11"
definition sizeof_ServerError :: nat where "sizeof_ServerError = 12"
definition off_username :: nat where "off_username = 11"
definition sizeof_SetUsernameRequest :: nat where "sizeof_SetUsernameRequest = 11"
definition sizeof_SetUsernameResponse :: nat where "sizeof_SetUsernameResponse = 11"
definition off_uids_len :: nat where "off_uids_len = 11"
definition off_uids :: nat where "off_uids = 12"
definition sizeof_CreateGroup :: nat where "sizeof_CreateGroup = 12"

lemmas layout = off_msgt_def off_seqid_def sizeof_Header_def off_code_def sizeof_ServerError_def off_username_def
  sizeof_SetUsernameRequest_def sizeof_SetUsernameResponse_def off_uids_len_def off_uids_def sizeof_CreateGroup_def

text \<open>The stores to the three fields of a header, the same in every serialiser.\<close>

definition put_header :: "endian \<Rightarrow> 8 word list \<Rightarrow> 16 word \<Rightarrow> message_type \<Rightarrow> 64 word \<Rightarrow> 8 word list comp" where
  "put_header e buf len msgt seqid =
     bindC (bwrite buf 0 (mem_bytes e 2 (htons e len))) (\<lambda>buf.
     bindC (bwrite buf off_msgt [msgt_val msgt]) (\<lambda>buf.
     bwrite buf off_seqid (mem_bytes e 8 (htonll e seqid))))"

definition deser_header :: "endian \<Rightarrow> 8 word list \<Rightarrow> header comp" where
  "deser_header e buf =
     bindC (bread buf 0 2) (\<lambda>net_len.
     bindC (aread buf off_msgt) (\<lambda>msgt.
     bindC (bread buf off_seqid 8) (\<lambda>net_seqid.
     ret \<lparr>hd_len = ntohs e (mem_word e net_len), hd_msgt = msgt, hd_seqid = ntohll e (mem_word e net_seqid)\<rparr>)))"

definition deser_server_error :: "64 word \<Rightarrow> 8 word list \<Rightarrow> 8 word option comp" where
  "deser_server_error buf_len buf =
     (if buf_len \<noteq> of_nat sizeof_ServerError then ret None
      else bindC (aread buf off_code) (\<lambda>code. ret (Some code)))"

definition ser_server_error ::
  "endian \<Rightarrow> 64 word \<Rightarrow> 8 word list \<Rightarrow> 64 word \<Rightarrow> 8 word \<Rightarrow> (64 word \<times> 8 word list) comp" where
  "ser_server_error e buf_len buf seqid code =
     (let len = of_nat sizeof_ServerError :: 16 word in
      bindC (assertC (ucast len \<le> buf_len) ''len <= buf_len'') (\<lambda>_.
      bindC (put_header e buf len MSGT_SERVER_ERROR seqid) (\<lambda>buf.
      bindC (bwrite buf off_code [code]) (\<lambda>buf.
      ret (ucast len, buf)))))"

text \<open>The offset of the name and its length; the subtraction is that of \<open>size_t\<close>.\<close>

definition deser_set_username :: "64 word \<Rightarrow> nat \<times> 64 word" where
  "deser_set_username buf_len = (off_username, buf_len - of_nat sizeof_SetUsernameRequest)"

definition ser_set_username ::
  "endian \<Rightarrow> 64 word \<Rightarrow> 8 word list \<Rightarrow> 64 word \<Rightarrow> 64 word \<Rightarrow> 8 word list \<Rightarrow> (64 word \<times> 8 word list) comp" where
  "ser_set_username e buf_len buf seqid uname_len uname =
     (let len = ucast (of_nat sizeof_SetUsernameRequest + uname_len) :: 16 word in
      bindC (assertC (ucast len \<le> buf_len) ''len <= buf_len'') (\<lambda>_.
      bindC (put_header e buf len MSGT_SET_USERNAME seqid) (\<lambda>buf.
      bindC (bread uname 0 (unat uname_len)) (\<lambda>name.
      bindC (bwrite buf off_username name) (\<lambda>buf.
      ret (ucast len, buf))))))"

definition ser_set_username_response ::
  "endian \<Rightarrow> 64 word \<Rightarrow> 8 word list \<Rightarrow> 64 word \<Rightarrow> (64 word \<times> 8 word list) comp" where
  "ser_set_username_response e buf_len buf seqid =
     (let len = of_nat sizeof_SetUsernameResponse :: 64 word in
      bindC (assertC (len \<le> buf_len) ''len <= buf_len'') (\<lambda>_.
      bindC (put_header e buf (ucast len) MSGT_SET_USERNAME_RESPONSE seqid) (\<lambda>buf.
      ret (len, buf))))"

text \<open>
  The number of ids, the caller's array of ids, and the offset and length of the raw ids. The array
  is written from its start. The number that is stored before a length check fails is not part of the result:
  no caller reads it when -1 is returned.
\<close>

definition deser_create_group ::
  "endian \<Rightarrow> 64 word \<Rightarrow> 8 word list \<Rightarrow> 64 word list \<Rightarrow> (8 word \<times> 64 word list \<times> nat \<times> 64 word) option comp" where
  "deser_create_group e buf_len buf uids =
     (if buf_len < of_nat sizeof_CreateGroup then ret None
      else bindC (aread buf off_uids_len) (\<lambda>uids_len.
        if uids_len > MAX_UIDS_PER_MSG then ret None
        else let expected_uids_len = ucast uids_len * 8 :: 64 word in
          if expected_uids_len \<noteq> buf_len - of_nat sizeof_CreateGroup then ret None
          else bindC (foldC (\<lambda>i uids.
                 bindC (bread buf (off_uids + i * 8) 8) (\<lambda>net_uid.
                 awrite uids i (ntohll e (mem_word e net_uid)))) [0..<unat uids_len] uids) (\<lambda>uids.
               ret (Some (uids_len, uids, off_uids, expected_uids_len)))))"

definition ser_create_group ::
  "endian \<Rightarrow> 8 word list \<Rightarrow> 64 word \<Rightarrow> 64 word \<Rightarrow> 64 word list \<Rightarrow> 8 word \<Rightarrow> (64 word \<times> 8 word list) comp" where
  "ser_create_group e buf buf_len seqid uids uids_len =
     bindC (assertC (uids_len \<le> MAX_UIDS_PER_MSG) ''uids_len <= MAX_UIDS_PER_MSG'') (\<lambda>_.
     let len = of_nat sizeof_CreateGroup + ucast uids_len * 8 :: 64 word in
     bindC (assertC (len \<le> buf_len) ''len <= buf_len'') (\<lambda>_.
     bindC (put_header e buf (ucast len) MSGT_CREATE_GROUP seqid) (\<lambda>buf.
     bindC (bwrite buf off_uids_len [uids_len]) (\<lambda>buf.
     bindC (foldC (\<lambda>i buf.
              bindC (aread uids i) (\<lambda>uid.
              bwrite buf (sizeof_CreateGroup + i * 8) (mem_bytes e 8 (htonll e uid)))) [0..<unat uids_len] buf) (\<lambda>buf.
     ret (len, buf))))))"

section \<open>The bytes on the wire\<close>

definition wire_header :: "16 word \<Rightarrow> message_type \<Rightarrow> 64 word \<Rightarrow> 8 word list" where
  "wire_header len msgt seqid = be_bytes 2 len @ [msgt_val msgt] @ be_bytes 8 seqid"

lemma length_wire_header [simp]: "length (wire_header len msgt seqid) = 11"
  by (simp add: wire_header_def)

lemma bwrite_at:
  assumes "length pre = off" and "length old = length new"
  shows "bwrite (pre @ old @ rest) off new = ret (pre @ new @ rest)"
  using assms by (simp add: bwrite_def)

lemma put_header_wire:
  assumes "11 \<le> length buf"
  shows "put_header e buf len msgt seqid = ret (wire_header len msgt seqid @ drop 11 buf)"
proof -
  let ?l = "be_bytes 2 len" and ?s = "be_bytes 8 seqid"
  have b: "buf = take 2 buf @ take 1 (drop 2 buf) @ take 8 (drop 3 buf) @ drop 11 buf"
    using append_take_drop_id [of 8 "drop 3 buf"] append_take_drop_id [of 1 "drop 2 buf"] append_take_drop_id [of 2 buf]
    by (simp add: numeral_3_eq_3)
  have "bwrite buf 0 ?l = ret (?l @ take 1 (drop 2 buf) @ take 8 (drop 3 buf) @ drop 11 buf)"
    by (subst b) (rule bwrite_at [of "[]", simplified], use assms in simp_all)
  moreover have "bwrite (?l @ take 1 (drop 2 buf) @ take 8 (drop 3 buf) @ drop 11 buf) 2 [msgt_val msgt] =
      ret (?l @ [msgt_val msgt] @ take 8 (drop 3 buf) @ drop 11 buf)"
    by (rule bwrite_at) (use assms in simp_all)
  moreover have "bwrite ((?l @ [msgt_val msgt]) @ take 8 (drop 3 buf) @ drop 11 buf) 3 ?s =
      ret ((?l @ [msgt_val msgt]) @ ?s @ drop 11 buf)"
    by (rule bwrite_at) (use assms in simp_all)
  ultimately show ?thesis by (simp add: put_header_def layout wire_header_def)
qed

lemma deser_header_wire [simp]:
  "deser_header e (wire_header len msgt seqid @ rest) = ret \<lparr>hd_len = len, hd_msgt = msgt_val msgt, hd_seqid = seqid\<rparr>"
  by (simp add: deser_header_def wire_header_def bread_def aread_def layout nth_append)

lemma deser_header_reads:
  "11 \<le> length b \<Longrightarrow> deser_header e b =
    ret \<lparr>hd_len = be_word (take 2 b), hd_msgt = b ! 2, hd_seqid = be_word (take 8 (drop 3 b))\<rparr>"
  by (simp add: deser_header_def bread_def aread_def layout)

lemma deser_header_short: "length b < 11 \<Longrightarrow> deser_header e b = fail Out_of_bounds"
  by (auto simp: deser_header_def bread_def aread_def layout)

definition wire_server_error :: "64 word \<times> 8 word \<Rightarrow> 8 word list" where
  "wire_server_error = (\<lambda>(seqid, code). wire_header 12 MSGT_SERVER_ERROR seqid @ [code])"

definition wire_set_username :: "64 word \<times> 8 word list \<Rightarrow> 8 word list" where
  "wire_set_username = (\<lambda>(seqid, name). wire_header (of_nat (11 + length name)) MSGT_SET_USERNAME seqid @ name)"

definition wire_ids :: "64 word list \<Rightarrow> 8 word list" where
  "wire_ids uids = concat (map (be_bytes 8) uids)"

definition wire_create_group :: "64 word \<times> 64 word list \<Rightarrow> 8 word list" where
  "wire_create_group = (\<lambda>(seqid, uids).
     wire_header (of_nat (12 + 8 * length uids)) MSGT_CREATE_GROUP seqid @ [of_nat (length uids)] @ wire_ids uids)"

lemma length_wire_ids [simp]: "length (wire_ids uids) = 8 * length uids"
  by (induction uids) (simp_all add: wire_ids_def)

lemma length_wire [simp]:
  "length (wire_server_error (seqid, code)) = 12"
  "length (wire_set_username (seqid, name)) = 11 + length name"
  "length (wire_create_group (seqid, uids)) = 12 + 8 * length uids"
  by (simp_all add: wire_server_error_def wire_set_username_def wire_create_group_def)

lemma ser_server_error_wire:
  assumes "12 \<le> buf_len" and "12 \<le> length buf"
  shows "ser_server_error e buf_len buf seqid code = ret (12, wire_server_error (seqid, code) @ drop 12 buf)"
proof -
  have d: "drop 11 buf = [buf ! 11] @ drop 12 buf" using assms(2) Cons_nth_drop_Suc [of 11 buf] by simp
  have "bwrite (wire_header 12 MSGT_SERVER_ERROR seqid @ [buf ! 11] @ drop 12 buf) 11 [code] =
      ret (wire_header 12 MSGT_SERVER_ERROR seqid @ [code] @ drop 12 buf)"
    by (rule bwrite_at) simp_all
  then show ?thesis
    using assms by (simp add: ser_server_error_def Let_def layout assertC_def put_header_wire d wire_server_error_def)
qed

lemma ser_set_username_response_wire:
  assumes "11 \<le> buf_len" and "11 \<le> length buf"
  shows "ser_set_username_response e buf_len buf seqid =
    ret (11, wire_header 11 MSGT_SET_USERNAME_RESPONSE seqid @ drop 11 buf)"
  using assms by (simp add: ser_set_username_response_def Let_def layout assertC_def put_header_wire)

lemma ser_set_username_wire:
  assumes fit: "11 + length name \<le> unat buf_len" "unat buf_len \<le> length buf" and short: "length name \<le> 65524"
  shows "ser_set_username e buf_len buf seqid (of_nat (length name)) name =
    ret (of_nat (11 + length name), wire_set_username (seqid, name) @ drop (11 + length name) buf)"
proof -
  let ?n = "length name" and ?len = "of_nat (11 + length name) :: 16 word"
  have n: "unat (of_nat ?n :: 64 word) = ?n" using short by (intro unat_of_nat_64) simp
  have len: "ucast (11 + of_nat ?n :: 64 word) = ?len"
    using ucast_of_nat_16 [of "11 + ?n"] by simp
  have "unat ?len = 11 + ?n" using short by (intro unat_of_nat_16) simp
  then have uc: "(ucast ?len :: 64 word) = of_nat (11 + ?n)"
    by (metis of_nat_unat)
  have le: "(of_nat (11 + ?n) :: 64 word) \<le> buf_len"
    using fit(1) short by (subst word_le_nat_alt) (simp add: unat_of_nat_64 del: of_nat_add)
  have d: "drop 11 buf = take ?n (drop 11 buf) @ drop (11 + ?n) buf"
    using append_take_drop_id [of ?n "drop 11 buf"] by (simp add: add.commute)
  have "bwrite (wire_header ?len MSGT_SET_USERNAME seqid @ take ?n (drop 11 buf) @ drop (11 + ?n) buf) 11 name =
      ret (wire_header ?len MSGT_SET_USERNAME seqid @ name @ drop (11 + ?n) buf)"
    by (rule bwrite_at) (use fit in simp_all)
  then have "bwrite (wire_header ?len MSGT_SET_USERNAME seqid @ drop 11 buf) 11 name =
      ret (wire_header ?len MSGT_SET_USERNAME seqid @ name @ drop (11 + ?n) buf)" using d by simp
  then show ?thesis
    unfolding ser_set_username_def Let_def layout
    using fit n le len uc
    by (simp add: assertC_def put_header_wire bread_def wire_set_username_def del: of_nat_add)
qed

lemma wire_ids_snoc: "i < length uids \<Longrightarrow> wire_ids (take (Suc i) uids) = wire_ids (take i uids) @ be_bytes 8 (uids ! i)"
  by (simp add: wire_ids_def take_Suc_conv_app_nth)

lemma put_ids_wire:
  assumes "length pre = 12" and "8 * length uids \<le> length rest"
  shows "foldC (\<lambda>i buf. bindC (aread uids i) (\<lambda>uid. bwrite buf (12 + i * 8) (be_bytes 8 uid))) [0..<length uids]
      (pre @ rest) = ret (pre @ wire_ids uids @ drop (8 * length uids) rest)"
proof -
  let ?I = "\<lambda>i b. b = pre @ wire_ids (take i uids) @ drop (8 * i) rest"
  have "spec (foldC (\<lambda>i buf. bindC (aread uids i) (\<lambda>uid. bwrite buf (12 + i * 8) (be_bytes 8 uid))) [0..<length uids]
      (pre @ rest)) no_fault (?I (length uids))"
  proof (rule spec_foldC_range)
    fix i b assume i: "i < length uids" and b: "?I i b"
    have "drop (8 * i) rest = take 8 (drop (8 * i) rest) @ drop (8 * Suc i) rest"
      using append_take_drop_id [of 8 "drop (8 * i) rest"] by (simp add: add.commute)
    then have "b = (pre @ wire_ids (take i uids)) @ take 8 (drop (8 * i) rest) @ drop (8 * Suc i) rest" using b by simp
    moreover have "bwrite ((pre @ wire_ids (take i uids)) @ take 8 (drop (8 * i) rest) @ drop (8 * Suc i) rest)
        (12 + i * 8) (be_bytes 8 (uids ! i)) =
      ret ((pre @ wire_ids (take i uids)) @ be_bytes 8 (uids ! i) @ drop (8 * Suc i) rest)"
      by (rule bwrite_at) (use i assms in simp_all)
    ultimately show "spec (bindC (aread uids i) (\<lambda>uid. bwrite b (12 + i * 8) (be_bytes 8 uid))) no_fault (?I (Suc i))"
      using i by (simp add: aread_def wire_ids_snoc)
  qed (simp_all add: wire_ids_def)
  then show ?thesis by (auto simp: spec_ret_iff)
qed

lemma ser_create_group_wire:
  assumes fit: "12 + 8 * length uids \<le> unat buf_len" "unat buf_len \<le> length buf" and few: "length uids \<le> 200"
  shows "ser_create_group e buf buf_len seqid uids (of_nat (length uids)) =
    ret (of_nat (12 + 8 * length uids), wire_create_group (seqid, uids) @ drop (12 + 8 * length uids) buf)"
proof -
  let ?n = "length uids" and ?c = "of_nat (length uids) :: 8 word" and ?l = "12 + 8 * length uids"
  have c: "unat ?c = ?n" using few by (intro unat_of_nat_8) simp
  then have "?c \<le> MAX_UIDS_PER_MSG" using few by (simp add: word_le_nat_alt MAX_UIDS_PER_MSG_def)
  have "(ucast ?c :: 64 word) = of_nat ?n" using c by (metis of_nat_unat)
  then have len: "of_nat 12 + ucast ?c * 8 = (of_nat ?l :: 64 word)" by (simp add: mult.commute)
  have le: "(of_nat ?l :: 64 word) \<le> buf_len"
    using fit(1) few by (subst word_le_nat_alt) (simp add: unat_of_nat_64 del: of_nat_add of_nat_mult)
  let ?h = "wire_header (of_nat ?l) MSGT_CREATE_GROUP seqid"
  have d: "drop 11 buf = [buf ! 11] @ drop 12 buf" using fit Cons_nth_drop_Suc [of 11 buf] by simp
  have "bwrite (?h @ [buf ! 11] @ drop 12 buf) 11 [?c] = ret (?h @ [?c] @ drop 12 buf)"
    by (rule bwrite_at) simp_all
  then have cnt: "bwrite (?h @ drop 11 buf) 11 [?c] = ret ((?h @ [?c]) @ drop 12 buf)" using d by simp
  have ids: "foldC (\<lambda>i buf. bindC (aread uids i) (\<lambda>uid. bwrite buf (12 + i * 8) (be_bytes 8 uid))) [0..<?n]
      ((?h @ [?c]) @ drop 12 buf) = ret ((?h @ [?c]) @ wire_ids uids @ drop (8 * ?n) (drop 12 buf))"
    by (rule put_ids_wire) (use fit in simp_all)
  have "(ucast (of_nat ?l :: 64 word) :: 16 word) = of_nat ?l" by (rule ucast_of_nat_16)
  then show ?thesis
    unfolding ser_create_group_def Let_def layout mem_bytes_htonll len c
    using le \<open>?c \<le> MAX_UIDS_PER_MSG\<close> fit cnt ids
    by (simp add: assertC_def put_header_wire wire_create_group_def add.commute del: of_nat_add of_nat_mult)
qed

lemma get_ids:
  assumes "12 + 8 * n \<le> length buf" and "n \<le> length uids"
  shows "foldC (\<lambda>i uids. bindC (bread buf (12 + i * 8) 8) (\<lambda>net_uid. awrite uids i (ntohll e (mem_word e net_uid))))
      [0..<n] uids = ret (map (\<lambda>i. be_word (take 8 (drop (12 + 8 * i) buf))) [0..<n] @ drop n uids)"
proof -
  let ?w = "\<lambda>i. be_word (take 8 (drop (12 + 8 * i) buf)) :: 64 word"
  let ?I = "\<lambda>i t. t = map ?w [0..<i] @ drop i uids"
  have "spec (foldC (\<lambda>i uids. bindC (bread buf (12 + i * 8) 8) (\<lambda>net_uid. awrite uids i (ntohll e (mem_word e net_uid))))
      [0..<n] uids) no_fault (?I n)"
  proof (rule spec_foldC_range)
    fix i t assume i: "i < n" and t: "?I i t"
    have "(map ?w [0..<i] @ drop i uids)[i := ?w i] = map ?w [0..<Suc i] @ drop (Suc i) uids"
      using i assms(2) by (simp add: list_update_append Cons_nth_drop_Suc [symmetric])
    then show "spec (bindC (bread buf (12 + i * 8) 8) (\<lambda>net_uid. awrite t i (ntohll e (mem_word e net_uid)))) no_fault (?I (Suc i))"
      using i t assms by (simp add: mult.commute)
  qed simp_all
  then show ?thesis by (auto simp: spec_ret_iff)
qed

text \<open>What \<open>deser_create_group\<close> accepts, and what it reads.\<close>

lemma deser_create_group_reads:
  assumes "unat buf_len \<le> length buf" and "200 \<le> length uids"
  shows "deser_create_group e buf_len buf uids =
    (if 12 \<le> unat buf_len \<and> unat (buf ! 11) \<le> 200 \<and> unat buf_len = 12 + 8 * unat (buf ! 11)
     then ret (Some (buf ! 11, map (\<lambda>i. be_word (take 8 (drop (12 + 8 * i) buf))) [0..<unat (buf ! 11)] @
       drop (unat (buf ! 11)) uids, 12, of_nat (8 * unat (buf ! 11))))
     else ret None)"
proof (cases "12 \<le> unat buf_len")
  case False
  then have "buf_len < 12" by (simp add: word_less_nat_alt)
  with False show ?thesis by (simp add: deser_create_group_def layout)
next
  case True
  let ?c = "buf ! 11"
  have nl: "\<not> buf_len < 12" using True by (simp add: word_less_nat_alt)
  have rd: "aread buf 11 = ret ?c" using True assms(1) by (simp add: aread_def)
  have mx: "?c > MAX_UIDS_PER_MSG \<longleftrightarrow> \<not> unat ?c \<le> 200" by (simp add: word_less_nat_alt MAX_UIDS_PER_MSG_def not_le)
  have u: "(ucast ?c * 8 :: 64 word) = of_nat (8 * unat ?c)" by (simp add: mult.commute)
  have "unat ?c < 256" using unsigned_less [where 'a = nat, of ?c] by simp
  then have un: "unat (of_nat (8 * unat ?c) :: 64 word) = 8 * unat ?c" by (intro unat_of_nat_64) simp
  have sub: "unat (buf_len - 12) = unat buf_len - 12" using nl by (simp add: unat_sub word_le_nat_alt True)
  have eq: "(of_nat (8 * unat ?c) \<noteq> buf_len - 12) \<longleftrightarrow> unat buf_len \<noteq> 12 + 8 * unat ?c"
    using un sub True by (auto simp: word_unat_eq_iff)
  show ?thesis
    unfolding deser_create_group_def layout Let_def using True nl rd mx eq get_ids [of "unat ?c" buf uids e] assms
    by (simp add: u del: of_nat_mult)
qed

section \<open>The interface of a message codec\<close>

text \<open>
  A kind of message: its bytes on the wire, which messages can be sent, the serialiser (host, capacity
  and buffer) and the parser (host, length from the header and buffer).
\<close>

locale wire_codec =
  fixes ok :: "'m \<Rightarrow> bool"
    and wire :: "'m \<Rightarrow> 8 word list"
    and put :: "endian \<Rightarrow> 64 word \<Rightarrow> 8 word list \<Rightarrow> 'm \<Rightarrow> (64 word \<times> 8 word list) comp"
    and get :: "endian \<Rightarrow> 64 word \<Rightarrow> 8 word list \<Rightarrow> 'm option comp"
  assumes short: "ok m \<Longrightarrow> length (wire m) < 65536"
    and put_wire: "ok m \<Longrightarrow> length (wire m) \<le> unat cap \<Longrightarrow> unat cap \<le> length b \<Longrightarrow>
      put e cap b m = ret (of_nat (length (wire m)), wire m @ drop (length (wire m)) b)"
    and get_wire: "ok m \<Longrightarrow> get e (of_nat (length (wire m))) (wire m @ rest) = ret (Some m)"
begin

text \<open>What one host serialises, any host parses, and the buffer after the message is unchanged.\<close>

lemma put_get:
  assumes "ok m" and "length (wire m) \<le> unat cap" and "unat cap \<le> length b"
  shows "\<exists>n b'. put e cap b m = ret (n, b') \<and> unat n = length (wire m) \<and> take (unat n) b' = wire m \<and>
    drop (unat n) b' = drop (unat n) b \<and> length b' = length b \<and> get e' n b' = ret (Some m)"
proof -
  let ?l = "length (wire m)"
  have "unat (of_nat ?l :: 64 word) = ?l" using short [OF assms(1)] by (intro unat_of_nat_64) simp
  then show ?thesis
    using put_wire [OF assms] get_wire [OF assms(1)] assms(2,3) by auto
qed

end

definition get_server_error :: "endian \<Rightarrow> 64 word \<Rightarrow> 8 word list \<Rightarrow> (64 word \<times> 8 word) option comp" where
  "get_server_error e n b = bindC (deser_header e b) (\<lambda>h.
     bindC (deser_server_error n b) (\<lambda>r. ret (map_option (\<lambda>code. (hd_seqid h, code)) r)))"

definition get_create_group :: "endian \<Rightarrow> 64 word \<Rightarrow> 8 word list \<Rightarrow> (64 word \<times> 64 word list) option comp" where
  "get_create_group e n b = bindC (deser_header e b) (\<lambda>h.
     bindC (deser_create_group e n b (replicate 200 0)) (\<lambda>r.
     ret (map_option (\<lambda>(uids_len, uids, off, raw_len). (hd_seqid h, take (unat uids_len) uids)) r)))"

lemma get_server_error_wire: "get_server_error e 12 (wire_server_error (seqid, code) @ rest) = ret (Some (seqid, code))"
  by (simp add: get_server_error_def wire_server_error_def deser_server_error_def layout aread_def nth_append)

lemma be_word_wire_ids:
  "i < length uids \<Longrightarrow> (be_word (take 8 (drop (8 * i) (wire_ids uids @ rest))) :: 64 word) = uids ! i"
proof (induction uids arbitrary: i)
  case (Cons u uids)
  then show ?case
    by (cases i) (simp_all add: wire_ids_def)
qed simp

lemma get_create_group_wire:
  assumes "length uids \<le> 200"
  shows "get_create_group e (of_nat (12 + 8 * length uids)) (wire_create_group (seqid, uids) @ rest) = ret (Some (seqid, uids))"
proof -
  let ?n = "length uids" and ?b = "wire_create_group (seqid, uids) @ rest"
  have len: "unat (of_nat (12 + 8 * ?n) :: 64 word) = 12 + 8 * ?n" using assms by (intro unat_of_nat_64) simp
  have c: "?b ! 11 = of_nat ?n" by (simp add: wire_create_group_def nth_append)
  have u: "unat (of_nat ?n :: 8 word) = ?n" using assms by (intro unat_of_nat_8) simp
  have "drop 12 ?b = wire_ids uids @ rest" by (simp add: wire_create_group_def)
  then have d: "drop (12 + 8 * i) ?b = drop (8 * i) (wire_ids uids @ rest)" for i
    by (metis add.commute drop_drop)
  have "map (\<lambda>i. be_word (take 8 (drop (12 + 8 * i) ?b))) [0..<?n] = uids"
    unfolding d by (rule nth_equalityI) (simp_all add: be_word_wire_ids del: drop_append take_append)
  moreover have "deser_create_group e (of_nat (12 + 8 * ?n)) ?b (replicate 200 0) =
      ret (Some (of_nat ?n, map (\<lambda>i. be_word (take 8 (drop (12 + 8 * i) ?b))) [0..<?n] @ drop ?n (replicate 200 0), 12, of_nat (8 * ?n)))"
    by (subst deser_create_group_reads) (use assms len c u in \<open>simp_all add: wire_create_group_def\<close>)
  ultimately show ?thesis using u by (simp add: get_create_group_def) (simp add: wire_create_group_def)
qed

interpretation server_error_codec: wire_codec "\<lambda>_. True" wire_server_error
  "\<lambda>e cap b (seqid, code). ser_server_error e cap b seqid code" get_server_error
proof (unfold_locales, goal_cases)
  case (2 m cap b e)
  then have "12 \<le> cap" by (cases m) (simp add: word_le_nat_alt)
  with 2 show ?case by (cases m) (simp add: ser_server_error_wire)
next
  case (3 m e rest)
  then show ?case using get_server_error_wire by (cases m) simp
qed (auto simp: wire_server_error_def case_prod_unfold)

interpretation create_group_codec: wire_codec "\<lambda>(seqid, uids). length uids \<le> 200" wire_create_group
  "\<lambda>e cap b (seqid, uids). ser_create_group e b cap seqid uids (of_nat (length uids))" get_create_group
proof (unfold_locales, goal_cases)
  case (2 m cap b e)
  then show ?case by (cases m) (simp add: ser_create_group_wire)
next
  case (3 m e rest)
  then show ?case by (cases m) (simp only: length_wire case_prod_conv get_create_group_wire)
qed (auto simp: wire_create_group_def case_prod_unfold)

section \<open>Properties\<close>

text \<open>
  SERVER_ERROR: with room for 12 bytes, the serialiser writes length 12, the type, the seqid and the
  code in network order, whatever the byte order of its host, and nothing else of the buffer; the
  parsers of any host read back exactly the seqid and the code. With less room the assertion fails.
\<close>

lemma server_error_roundtrip:
  assumes "unat cap \<le> length b"
  shows "if 12 \<le> unat cap
    then \<exists>b'. ser_server_error e cap b seqid code = ret (12, b') \<and> length b' = length b \<and>
      take 12 b' = [0, 12, 0] @ be_bytes 8 seqid @ [code] \<and> drop 12 b' = drop 12 b \<and>
      deser_header e' b' = ret \<lparr>hd_len = 12, hd_msgt = msgt_val MSGT_SERVER_ERROR, hd_seqid = seqid\<rparr> \<and>
      deser_server_error 12 b' = ret (Some code)
    else ser_server_error e cap b seqid code = fail (Assert_failed ''len <= buf_len'')"
proof (cases "12 \<le> unat cap")
  case True
  have "be_bytes 2 (12 :: 16 word) = [0, 12]" by (simp add: be_bytes_def upt_rec)
  then have w: "wire_server_error (seqid, code) = [0, 12, 0] @ be_bytes 8 seqid @ [code]"
    by (simp add: wire_server_error_def wire_header_def)
  from True assms have "ser_server_error e cap b seqid code = ret (12, wire_server_error (seqid, code) @ drop 12 b)"
    by (intro ser_server_error_wire) (simp_all add: word_le_nat_alt)
  moreover have "deser_header e' (wire_server_error (seqid, code) @ drop 12 b) =
      ret \<lparr>hd_len = 12, hd_msgt = msgt_val MSGT_SERVER_ERROR, hd_seqid = seqid\<rparr>"
    unfolding wire_server_error_def by simp
  moreover have "deser_server_error 12 (wire_server_error (seqid, code) @ drop 12 b) = ret (Some code)"
    by (simp add: deser_server_error_def layout aread_def wire_server_error_def nth_append)
  ultimately show ?thesis using True assms w by auto
next
  case False
  then show ?thesis by (simp add: ser_server_error_def Let_def layout assertC_def word_le_nat_alt)
qed

text \<open>
  C37. SET_USERNAME: a name of at most 65524 bytes that fits the buffer is serialised by a host of either
  byte order so that any host reads back the length, the type, the seqid and the name, and the
  buffer after the message is unchanged.
\<close>

theorem set_username_roundtrip:
  assumes "length name \<le> 65524" and "11 + length name \<le> unat cap" and "unat cap \<le> length b"
  shows "\<exists>n b'. ser_set_username e cap b seqid (of_nat (length name)) name = ret (n, b') \<and>
    unat n = 11 + length name \<and> length b' = length b \<and> drop (unat n) b' = drop (unat n) b \<and>
    deser_header e' b' = ret \<lparr>hd_len = ucast n, hd_msgt = msgt_val MSGT_SET_USERNAME, hd_seqid = seqid\<rparr> \<and>
    (case deser_set_username n of (off, uname_len) \<Rightarrow>
       unat uname_len = length name \<and> take (unat uname_len) (drop off b') = name)"
proof -
  let ?n = "of_nat (11 + length name) :: 64 word" and ?b = "wire_set_username (seqid, name) @ drop (11 + length name) b"
  have "ser_set_username e cap b seqid (of_nat (length name)) name = ret (?n, ?b)"
    using assms by (intro ser_set_username_wire)
  moreover have n: "unat ?n = 11 + length name" using assms(1) by (intro unat_of_nat_64) simp
  moreover have "deser_header e' ?b = ret \<lparr>hd_len = ucast ?n, hd_msgt = msgt_val MSGT_SET_USERNAME, hd_seqid = seqid\<rparr>"
    unfolding wire_set_username_def ucast_of_nat_16 by simp
  moreover have "unat (?n - 11) = length name" using assms(1) by (simp add: unat_of_nat_64)
  then have "case deser_set_username ?n of (off, uname_len) \<Rightarrow>
       unat uname_len = length name \<and> take (unat uname_len) (drop off ?b) = name"
    by (simp add: deser_set_username_def layout wire_set_username_def)
  ultimately show ?thesis
    using assms(2,3) by (intro exI [of _ ?n] exI [of _ ?b] conjI) (simp_all del: of_nat_add)
qed

theorem set_username_roundtrip_witness:
  "\<exists>n b'. ser_set_username LE 64 (replicate 64 0) 7 5 [97, 109, 105, 114, 49] = ret (n, b') \<and> unat n = 16 \<and>
    take 5 (drop 11 b') = [97, 109, 105, 114, 49]"
proof -
  have five: "(5 :: nat) = Suc (Suc (Suc (Suc (Suc 0))))" by simp
  show ?thesis
    using set_username_roundtrip [of "[97, 109, 105, 114, 49]" 64 "replicate 64 0" LE 7 BE]
    by (auto simp: deser_set_username_def layout five simp del: take_Suc)
qed

text \<open>
  C38. CREATE_GROUP: at most 200 user ids that fit the buffer are serialised by a host of either byte order
  so that any host's \<open>deser_create_group\<close> accepts the message and delivers exactly these ids.
\<close>

theorem create_group_roundtrip:
  assumes "length uids \<le> 200" and "12 + 8 * length uids \<le> unat cap" and "unat cap \<le> length b"
  shows "\<exists>n b'. ser_create_group e b cap seqid uids (of_nat (length uids)) = ret (n, b') \<and>
    unat n = 12 + 8 * length uids \<and> length b' = length b \<and> drop (unat n) b' = drop (unat n) b \<and>
    get_create_group e' n b' = ret (Some (seqid, uids))"
  using create_group_codec.put_get [of "(seqid, uids)" cap b e e'] assms by auto

theorem create_group_roundtrip_witness:
  "\<exists>n b'. ser_create_group LE (replicate 64 0) 64 9 [5, 6] 2 = ret (n, b') \<and> get_create_group BE n b' = ret (Some (9, [5, 6]))"
  using create_group_roundtrip [of "[5, 6]" 64 "replicate 64 0" LE 9 BE] by auto

text \<open>
  C39. \<open>deser_create_group\<close> is safe on arbitrary bytes: given as many bytes as the header's length says and
  an array of 200 ids, it never reads or writes out of bounds. It accepts exactly the messages whose
  count is at most 200 and agrees with the length, and then delivers the ids in host order.
\<close>

theorem deser_create_group_total:
  assumes "unat buf_len \<le> length buf" and "200 \<le> length uids"
  shows "deser_create_group e buf_len buf uids =
    (if 12 \<le> unat buf_len \<and> unat (buf ! 11) \<le> 200 \<and> unat buf_len = 12 + 8 * unat (buf ! 11)
     then ret (Some (buf ! 11, map (\<lambda>i. be_word (take 8 (drop (12 + 8 * i) buf))) [0..<unat (buf ! 11)] @
       drop (unat (buf ! 11)) uids, 12, of_nat (8 * unat (buf ! 11))))
     else ret None)"
  using assms by (rule deser_create_group_reads)

theorem deser_create_group_total_witness:
  "deser_create_group LE 12 (replicate 11 0 @ [1]) (replicate 200 0) = ret None"
  using deser_create_group_total [of 12 "replicate 11 0 @ [1]" "replicate 200 0" LE] by (simp add: nth_append)

text \<open>
  \<open>deser_set_username\<close> subtracts in \<open>size_t\<close>: a length below the header's 11 bytes gives a name length
  close to \<open>2\<^sup>6\<^sup>4\<close>. The range check of the server still rejects it: a name length of 3 to 15
  is computed exactly for the message lengths 14 to 26.
\<close>

theorem deser_set_username_length:
  "unat (snd (deser_set_username n)) = (if 11 \<le> unat n then unat n - 11 else 2 ^ 64 - (11 - unat n)) \<and>
   (MIN_UNAME_LEN \<le> snd (deser_set_username n) \<and> snd (deser_set_username n) \<le> MAX_UNAME_LEN \<longleftrightarrow>
    14 \<le> unat n \<and> unat n \<le> 26)"
proof -
  have u: "unat (snd (deser_set_username n)) = (if 11 \<le> unat n then unat n - 11 else 2 ^ 64 - (11 - unat n))"
    by (auto simp: deser_set_username_def layout unat_sub_if')
  show ?thesis
    by (simp only: u word_le_nat_alt MIN_UNAME_LEN_def MAX_UNAME_LEN_def) auto
qed

text \<open>
  C40. What \<open>ser_set_username\<close> does for every length \<open>n\<close> of a name: it checks the capacity, here that of the
  buffer, against \<open>11 + n\<close> cut to 16 bits. If the cut length is over the capacity the assertion fails; if it is
  not but \<open>11 + n\<close> is, which takes a name of at least 65525 bytes, the copy of the name runs out of the
  buffer; otherwise the whole name is written behind a header with the cut length, and the cut length is returned.
\<close>

theorem ser_set_username_overrun:
  assumes "unat cap = length b" and "11 \<le> length b" and "unat n \<le> length name" and "unat n + 11 < 2 ^ 64"
  shows "ser_set_username e cap b seqid n name = (let cut = (11 + unat n) mod 65536 in
    if length b < cut then fail (Assert_failed ''len <= buf_len'')
    else if length b < 11 + unat n then fail Out_of_bounds
    else ret (of_nat cut, wire_header (of_nat cut) MSGT_SET_USERNAME seqid @ take (unat n) name @ drop (11 + unat n) b))"
proof -
  let ?len = "ucast (11 + n) :: 16 word" and ?cut = "(11 + unat n) mod 65536"
  have "unat (11 + n) = 11 + unat n" using assms(4) by (simp add: unat_word_ariths)
  then have u: "unat ?len = ?cut" "unat (ucast ?len :: 64 word) = ?cut"
    by (simp_all add: unsigned_ucast_eq take_bit_eq_mod unat_mod)
  then have len: "?len = of_nat ?cut" "(ucast ?len :: 64 word) = of_nat ?cut"
    unfolding word_unat_eq_iff by (simp_all add: unat_of_nat_16 unat_of_nat_64)
  have "(ucast ?len :: 64 word) \<le> cap \<longleftrightarrow> \<not> length b < ?cut" using u(2) assms(1) by (auto simp: word_le_nat_alt)
  then show ?thesis
    using assms unfolding ser_set_username_def Let_def layout of_nat_numeral len(1)
    by (auto simp: assertC_def put_header_wire bread_def bwrite_def len(2) [unfolded len(1) add.commute [of 11 "unat n"]] add.commute)
qed

theorem ser_set_username_overrun_witness:
  "ser_set_username LE 2048 (replicate 2048 0) 1 65530 (replicate 65530 97) = fail Out_of_bounds \<and>
   ser_set_username LE 2048 (replicate 2048 0) 1 70000 (replicate 70000 97) = fail (Assert_failed ''len <= buf_len'')"
  using ser_set_username_overrun [of 2048 "replicate 2048 0" 65530 "replicate 65530 97" LE 1]
    ser_set_username_overrun [of 2048 "replicate 2048 0" 70000 "replicate 70000 97" LE 1] by (simp add: Let_def)

end
