(* ===== verification/Server.thy ===== *)
theory Server
  imports Slab Op_Pool Client_Map Protocol
begin

text \<open>
  server.c: the handlers of completed io_uring operations. The state is the Server struct with what it
  points to: the operation pool and the heap of operations, the two slabs and the heap of buffers they
  share, the client map and the heap of ClientInfos, the static counter of client ids; and what the
  outside sees: the submission entries prepared and not yet submitted, the descriptors closed, the
  connection log. Operations, buffers and ClientInfos are passed by address, as in the C code.

  liburing and the system calls are not part of the program. They are the parameter \<open>env\<close>: whether
  \<open>io_uring_get_sqe\<close> gives an entry when \<open>n\<close> are waiting, what \<open>io_uring_submit\<close> and \<open>close\<close>
  return; with it comes the host's byte order. Output that is only for the operator (printf) is left
  out, except the lines of \<open>log_with_client_info\<close>.
\<close>

section \<open>Definitions\<close>

datatype response_code =
    CODE_SUCCESS
  | CODE_INVALID_MSG_TYPE
  | CODE_INVALID_MSG_LEN
  | CODE_INVALID_USERNAME
  | CODE_FAILURE

fun code_val :: "response_code \<Rightarrow> 8 word" where
  "code_val CODE_SUCCESS = 0"
| "code_val CODE_INVALID_MSG_TYPE = 1"
| "code_val CODE_INVALID_MSG_LEN = 2"
| "code_val CODE_INVALID_USERNAME = 3"
| "code_val CODE_FAILURE = 4"

definition BUFFER_SIZE_64B :: "64 word" where
  "BUFFER_SIZE_64B = 64"

definition BUFFER_SIZE_2KB :: "64 word" where
  "BUFFER_SIZE_2KB = 2048"

text \<open>
  A prepared entry: the user data (a pool id) and the request. A buffer is given by its BufRef, the
  offset in it and the length; the address of an accepted peer goes to a ClientInfo.
\<close>

datatype request =
    Accept int nat
  | Recv int nat nat "64 word"
  | Send int nat nat "64 word"

record sqe =
  sqe_data :: nat
  sqe_req :: request

text \<open>
  A completion: the user data of its entry and the result; with it the bytes that the kernel has
  written for the entry, the data received or the peer's socket address.
\<close>

record cqe =
  cqe_data :: nat
  cqe_res :: int
  cqe_bytes :: "8 word list"

record env =
  env_endian :: endian
  env_sqe :: "nat \<Rightarrow> bool"
  env_submit :: "sqe list \<Rightarrow> int"
  env_close :: "int \<Rightarrow> int"

text \<open>A line of the connection log: address, port, client id, descriptor, message.\<close>

type_synonym log_line = "8 word list \<times> 16 word \<times> 64 word \<times> int \<times> string"

record server =
  sv_clients :: client_map
  sv_infos :: "client_info heap"
  sv_slab64 :: slab
  sv_slab2k :: slab
  sv_bufs :: "bufref heap"
  sv_pool :: op_pool
  sv_ops :: "operation heap"
  sv_server_fd :: int
  sv_next_client_id :: "64 word"
  sv_sq :: "sqe list"
  sv_flight :: "sqe list"
  sv_closed :: "int list"
  sv_log :: "log_line list"

subsection \<open>Access to the objects\<close>

definition get_op :: "server \<Rightarrow> nat \<Rightarrow> operation comp" where
  "get_op s a = hget (sv_ops s) a"

definition put_op :: "nat \<Rightarrow> operation \<Rightarrow> server \<Rightarrow> server comp" where
  "put_op a op s = bindC (hput (sv_ops s) a op) (\<lambda>h. ret (s\<lparr>sv_ops := h\<rparr>))"

definition get_buf :: "server \<Rightarrow> nat \<Rightarrow> bufref comp" where
  "get_buf s b = hget (sv_bufs s) b"

definition put_buf :: "nat \<Rightarrow> 8 word list \<Rightarrow> server \<Rightarrow> server comp" where
  "put_buf b bytes s = bindC (hget (sv_bufs s) b) (\<lambda>r.
     bindC (hput (sv_bufs s) b (r\<lparr>br_buf := bytes\<rparr>)) (\<lambda>h. ret (s\<lparr>sv_bufs := h\<rparr>)))"

definition get_info :: "server \<Rightarrow> nat \<Rightarrow> client_info comp" where
  "get_info s i = hget (sv_infos s) i"

definition put_info :: "nat \<Rightarrow> client_info \<Rightarrow> server \<Rightarrow> server comp" where
  "put_info i info s = bindC (hput (sv_infos s) i info) (\<lambda>h. ret (s\<lparr>sv_infos := h\<rparr>))"

text \<open>
  \<open>op_pool_new_entry\<close>, \<open>op_pool_return\<close>, \<open>slab_acquire\<close> and \<open>slab_release\<close> on the server's pool and slabs. The
  first and the third exit when there is no memory and give an object otherwise, so the assertions
  after their calls that the result is not NULL have no counterpart.
\<close>

definition srv_new_op :: "server \<Rightarrow> (nat \<times> server) comp" where
  "srv_new_op s = bindC (op_pool_new_entry (sv_pool s) (sv_ops s)) (\<lambda>(a, p, h).
     ret (a, s\<lparr>sv_pool := p, sv_ops := h\<rparr>))"

definition srv_return_op :: "nat \<Rightarrow> server \<Rightarrow> server comp" where
  "srv_return_op a s = bindC (op_pool_return (sv_pool s) (sv_ops s) a) (\<lambda>p. ret (s\<lparr>sv_pool := p\<rparr>))"

definition srv_slab :: "bool \<Rightarrow> server \<Rightarrow> slab" where
  "srv_slab large s = (if large then sv_slab2k s else sv_slab64 s)"

definition set_slab :: "bool \<Rightarrow> slab \<Rightarrow> server \<Rightarrow> server" where
  "set_slab large sl s = (if large then s\<lparr>sv_slab2k := sl\<rparr> else s\<lparr>sv_slab64 := sl\<rparr>)"

definition srv_acquire :: "bool \<Rightarrow> 64 word \<Rightarrow> server \<Rightarrow> (nat \<times> server) comp" where
  "srv_acquire large ref s = bindC (slab_acquire (srv_slab large s) (sv_bufs s) ref) (\<lambda>(b, sl, h).
     ret (b, (set_slab large sl s)\<lparr>sv_bufs := h\<rparr>))"

definition srv_release :: "bool \<Rightarrow> nat \<Rightarrow> server \<Rightarrow> server comp" where
  "srv_release large b s = bindC (slab_release (srv_slab large s) (sv_bufs s) b) (\<lambda>(sl, h).
     ret ((set_slab large sl s)\<lparr>sv_bufs := h\<rparr>))"

text \<open>
  A submission entry is taken (\<open>get_sqe\<close>, which ends the process when the queue is full) and later
  filled in (\<open>push_sqe\<close>).
\<close>

definition get_sqe :: "env \<Rightarrow> server \<Rightarrow> unit comp" where
  "get_sqe env s = (if env_sqe env (length (sv_sq s)) then ret () else fail (Exit_failure ''SQ is full''))"

definition push_sqe :: "nat \<Rightarrow> request \<Rightarrow> server \<Rightarrow> server" where
  "push_sqe pool_id rq s = s\<lparr>sv_sq := sv_sq s @ [\<lparr>sqe_data = pool_id, sqe_req = rq\<rparr>]\<rparr>"

subsection \<open>Helpers of server.c\<close>

text \<open>
  isalnum in the C locale. A byte above 127 is a negative \<open>char\<close> where that type is signed; glibc then
  answers false, the C standard leaves the call undefined.
\<close>

definition isalnum :: "8 word \<Rightarrow> bool" where
  "isalnum c \<longleftrightarrow> 48 \<le> c \<and> c \<le> 57 \<or> 65 \<le> c \<and> c \<le> 90 \<or> 97 \<le> c \<and> c \<le> 122"

fun username_valid :: "nat \<Rightarrow> 8 word list \<Rightarrow> nat \<Rightarrow> bool comp" where
  "username_valid 0 buf i = ret True"
| "username_valid (Suc n) buf i =
     bindC (aread buf i) (\<lambda>c. if \<not> isalnum c then ret False else username_valid n buf (Suc i))"

text \<open>The address is a \<open>sockaddr_in\<close>: the port at offset 2, the IPv4 address at offset 4.\<close>

definition log_with_client_info :: "env \<Rightarrow> nat \<Rightarrow> string \<Rightarrow> server \<Rightarrow> server comp" where
  "log_with_client_info env i msg s = bindC (get_info s i) (\<lambda>info.
     bindC (bread (ci_client_addr info) 4 4) (\<lambda>client_ip.
     bindC (bread (ci_client_addr info) 2 2) (\<lambda>net_port.
     let port = ntohs (env_endian env) (mem_word (env_endian env) net_port) in
     ret (s\<lparr>sv_log := sv_log s @ [(client_ip, port, ci_client_id info, ci_client_fd info, msg)]\<rparr>))))"

definition acquire_send_buf :: "64 word \<Rightarrow> nat \<Rightarrow> 64 word \<Rightarrow> server \<Rightarrow> server comp" where
  "acquire_send_buf len a ref s =
     (let large = len > 64 in
      bindC (srv_acquire large ref s) (\<lambda>(b, s).
      bindC (get_op s a) (\<lambda>op.
      put_op a (op\<lparr>op_buf_ref := Some b, op_buf_cap := slab_buf_cap (srv_slab large s), op_buf_len := len\<rparr>) s)))"

definition acquire_small_buf :: "nat \<Rightarrow> 64 word \<Rightarrow> server \<Rightarrow> server comp" where
  "acquire_small_buf a ref s =
     bindC (srv_acquire False ref s) (\<lambda>(b, s).
     bindC (get_op s a) (\<lambda>op.
     put_op a (op\<lparr>op_buf_ref := Some b, op_buf_cap := slab_buf_cap (sv_slab64 s)\<rparr>) s))"

definition acquire_large_buf :: "nat \<Rightarrow> 64 word \<Rightarrow> server \<Rightarrow> server comp" where
  "acquire_large_buf a ref s =
     bindC (srv_acquire True ref s) (\<lambda>(b, s).
     bindC (get_op s a) (\<lambda>op.
     put_op a (op\<lparr>op_buf_ref := Some b, op_buf_cap := slab_buf_cap (sv_slab2k s)\<rparr>) s))"

definition free_op :: "nat \<Rightarrow> server \<Rightarrow> server comp" where
  "free_op a s =
     bindC (get_op s a) (\<lambda>op.
     bindC (ptr (op_buf_ref op)) (\<lambda>b.
     bindC (srv_release (op_buf_cap op > 64) b s) (\<lambda>s.
     bindC (put_op a (op\<lparr>op_client_fd := - 1, op_buf_ref := None\<rparr>) s) (\<lambda>s.
     srv_return_op a s))))"

definition disconnect_and_free_op :: "env \<Rightarrow> nat option \<Rightarrow> nat \<Rightarrow> server \<Rightarrow> server comp" where
  "disconnect_and_free_op env info a s =
     bindC (case info of
              None \<Rightarrow> ret s
            | Some i \<Rightarrow>
                bindC (log_with_client_info env i ''disconnected'' s) (\<lambda>s.
                bindC (get_op s a) (\<lambda>op.
                bindC (must_close (env_close env) (op_client_fd op) ''handle_recv close client_fd'') (\<lambda>_.
                bindC (client_map_delete (sv_clients s) (sv_infos s) (op_client_id op)) (\<lambda>(deleted, cm, h).
                ret (s\<lparr>sv_closed := sv_closed s @ [op_client_fd op], sv_clients := cm, sv_infos := h\<rparr>)))))) (\<lambda>s.
     free_op a s)"

text \<open>\<open>server_init\<close> only stores its arguments; the ring starts empty and the client ids start at 1.\<close>

definition server_init ::
  "client_map \<Rightarrow> client_info heap \<Rightarrow> slab \<Rightarrow> slab \<Rightarrow> bufref heap \<Rightarrow> op_pool \<Rightarrow> operation heap \<Rightarrow> int \<Rightarrow> server" where
  "server_init clients infos slab64 slab2k bufs pool opers server_fd =
     \<lparr>sv_clients = clients, sv_infos = infos, sv_slab64 = slab64, sv_slab2k = slab2k, sv_bufs = bufs,
      sv_pool = pool, sv_ops = opers, sv_server_fd = server_fd, sv_next_client_id = 1,
      sv_sq = [], sv_flight = [], sv_closed = [], sv_log = []\<rparr>"

definition add_accept :: "env \<Rightarrow> 64 word \<Rightarrow> server \<Rightarrow> server comp" where
  "add_accept env client_id s =
     bindC (get_sqe env s) (\<lambda>_.
     bindC (srv_new_op s) (\<lambda>(a, s).
     bindC (acquire_large_buf a 1 s) (\<lambda>s.
     bindC (get_op s a) (\<lambda>op.
     bindC (put_op a (op\<lparr>op_buf_len := 0, op_client_id := client_id, op_processed := 0, op_client_fd := - 1,
                         op_type := OP_ACCEPT\<rparr>) s) (\<lambda>s.
     bindC (client_map_new_entry (sv_clients s) (sv_infos s) client_id) (\<lambda>(r, cm, h).
     let s = s\<lparr>sv_clients := cm, sv_infos := h\<rparr> in
     bindC (ptr r) (\<lambda>i.
     bindC (get_info s i) (\<lambda>info.
     bindC (put_info i (info\<lparr>ci_client_addr := replicate 16 0, ci_client_addr_len := 16\<rparr>) s) (\<lambda>s.
     ret (push_sqe (op_pool_id op) (Accept (sv_server_fd s) i) s))))))))))"

definition add_recv :: "env \<Rightarrow> nat \<Rightarrow> int \<Rightarrow> server \<Rightarrow> server comp" where
  "add_recv env a client_fd s =
     bindC (get_sqe env s) (\<lambda>_.
     bindC (get_op s a) (\<lambda>op.
     bindC (put_op a (op\<lparr>op_client_fd := client_fd, op_type := OP_READ\<rparr>) s) (\<lambda>s.
     bindC (ptr (op_buf_ref op)) (\<lambda>b.
     ret (push_sqe (op_pool_id op) (Recv client_fd b 0 (op_buf_cap op)) s)))))"

definition resume_recv :: "env \<Rightarrow> nat \<Rightarrow> 64 word \<Rightarrow> server \<Rightarrow> server comp" where
  "resume_recv env a bytes_read s =
     bindC (get_sqe env s) (\<lambda>_.
     bindC (get_op s a) (\<lambda>op.
     bindC (ptr (op_buf_ref op)) (\<lambda>b.
     let len = op_buf_cap op - bytes_read in
     ret (push_sqe (op_pool_id op) (Recv (op_client_fd op) b (unat bytes_read) len) s))))"

definition add_send :: "env \<Rightarrow> nat \<Rightarrow> int \<Rightarrow> 64 word \<Rightarrow> server \<Rightarrow> server comp" where
  "add_send env a client_fd client_id s =
     bindC (get_sqe env s) (\<lambda>_.
     bindC (get_op s a) (\<lambda>op.
     bindC (put_op a (op\<lparr>op_client_id := client_id, op_processed := 0, op_client_fd := client_fd, op_type := OP_WRITE\<rparr>) s) (\<lambda>s.
     bindC (ptr (op_buf_ref op)) (\<lambda>b.
     ret (push_sqe (op_pool_id op) (Send client_fd b 0 (op_buf_len op)) s)))))"

definition resume_send :: "env \<Rightarrow> nat \<Rightarrow> 64 word \<Rightarrow> server \<Rightarrow> server comp" where
  "resume_send env a processed s =
     bindC (get_sqe env s) (\<lambda>_.
     bindC (get_op s a) (\<lambda>op.
     let op = op\<lparr>op_processed := op_processed op + processed\<rparr> in
     bindC (put_op a op s) (\<lambda>s.
     bindC (ptr (op_buf_ref op)) (\<lambda>b.
     let len = op_buf_len op - op_processed op in
     ret (push_sqe (op_pool_id op) (Send (op_client_fd op) b (unat (op_processed op)) len) s)))))"

text \<open>
  The two senders differ in the serialiser only: a new operation with a small buffer, the message
  written into it, its length recorded, the send prepared.
\<close>

definition send_with ::
  "(64 word \<Rightarrow> 8 word list \<Rightarrow> (64 word \<times> 8 word list) comp) \<Rightarrow> env \<Rightarrow> int \<Rightarrow> 64 word \<Rightarrow> server \<Rightarrow> server comp" where
  "send_with ser env client_fd client_id s =
     bindC (srv_new_op s) (\<lambda>(a, s).
     bindC (acquire_small_buf a 1 s) (\<lambda>s.
     bindC (get_op s a) (\<lambda>op.
     bindC (ptr (op_buf_ref op)) (\<lambda>b.
     bindC (get_buf s b) (\<lambda>buf.
     bindC (ser (op_buf_cap op) (br_buf buf)) (\<lambda>(len, bytes).
     bindC (put_buf b bytes s) (\<lambda>s.
     bindC (put_op a (op\<lparr>op_buf_len := len\<rparr>) s) (\<lambda>s.
     add_send env a client_fd client_id s))))))))"

definition send_server_error :: "env \<Rightarrow> int \<Rightarrow> 64 word \<Rightarrow> 64 word \<Rightarrow> 8 word \<Rightarrow> server \<Rightarrow> server comp" where
  "send_server_error env client_fd client_id seqid code s =
     send_with (\<lambda>cap buf. ser_server_error (env_endian env) cap buf seqid code) env client_fd client_id s"

definition send_set_username_response :: "env \<Rightarrow> int \<Rightarrow> 64 word \<Rightarrow> 64 word \<Rightarrow> server \<Rightarrow> server comp" where
  "send_set_username_response env client_fd seqid client_id s =
     send_with (\<lambda>cap buf. ser_set_username_response (env_endian env) cap buf seqid) env client_fd client_id s"

subsection \<open>Handlers\<close>

text \<open>
  \<open>handle\<close>: the request is at offset \<open>off\<close> of the buffer \<open>b\<close>. The result is the returned int. A
  CREATE_GROUP request falls through to the default case.
\<close>

definition handle ::
  "env \<Rightarrow> nat \<Rightarrow> nat \<Rightarrow> nat \<Rightarrow> nat \<Rightarrow> 64 word \<Rightarrow> 8 word \<Rightarrow> 64 word \<Rightarrow> server \<Rightarrow> (int \<times> server) comp" where
  "handle env info a b off req_len msgt seqid s =
     bindC (get_op s a) (\<lambda>req_op.
     let client_fd = op_client_fd req_op; client_id = op_client_id req_op in
     if msgt = msgt_val MSGT_SET_USERNAME
     then (case deser_set_username req_len of (uname, uname_len) \<Rightarrow>
       if uname_len < MIN_UNAME_LEN \<or> uname_len > MAX_UNAME_LEN
       then bindC (send_server_error env client_fd client_id seqid (code_val CODE_INVALID_MSG_LEN) s) (\<lambda>s. ret (0, s))
       else bindC (get_buf s b) (\<lambda>buf.
         bindC (username_valid (unat uname_len) (br_buf buf) (off + uname)) (\<lambda>valid.
         if \<not> valid
         then bindC (send_server_error env client_fd client_id seqid (code_val CODE_INVALID_USERNAME) s) (\<lambda>s. ret (0, s))
         else bindC (bread (br_buf buf) (off + uname) (unat uname_len)) (\<lambda>name.
           bindC (get_info s info) (\<lambda>ci.
           bindC (bwrite (ci_username ci) 0 name) (\<lambda>un.
           bindC (bwrite un (unat uname_len) [0]) (\<lambda>un.
           bindC (put_info info (ci\<lparr>ci_username := un\<rparr>) s) (\<lambda>s.
           bindC (send_set_username_response env client_fd seqid client_id s) (\<lambda>s. ret (0, s))))))))))
     else ret (- 1, s))"

definition handle_accept :: "env \<Rightarrow> int \<Rightarrow> nat \<Rightarrow> nat \<Rightarrow> server \<Rightarrow> server comp" where
  "handle_accept env client_fd info a s =
     bindC (get_info s info) (\<lambda>ci.
     bindC (put_info info (ci\<lparr>ci_client_fd := client_fd\<rparr>) s) (\<lambda>s.
     bindC (log_with_client_info env info ''connected'' s) (\<lambda>s.
     bindC (add_recv env a client_fd s) (\<lambda>s.
     bindC (add_accept env (sv_next_client_id s) s) (\<lambda>s.
     ret (s\<lparr>sv_next_client_id := sv_next_client_id s + 1\<rparr>))))))"

text \<open>
  memmove of \<open>n\<close> bytes from offset \<open>off\<close> of a buffer to its start, the only memmove of the program. It has
  a fault of its own, so that it can be told from every other access out of bounds.
\<close>

definition memmove_down :: "nat \<Rightarrow> nat \<Rightarrow> nat \<Rightarrow> server \<Rightarrow> server comp" where
  "memmove_down b off n s =
     bindC (get_buf s b) (\<lambda>buf.
     if off + n \<le> length (br_buf buf)
     then put_buf b (take n (drop off (br_buf buf)) @ drop n (br_buf buf)) s
     else fail Memmove_overrun)"

text \<open>
  The loop of \<open>handle_recv\<close>: \<open>off\<close> is \<open>req_buf\<close>. The result is the number of bytes that
  \<open>resume_recv\<close> continues with, or \<open>None\<close> when the function has disconnected the client and returned.
\<close>

partial_function (option) handle_recv_loop ::
  "env \<Rightarrow> nat \<Rightarrow> nat \<Rightarrow> nat \<Rightarrow> nat \<Rightarrow> 64 word \<Rightarrow> server \<Rightarrow> (64 word option \<times> server) comp" where
  "handle_recv_loop env info a b off bytes_read s =
     (if bytes_read \<ge> PROT_HDR_LEN
      then bindC (get_buf s b) (\<lambda>buf.
        bindC (deser_header (env_endian env) (drop off (br_buf buf))) (\<lambda>h.
        let req_len = ucast (hd_len h) :: 64 word in
        if req_len > BUFFER_SIZE_2KB
        then bindC (disconnect_and_free_op env (Some info) a s) (\<lambda>s. ret (None, s))
        else if bytes_read < req_len
        then bindC (get_op s a) (\<lambda>op.
          bindC (if off \<noteq> 0 then memmove_down b off (unat (op_buf_cap op - bytes_read)) s else ret s) (\<lambda>s.
          ret (Some bytes_read, s)))
        else bindC (handle env info a b off req_len (hd_msgt h) (hd_seqid h) s) (\<lambda>(r, s).
          if r = - 1
          then bindC (disconnect_and_free_op env (Some info) a s) (\<lambda>s. ret (None, s))
          else handle_recv_loop env info a b (off + unat req_len) (bytes_read - req_len) s)))
      else ret (Some bytes_read, s))"

declare handle_recv_loop.simps [code]

definition handle_recv :: "env \<Rightarrow> nat \<Rightarrow> nat \<Rightarrow> 64 word \<Rightarrow> server \<Rightarrow> server comp" where
  "handle_recv env info a bytes_read s =
     (if bytes_read = 0 then disconnect_and_free_op env (Some info) a s
      else bindC (get_op s a) (\<lambda>op.
        bindC (ptr (op_buf_ref op)) (\<lambda>b.
        bindC (handle_recv_loop env info a b 0 bytes_read s) (\<lambda>(left, s).
        case left of
          None \<Rightarrow> ret s
        | Some n \<Rightarrow> resume_recv env a n s))))"

definition handle_send :: "env \<Rightarrow> nat \<Rightarrow> nat \<Rightarrow> 64 word \<Rightarrow> server \<Rightarrow> server comp" where
  "handle_send env info a bytes_written s =
     bindC (if bytes_written = 0 then log_with_client_info env info ''SHORT_WRITE_0'' s else ret s) (\<lambda>s.
     bindC (get_op s a) (\<lambda>op.
     if op_is_incomplete op bytes_written then resume_send env a bytes_written s
     else free_op a s))"

text \<open>One turn of the loop of \<open>handle_cqe_batch\<close>.\<close>

definition handle_cqe :: "env \<Rightarrow> cqe \<Rightarrow> server \<Rightarrow> server comp" where
  "handle_cqe env c s =
     bindC (op_pool_get (sv_pool s) (cqe_data c)) (\<lambda>p.
     bindC (assertC (p \<noteq> None) ''op != NULL'') (\<lambda>_.
     bindC (ptr p) (\<lambda>a.
     bindC (get_op s a) (\<lambda>op.
     bindC (client_map_get (sv_clients s) (sv_infos s) (op_client_id op)) (\<lambda>info.
     if cqe_res c < 0 then disconnect_and_free_op env info a s
     else (case info of
       None \<Rightarrow> free_op a s
     | Some i \<Rightarrow>
         (case op_type op of
            OP_ACCEPT \<Rightarrow> handle_accept env (cqe_res c) i a s
          | OP_READ \<Rightarrow> handle_recv env i a (of_int (cqe_res c)) s
          | OP_WRITE \<Rightarrow> handle_send env i a (of_int (cqe_res c)) s)))))))"

definition handle_cqe_batch :: "env \<Rightarrow> cqe list \<Rightarrow> server \<Rightarrow> server comp" where
  "handle_cqe_batch env cqes s = foldC (handle_cqe env) cqes s"

text \<open>\<open>io_uring_submit\<close> hands the prepared entries to the kernel: all of them, or it fails.\<close>

definition submit :: "env \<Rightarrow> server \<Rightarrow> server comp" where
  "submit env s = (if env_submit env (sv_sq s) < 0 then fail (Exit_failure ''io_uring_submit'')
     else ret (s\<lparr>sv_flight := sv_flight s @ sv_sq s, sv_sq := []\<rparr>))"

text \<open>
  What the kernel has done when a completion is delivered: the entry is no longer in flight, and a
  successful one has filled the ClientInfo's address or its part of the buffer. An entry that names a
  dead object or reaches beyond its buffer is a fault here too.
\<close>

definition deliver :: "cqe \<Rightarrow> server \<Rightarrow> server comp" where
  "deliver c s = (case find (\<lambda>q. sqe_data q = cqe_data c) (sv_flight s) of
       None \<Rightarrow> ret s
     | Some q \<Rightarrow>
         let s = s\<lparr>sv_flight := remove1 q (sv_flight s)\<rparr> in
         if cqe_res c < 0 then ret s
         else (case sqe_req q of
             Accept fd i \<Rightarrow> bindC (get_info s i) (\<lambda>ci. put_info i (ci\<lparr>ci_client_addr := cqe_bytes c\<rparr>) s)
           | Recv fd b off len \<Rightarrow>
               bindC (get_buf s b) (\<lambda>buf. bindC (bwrite (br_buf buf) off (cqe_bytes c)) (\<lambda>bytes. put_buf b bytes s))
           | Send fd b off len \<Rightarrow> ret s))"

text \<open>
  The endless loop of \<open>server_start\<close>, on what liburing delivers: in each round the completion of
  \<open>io_uring_wait_cqe\<close> (or its failure) and the result of \<open>io_uring_peek_batch_cqe\<close>. The kernel's
  writes for a completion are placed right before it is handled: only its own operation uses the
  memory concerned.
\<close>

datatype wait_result = Wait_error | Waited cqe

datatype peek_result = Peek_again | Peek_error | Peeked "cqe list"

definition take_cqes :: "env \<Rightarrow> cqe list \<Rightarrow> server \<Rightarrow> server comp" where
  "take_cqes env cqes s = foldC (\<lambda>c s. bindC (deliver c s) (handle_cqe_batch env [c])) cqes s"

definition server_round :: "env \<Rightarrow> wait_result \<times> peek_result \<Rightarrow> server \<Rightarrow> server comp" where
  "server_round env r s = (case r of
       (Wait_error, _) \<Rightarrow> fail (Exit_failure ''io_uring_wait_cqe'')
     | (Waited c, pk) \<Rightarrow>
         bindC (take_cqes env [c] s) (\<lambda>s.
         case pk of
           Peek_again \<Rightarrow> submit env s
         | Peek_error \<Rightarrow> fail (Exit_failure ''io_uring_peek_batch_cqe'')
         | Peeked cqes \<Rightarrow> bindC (take_cqes env cqes s) (\<lambda>s. submit env s)))"

definition server_start :: "env \<Rightarrow> (wait_result \<times> peek_result) list \<Rightarrow> server \<Rightarrow> server comp" where
  "server_start env rounds s =
     bindC (add_accept env (sv_next_client_id s) s) (\<lambda>s.
     bindC (submit env (s\<lparr>sv_next_client_id := sv_next_client_id s + 1\<rparr>)) (\<lambda>s.
     foldC (server_round env) rounds s))"

end
