(* ===== verification/Server_Mem.thy ===== *)
theory Server_Mem
  imports Server
begin

text \<open>
  Who owns what in the server: every operation in use owns one buffer of one of the slabs, with one
  reference and of the size the operation records, no two operations own the same buffer, and what is
  not in use is idle in its pool. \<open>srv_mem X s\<close> states this with the operations \<open>X\<close> excepted, which
  have been taken from the pool and have no buffer yet. The lemmas show that the helpers of server.c
  keep it, so that no handler frees a buffer twice, uses one it has given back or trips an assertion
  of the pool.
\<close>

section \<open>Ownership\<close>

definition busy :: "server \<Rightarrow> nat set" where
  "busy s = pool_known (sv_pool s, sv_ops s) - set (pool_idle (sv_pool s, sv_ops s))"

definition idle_bufs :: "server \<Rightarrow> nat set" where
  "idle_bufs s = set (slab_idle (sv_slab64 s, sv_bufs s)) \<union> set (slab_idle (sv_slab2k s, sv_bufs s))"

definition slabs_ok :: "server \<Rightarrow> bool" where
  "slabs_ok s \<longleftrightarrow> slab_inv (sv_slab64 s, sv_bufs s) \<and> slab_inv (sv_slab2k s, sv_bufs s) \<and>
     slab_buf_cap (sv_slab64 s) = BUFFER_SIZE_64B \<and> slab_buf_cap (sv_slab2k s) = BUFFER_SIZE_2KB"

definition size_of :: "bool \<Rightarrow> nat" where
  "size_of large = (if large then 2048 else 64)"

definition op_holds :: "server \<Rightarrow> nat \<Rightarrow> bool" where
  "op_holds s a \<longleftrightarrow> (\<exists>op b buf. cells (sv_ops s) a = Some op \<and> op_buf_ref op = Some b \<and>
     cells (sv_bufs s) b = Some buf \<and> br_ref buf = 1 \<and> b \<notin> idle_bufs s \<and>
     (\<exists>large. op_buf_cap op = of_nat (size_of large) \<and> length (br_buf buf) = size_of large))"

lemma op_holdsE:
  assumes "op_holds s a"
  obtains op b buf where "cells (sv_ops s) a = Some op" "op_buf_ref op = Some b" "cells (sv_bufs s) b = Some buf"
    "br_ref buf = 1" "b \<notin> idle_bufs s"
    "\<exists>large. op_buf_cap op = of_nat (size_of large) \<and> length (br_buf buf) = size_of large"
proof -
  from assms obtain op b buf where *: "cells (sv_ops s) a = Some op" "op_buf_ref op = Some b" "cells (sv_bufs s) b = Some buf"
    "br_ref buf = 1" "b \<notin> idle_bufs s"
    "\<exists>large. op_buf_cap op = of_nat (size_of large) \<and> length (br_buf buf) = size_of large"
    unfolding op_holds_def by blast
  then show thesis by (rule that)
qed

definition buf_of :: "server \<Rightarrow> nat \<Rightarrow> nat option" where
  "buf_of s a = op_buf_ref (the (cells (sv_ops s) a))"

definition srv_mem :: "nat set \<Rightarrow> server \<Rightarrow> bool" where
  "srv_mem X s \<longleftrightarrow> pool_clean (sv_pool s, sv_ops s) \<and> slabs_ok s \<and>
     (\<forall>a\<in>busy s - X. op_holds s a) \<and> inj_on (buf_of s) (busy s - X)"

text \<open>All of this is about five fields only.\<close>

lemma srv_mem_fields:
  assumes "sv_pool s' = sv_pool s" "sv_ops s' = sv_ops s" "sv_bufs s' = sv_bufs s" "sv_slab64 s' = sv_slab64 s" "sv_slab2k s' = sv_slab2k s"
  shows "busy s' = busy s" and "srv_mem X s' = srv_mem X s"
proof -
  have "idle_bufs s' = idle_bufs s" "buf_of s' = buf_of s" "slabs_ok s' = slabs_ok s"
    using assms by (simp_all add: idle_bufs_def buf_of_def slabs_ok_def fun_eq_iff)
  moreover from this have "op_holds s' = op_holds s" using assms by (simp add: op_holds_def fun_eq_iff)
  moreover show "busy s' = busy s" using assms by (simp add: busy_def)
  ultimately show "srv_mem X s' = srv_mem X s" using assms by (simp add: srv_mem_def)
qed

lemma srv_mem_live: "srv_mem X s \<Longrightarrow> a \<in> busy s \<Longrightarrow> cells (sv_ops s) a \<noteq> None"
  by (auto simp: srv_mem_def busy_def pool_clean_def elim!: pool_get_known)

lemma size_of_cap: "op_buf_cap op = of_nat (size_of large) \<Longrightarrow> (op_buf_cap op > 64 \<longleftrightarrow> large)"
  by (cases large) (simp_all add: size_of_def)

section \<open>Buffers\<close>

lemma idle_live:
  assumes "slabs_ok s" and "b \<in> idle_bufs s"
  shows "cells (sv_bufs s) b \<noteq> None"
  using assms by (auto simp: slabs_ok_def idle_bufs_def slab_inv_def slab_known_def)

text \<open>The idle buffers of the one slab are none of the other's: their sizes differ.\<close>

lemma slab_sizes:
  assumes "slabs_ok s"
  shows "b \<in> set (slab_idle (srv_slab large s, sv_bufs s)) \<Longrightarrow> \<exists>r. cells (sv_bufs s) b = Some r \<and> length (br_buf r) = size_of large"
  using assms
  by (auto simp: slabs_ok_def slab_inv_def slab_known_def size_of_def srv_slab_def slab_buf_cap_def
      BUFFER_SIZE_64B_def BUFFER_SIZE_2KB_def subset_iff split: if_splits)

lemma slabs_ok_other:
  assumes ok: "slabs_ok s" and inv: "slab_inv (sl, h)" and cap: "slab_buf_cap sl = slab_buf_cap (srv_slab large s)"
    and old: "\<And>x. x \<in> set (slab_idle (srv_slab (\<not> large) s, sv_bufs s)) \<Longrightarrow> cells h x = cells (sv_bufs s) x"
  shows "slabs_ok ((set_slab large sl s)\<lparr>sv_bufs := h\<rparr>)"
    and "idle_bufs ((set_slab large sl s)\<lparr>sv_bufs := h\<rparr>) =
      set (slab_idle (sl, h)) \<union> set (slab_idle (srv_slab (\<not> large) s, sv_bufs s))"
proof -
  let ?o = "srv_slab (\<not> large) s"
  have o: "slab_inv (?o, sv_bufs s)" using ok by (simp add: slabs_ok_def srv_slab_def)
  have idle: "slab_idle (?o, h) = slab_idle (?o, sv_bufs s)" by (simp add: slab_idle_def)
  have wf: "heap_wf h" using inv by (simp add: slab_inv_def)
  have "set (slab_idle (?o, h)) \<subseteq> slab_known (?o, h)"
    using o old idle by (auto simp: slab_inv_def slab_known_def subset_iff)
  then have "slab_inv (?o, h)" using o wf idle by (simp add: slab_inv_def)
  then show "slabs_ok ((set_slab large sl s)\<lparr>sv_bufs := h\<rparr>)"
    using ok inv cap by (cases large) (simp_all add: slabs_ok_def set_slab_def srv_slab_def)
  show "idle_bufs ((set_slab large sl s)\<lparr>sv_bufs := h\<rparr>) =
      set (slab_idle (sl, h)) \<union> set (slab_idle (?o, sv_bufs s))"
    by (cases large) (auto simp: idle_bufs_def set_slab_def srv_slab_def slab_idle_def)
qed

text \<open>What \<open>srv_acquire\<close> and \<open>srv_release\<close> leave alone: everything but the slabs and the buffer heap.\<close>

definition bufs_only :: "server \<Rightarrow> server \<Rightarrow> bool" where
  "bufs_only s s' \<longleftrightarrow> s'\<lparr>sv_slab64 := sv_slab64 s, sv_slab2k := sv_slab2k s, sv_bufs := sv_bufs s\<rparr> = s"

lemma bufs_only_set [simp]: "bufs_only s ((set_slab large sl s)\<lparr>sv_bufs := h\<rparr>)"
  by (cases s) (simp add: bufs_only_def set_slab_def)

lemma bufs_only_fields:
  assumes "bufs_only s s'"
  shows "sv_clients s' = sv_clients s" "sv_infos s' = sv_infos s" "sv_pool s' = sv_pool s" "sv_ops s' = sv_ops s"
    "sv_server_fd s' = sv_server_fd s" "sv_next_client_id s' = sv_next_client_id s" "sv_sq s' = sv_sq s"
    "sv_flight s' = sv_flight s" "sv_closed s' = sv_closed s" "sv_log s' = sv_log s" "busy s' = busy s"
  using assms by (cases s; cases s'; simp add: bufs_only_def busy_def)+

text \<open>The buffer \<open>b\<close>, idle or new, is taken from one of the slabs.\<close>

definition taken_buf :: "bool \<Rightarrow> 64 word \<Rightarrow> server \<Rightarrow> nat \<Rightarrow> server \<Rightarrow> bool" where
  "taken_buf large ref s b s' \<longleftrightarrow> slabs_ok s' \<and> bufs_only s s' \<and>
     (b \<in> idle_bufs s \<or> cells (sv_bufs s) b = None) \<and> idle_bufs s' = idle_bufs s - {b} \<and>
     (\<exists>buf. cells (sv_bufs s') b = Some buf \<and> br_ref buf = ref \<and> length (br_buf buf) = size_of large) \<and>
     (\<forall>x. x \<noteq> b \<longrightarrow> cells (sv_bufs s') x = cells (sv_bufs s) x)"

lemma slabs_ok_slab:
  assumes "slabs_ok s"
  shows "slab_inv (srv_slab large s, sv_bufs s)" and "unat (slab_buf_cap (srv_slab large s)) = size_of large"
  using assms by (simp_all add: slabs_ok_def srv_slab_def size_of_def BUFFER_SIZE_64B_def BUFFER_SIZE_2KB_def)

lemma srv_acquire_new:
  assumes ok: "slabs_ok s" and Nil: "slab_idle (srv_slab large s, sv_bufs s) = []"
  shows "spec (srv_acquire large ref s) is_exit (\<lambda>(b, s'). taken_buf large ref s b s')"
proof -
  let ?sl = "srv_slab large s" and ?o = "srv_slab (\<not> large) s"
  note inv = slabs_ok_slab(1) [OF ok, of large] and cap = slabs_ok_slab(2) [OF ok, of large]
  have len: "sl_len ?sl = 0" using inv Nil by (auto simp: slab_defs)
  have "spec (slab_acquire ?sl (sv_bufs s) ref) is_exit (\<lambda>(b, sl, h). taken_buf large ref s b ((set_slab large sl s)\<lparr>sv_bufs := h\<rparr>))"
  proof (rule spec_conseq [OF slab_acquire_new [OF inv len]], clarify)
    fix buf :: bufref assume l: "length (br_buf buf) = unat (sl_buf_cap ?sl)"
    let ?b = "brk (sv_bufs s)"
    let ?h = "(sv_bufs s)\<lparr>cells := (cells (sv_bufs s))(?b \<mapsto> buf), brk := Suc ?b\<rparr>"
    have new: "cells (sv_bufs s) ?b = None" using inv by (simp add: slab_inv_def heap_wf_fresh)
    then have ni: "?b \<notin> idle_bufs s" using idle_live [OF ok] by blast
    note g = slab_inv_grown [OF inv len refl l]
    have old: "cells ?h x = cells (sv_bufs s) x" if "x \<in> set (slab_idle (?o, sv_bufs s))" for x
      using that ni by (auto simp: idle_bufs_def srv_slab_def split: if_splits)
    note o = slabs_ok_other [OF ok g(1) refl old]
    have "idle_bufs ((set_slab large ?sl s)\<lparr>sv_bufs := ?h\<rparr>) = idle_bufs s - {?b}"
      using o(2) g(2) Nil ni by (cases large) (auto simp: idle_bufs_def srv_slab_def)
    then show "taken_buf large (br_ref buf) s ?b ((set_slab large ?sl s)\<lparr>sv_bufs := ?h\<rparr>)"
      using o(1) new l cap by (simp add: taken_buf_def slab_buf_cap_def)
  qed
  then show ?thesis by (auto simp: srv_acquire_def elim!: spec_conseq)
qed

lemma srv_acquire_reuse:
  assumes ok: "slabs_ok s" and snoc: "slab_idle (srv_slab large s, sv_bufs s) = xs @ [x]"
  shows "spec (srv_acquire large ref s) is_exit (\<lambda>(b, s'). taken_buf large ref s b s')"
proof -
  let ?sl = "srv_slab large s" and ?o = "srv_slab (\<not> large) s"
  note inv = slabs_ok_slab(1) [OF ok, of large]
  obtain r where r: "cells (sv_bufs s) x = Some r" "length (br_buf r) = size_of large"
    using slab_sizes [OF ok, of x large] snoc by auto
  let ?sl' = "?sl\<lparr>sl_len := sl_len ?sl - 1\<rparr>" and ?h = "(sv_bufs s)\<lparr>cells := (cells (sv_bufs s))(x \<mapsto> r\<lparr>br_ref := ref\<rparr>)\<rparr>"
  have acq: "slab_acquire ?sl (sv_bufs s) ref = ret (x, ?sl', ?h)"
    using slab_acquire_reuse [OF inv snoc, of ref] r(1) by auto
  note a = slab_inv_acquired [OF inv snoc r(1) refl refl, of ref]
  have no: "x \<notin> set (slab_idle (?o, sv_bufs s))"
    using slab_sizes [OF ok, of x "\<not> large"] r by (cases large) (auto simp: size_of_def)
  then have old: "cells ?h y = cells (sv_bufs s) y" if "y \<in> set (slab_idle (?o, sv_bufs s))" for y
    using that by auto
  have dx: "x \<notin> set xs" using inv snoc by (simp add: slab_inv_def)
  note o = slabs_ok_other [OF ok a(3) _ old, of large, simplified slab_buf_cap_def, simplified]
  have "idle_bufs ((set_slab large ?sl' s)\<lparr>sv_bufs := ?h\<rparr>) = idle_bufs s - {x}"
    using o(2) a(1) snoc no dx by (cases large) (auto simp: idle_bufs_def srv_slab_def)
  moreover have "x \<in> idle_bufs s" using snoc by (cases large) (auto simp: idle_bufs_def srv_slab_def)
  ultimately show ?thesis
    using o(1) r acq by (simp add: srv_acquire_def taken_buf_def)
qed

lemma srv_acquire_spec:
  assumes ok: "slabs_ok s"
  shows "spec (srv_acquire large ref s) is_exit (\<lambda>(b, s'). taken_buf large ref s b s')"
  using srv_acquire_new [OF ok, of large ref] srv_acquire_reuse [OF ok, of large _ _ ref]
  by (cases "slab_idle (srv_slab large s, sv_bufs s)" rule: rev_cases) auto

lemma srv_release_spec:
  assumes ok: "slabs_ok s" and b: "cells (sv_bufs s) b = Some buf" "br_ref buf = 1" "length (br_buf buf) = size_of large"
    and ni: "b \<notin> idle_bufs s"
  shows "spec (srv_release large b s) is_exit (\<lambda>s'. slabs_ok s' \<and> bufs_only s s' \<and>
    idle_bufs s' = insert b (idle_bufs s) \<and> (\<forall>x. x \<noteq> b \<longrightarrow> cells (sv_bufs s') x = cells (sv_bufs s) x))"
proof -
  let ?sl = "srv_slab large s" and ?o = "srv_slab (\<not> large) s"
  let ?h = "(sv_bufs s)\<lparr>cells := (cells (sv_bufs s))(b \<mapsto> buf\<lparr>br_ref := 0\<rparr>)\<rparr>"
  have inv: "slab_inv (?sl, sv_bufs s)" using ok by (simp add: slabs_ok_def srv_slab_def)
  have "unat (slab_buf_cap ?sl) = size_of large"
    using ok by (simp add: slabs_ok_def srv_slab_def size_of_def BUFFER_SIZE_64B_def BUFFER_SIZE_2KB_def)
  then have kn: "b \<in> slab_known (?sl, sv_bufs s)" using b by (simp add: slab_known_def slab_buf_cap_def)
  have ns: "b \<notin> set (slab_idle (?sl, sv_bufs s))" using ni by (cases large) (auto simp: idle_bufs_def srv_slab_def)
  have "spec (slab_release ?sl (sv_bufs s) b) is_exit (\<lambda>(sl, h).
      slabs_ok ((set_slab large sl s)\<lparr>sv_bufs := h\<rparr>) \<and>
      idle_bufs ((set_slab large sl s)\<lparr>sv_bufs := h\<rparr>) = insert b (idle_bufs s) \<and>
      (\<forall>x. x \<noteq> b \<longrightarrow> cells h x = cells (sv_bufs s) x))"
  proof (rule spec_mono [OF spec_conj [OF slab_release_recycles [OF inv kn ns b(1,2)] slab_release_last [OF inv b(1,2)]]], goal_cases)
    case (2 t)
    obtain sl h where t: "t = (sl, h)" by (cases t)
    with 2 have i: "slab_inv (sl, h)" "slab_idle (sl, h) = slab_idle (?sl, sv_bufs s) @ [b]" "h = ?h"
      "sl_buf_cap sl = sl_buf_cap ?sl" by auto
    have old: "cells h x = cells (sv_bufs s) x" if "x \<in> set (slab_idle (?o, sv_bufs s))" for x
      using that ni i(3) by (cases large) (auto simp: idle_bufs_def srv_slab_def)
    note o = slabs_ok_other [OF ok i(1) _ old, of large]
    show ?case
      using o i t by (cases large) (auto simp: slab_buf_cap_def idle_bufs_def srv_slab_def)
  qed simp
  then show ?thesis by (auto simp: srv_release_def elim!: spec_conseq)
qed

section \<open>Operations\<close>

definition ops_only :: "server \<Rightarrow> server \<Rightarrow> bool" where
  "ops_only s s' \<longleftrightarrow> s'\<lparr>sv_pool := sv_pool s, sv_ops := sv_ops s\<rparr> = s"

lemma ops_only_set [simp]: "ops_only s (s\<lparr>sv_pool := p, sv_ops := h\<rparr>)" "ops_only s (s\<lparr>sv_ops := h\<rparr>)" "ops_only s (s\<lparr>sv_pool := p\<rparr>)"
  by (cases s; simp add: ops_only_def)+

lemma ops_only_fields:
  assumes "ops_only s s'"
  shows "sv_clients s' = sv_clients s" "sv_infos s' = sv_infos s" "sv_slab64 s' = sv_slab64 s" "sv_slab2k s' = sv_slab2k s"
    "sv_bufs s' = sv_bufs s" "sv_server_fd s' = sv_server_fd s" "sv_next_client_id s' = sv_next_client_id s"
    "sv_sq s' = sv_sq s" "sv_flight s' = sv_flight s" "sv_closed s' = sv_closed s" "sv_log s' = sv_log s"
    "slabs_ok s' = slabs_ok s" "idle_bufs s' = idle_bufs s"
  using assms by (cases s; cases s'; simp add: ops_only_def slabs_ok_def idle_bufs_def)+

lemma srv_new_op_spec:
  assumes "srv_mem {} s"
  shows "spec (srv_new_op s) is_exit (\<lambda>(a, s'). srv_mem {a} s' \<and> ops_only s s' \<and> a \<notin> busy s \<and>
    busy s' = insert a (busy s) \<and> (\<forall>x. x \<noteq> a \<longrightarrow> cells (sv_ops s') x = cells (sv_ops s) x))"
proof -
  have clean: "pool_clean (sv_pool s, sv_ops s)" and ok: "slabs_ok s" and holds: "\<forall>a\<in>busy s. op_holds s a"
    and inj: "inj_on (buf_of s) (busy s)" using assms by (simp_all add: srv_mem_def)
  have main: "srv_mem {a} (s\<lparr>sv_pool := p, sv_ops := h\<rparr>) \<and> busy (s\<lparr>sv_pool := p, sv_ops := h\<rparr>) = insert a (busy s)"
    if c: "pool_clean (p, h)" "a \<notin> busy s" "pool_known (p, h) - set (pool_idle (p, h)) = insert a (busy s)"
      "\<forall>x. x \<noteq> a \<longrightarrow> cells h x = cells (sv_ops s) x" for a p h
  proof -
    let ?s = "s\<lparr>sv_pool := p, sv_ops := h\<rparr>"
    have b: "busy ?s = insert a (busy s)" using c(3) by (simp add: busy_def)
    have o: "slabs_ok ?s = slabs_ok s" "idle_bufs ?s = idle_bufs s"
      using ops_only_fields [of s ?s] by simp_all
    have d: "busy ?s - {a} = busy s" using b c(2) by auto
    have ne: "x \<noteq> a" if "x \<in> busy s" for x using that c(2) by blast
    have "op_holds ?s x" if "x \<in> busy s" for x
      using holds that c(4) ne [OF that] o by (simp add: op_holds_def)
    moreover have "inj_on (buf_of ?s) (busy s)"
      using inj c(4) ne by (auto simp: inj_on_def buf_of_def)
    ultimately show ?thesis using c(1) ok o b d by (simp add: srv_mem_def)
  qed
  show ?thesis
    unfolding srv_new_op_def
    using spec_conseq [OF op_pool_take_busy [OF clean], folded busy_def] main
    by (auto simp: busy_def elim!: spec_conseq)
qed

text \<open>An operation may be changed, its id and its buffer apart.\<close>

lemma srv_mem_put_op:
  assumes "srv_mem X s" and "cells (sv_ops s) a = Some op" and "a \<in> busy s"
    and "op_pool_id op' = op_pool_id op" and "a \<notin> X \<Longrightarrow> op_buf_ref op' = op_buf_ref op \<and> op_buf_cap op' = op_buf_cap op"
  shows "spec (put_op a op' s) no_fault (\<lambda>s'. s' = s\<lparr>sv_ops := (sv_ops s)\<lparr>cells := (cells (sv_ops s))(a \<mapsto> op')\<rparr>\<rparr> \<and>
    srv_mem X s' \<and> busy s' = busy s)"
proof -
  let ?h = "(sv_ops s)\<lparr>cells := (cells (sv_ops s))(a \<mapsto> op')\<rparr>" and ?s = "s\<lparr>sv_ops := (sv_ops s)\<lparr>cells := (cells (sv_ops s))(a \<mapsto> op')\<rparr>\<rparr>"
  have ni: "a \<notin> set (pool_idle (sv_pool s, sv_ops s))" using assms(3) by (simp add: busy_def)
  note c = pool_clean_put [OF _ assms(2,4), of "sv_pool s"]
  have clean: "pool_clean (sv_pool s, ?h)" and b: "busy ?s = busy s"
    using assms(1) ni c by (auto simp: srv_mem_def busy_def)
  have o: "slabs_ok ?s = slabs_ok s" "idle_bufs ?s = idle_bufs s"
    using ops_only_fields [of s ?s] by simp_all
  have "op_holds ?s x" if x: "x \<in> busy s - X" for x
  proof -
    have "op_holds s x" using assms(1) x by (simp add: srv_mem_def)
    then show ?thesis
      using assms(2,5) x o by (cases "x = a") (simp_all add: op_holds_def)
  qed
  moreover have "buf_of ?s x = buf_of s x" if "x \<in> busy s - X" for x
    using assms(2,5) that by (auto simp: buf_of_def)
  then have "inj_on (buf_of ?s) (busy s - X)" using assms(1) by (simp add: srv_mem_def inj_on_def)
  ultimately have "srv_mem X ?s" using assms(1) clean o b by (simp add: srv_mem_def)
  then show ?thesis using assms(2) b by (simp add: put_op_def)
qed

text \<open>The contents of a buffer may be changed, its length and its count apart.\<close>

lemma srv_mem_put_buf:
  assumes "srv_mem X s" and "cells (sv_bufs s) b = Some r" and "length bytes = length (br_buf r)"
  shows "spec (put_buf b bytes s) no_fault (\<lambda>s'.
    s' = s\<lparr>sv_bufs := (sv_bufs s)\<lparr>cells := (cells (sv_bufs s))(b \<mapsto> r\<lparr>br_buf := bytes\<rparr>)\<rparr>\<rparr> \<and>
    srv_mem X s' \<and> busy s' = busy s)"
proof -
  let ?s = "s\<lparr>sv_bufs := (sv_bufs s)\<lparr>cells := (cells (sv_bufs s))(b \<mapsto> r\<lparr>br_buf := bytes\<rparr>)\<rparr>\<rparr>"
  have ok: "slabs_ok ?s = slabs_ok s" "idle_bufs ?s = idle_bufs s" "busy ?s = busy s"
    using slab_put [OF assms(2), of "r\<lparr>br_buf := bytes\<rparr>"] assms(3)
    by (simp_all add: slabs_ok_def idle_bufs_def busy_def)
  have "op_holds ?s x" if "op_holds s x" for x
  proof -
    from that obtain ox bx rx where "cells (sv_ops s) x = Some ox" "op_buf_ref ox = Some bx"
      "cells (sv_bufs s) bx = Some rx" "br_ref rx = 1" "bx \<notin> idle_bufs s"
      "\<exists>large. op_buf_cap ox = of_nat (size_of large) \<and> length (br_buf rx) = size_of large"
      by (rule op_holdsE)
    then show ?thesis using assms(2,3) ok(2) by (cases "bx = b") (simp_all add: op_holds_def)
  qed
  moreover have "buf_of ?s = buf_of s" by (simp add: buf_of_def fun_eq_iff)
  ultimately have "srv_mem X ?s" using assms(1) ok by (simp add: srv_mem_def)
  then show ?thesis using assms(2) ok by (simp add: put_buf_def)
qed

text \<open>Giving an operation that has none a buffer of one of the slabs.\<close>

lemma inj_on_new:
  assumes "inj_on f (A - {a})" and "\<And>x. x \<in> A \<Longrightarrow> x \<noteq> a \<Longrightarrow> g x = f x \<and> f x \<noteq> g a"
  shows "inj_on g A"
  using assms unfolding inj_on_def by (metis DiffI singletonD)

lemma srv_mem_attach:
  assumes mem: "srv_mem {a} s" and ba: "a \<in> busy s" and op: "cells (sv_ops s) a = Some op" and tk: "taken_buf large 1 s b s1"
  defines "s' \<equiv> s1\<lparr>sv_ops := (sv_ops s1)\<lparr>cells := (cells (sv_ops s1))(a \<mapsto> op\<lparr>op_buf_ref := Some b, op_buf_cap := of_nat (size_of large)\<rparr>)\<rparr>\<rparr>"
  shows "busy s' = busy s" and "srv_mem {} s'"
  unfolding s'_def
proof -
  have clean: "pool_clean (sv_pool s, sv_ops s)" and holds: "\<forall>x\<in>busy s - {a}. op_holds s x"
    and inj: "inj_on (buf_of s) (busy s - {a})" using mem by (simp_all add: srv_mem_def)
  obtain buf where s1: "slabs_ok s1" "bufs_only s s1" and idle: "b \<in> idle_bufs s \<or> cells (sv_bufs s) b = None" "idle_bufs s1 = idle_bufs s - {b}"
    and buf: "cells (sv_bufs s1) b = Some buf" "br_ref buf = 1" "length (br_buf buf) = size_of large"
    and fr: "\<forall>x. x \<noteq> b \<longrightarrow> cells (sv_bufs s1) x = cells (sv_bufs s) x" using tk by (auto simp: taken_buf_def)
  note f = bufs_only_fields [OF s1(2)]
  let ?op = "op\<lparr>op_buf_ref := Some b, op_buf_cap := of_nat (size_of large)\<rparr>"
  let ?s = "s1\<lparr>sv_ops := (sv_ops s1)\<lparr>cells := (cells (sv_ops s1))(a \<mapsto> ?op)\<rparr>\<rparr>"
  have ni: "a \<notin> set (pool_idle (sv_pool s, sv_ops s))" using ba by (simp add: busy_def)
  show bz: "busy ?s = busy s"
    by (simp add: busy_def pool_known_def pool_idle_def f)
  have cl: "pool_clean (sv_pool ?s, sv_ops ?s)"
    using pool_clean_put(1) [OF clean op, of ?op] ni f by simp
  have o: "slabs_ok ?s = slabs_ok s1" "idle_bufs ?s = idle_bufs s1" using ops_only_fields [of s1 ?s] by simp_all
  have other: "op_holds ?s x \<and> buf_of ?s x = buf_of s x \<and> buf_of s x \<noteq> Some b" if "x \<in> busy s" "x \<noteq> a" for x
  proof -
    have "op_holds s x" using holds that by simp
    then obtain ox bx rx where x: "cells (sv_ops s) x = Some ox" "op_buf_ref ox = Some bx"
      "cells (sv_bufs s) bx = Some rx" "br_ref rx = 1" "bx \<notin> idle_bufs s"
      "\<exists>large. op_buf_cap ox = of_nat (size_of large) \<and> length (br_buf rx) = size_of large"
      by (rule op_holdsE)
    have "bx \<noteq> b" using x(3,5) idle(1) by auto
    then show ?thesis using x that(2) fr o(2) idle(2) f by (auto simp: op_holds_def buf_of_def)
  qed
  have self: "op_holds ?s a" "buf_of ?s a = Some b"
    using buf idle(2) o(2) by (auto simp: op_holds_def buf_of_def intro!: exI [of _ large])
  have "inj_on (buf_of ?s) (busy s)"
    by (rule inj_on_new [OF inj, of "buf_of ?s"]) (use other self(2) in auto)
  moreover have "\<forall>x\<in>busy s. op_holds ?s x" using other self by blast
  ultimately show "srv_mem {} ?s" using cl s1(1) o(1) bz by (simp add: srv_mem_def)
qed

lemma srv_mem_acquired:
  assumes mem: "srv_mem {a} s" and ba: "a \<in> busy s"
  shows "spec (bindC (srv_acquire large 1 s) (\<lambda>(b, s). bindC (get_op s a) (\<lambda>op.
      put_op a (op\<lparr>op_buf_ref := Some b, op_buf_cap := of_nat (size_of large)\<rparr>) s))) is_exit
    (\<lambda>s'. srv_mem {} s' \<and> busy s' = busy s \<and> sv_clients s' = sv_clients s \<and> sv_infos s' = sv_infos s \<and>
      sv_server_fd s' = sv_server_fd s \<and> sv_next_client_id s' = sv_next_client_id s \<and> sv_sq s' = sv_sq s \<and>
      sv_flight s' = sv_flight s \<and> sv_closed s' = sv_closed s \<and> sv_log s' = sv_log s \<and>
      (\<forall>x. x \<noteq> a \<longrightarrow> cells (sv_ops s') x = cells (sv_ops s) x) \<and>
      (\<exists>op b. cells (sv_ops s) a = Some op \<and>
        cells (sv_ops s') a = Some (op\<lparr>op_buf_ref := Some b, op_buf_cap := of_nat (size_of large)\<rparr>) \<and>
        (\<forall>x. x \<noteq> b \<longrightarrow> cells (sv_bufs s') x = cells (sv_bufs s) x) \<and>
        (b \<in> idle_bufs s \<or> cells (sv_bufs s) b = None)))"
proof -
  have ok: "slabs_ok s" using mem by (simp add: srv_mem_def)
  obtain op where op: "cells (sv_ops s) a = Some op" using srv_mem_live [OF mem ba] by blast
  show ?thesis
    unfolding spec_bindC
  proof (rule spec_conseq [OF srv_acquire_spec [OF ok, of large 1]], clarify)
    fix b s1 assume tk: "taken_buf large 1 s b s1"
    then have "bufs_only s s1" and fr: "\<forall>x. x \<noteq> b \<longrightarrow> cells (sv_bufs s1) x = cells (sv_bufs s) x" "b \<in> idle_bufs s \<or> cells (sv_bufs s) b = None"
      by (simp_all add: taken_buf_def)
    note f = bufs_only_fields [OF this(1)]
    show "spec (bindC (get_op s1 a) (\<lambda>op. put_op a (op\<lparr>op_buf_ref := Some b, op_buf_cap := of_nat (size_of large)\<rparr>) s1)) is_exit
      (\<lambda>s'. srv_mem {} s' \<and> busy s' = busy s \<and> sv_clients s' = sv_clients s \<and> sv_infos s' = sv_infos s \<and>
        sv_server_fd s' = sv_server_fd s \<and> sv_next_client_id s' = sv_next_client_id s \<and> sv_sq s' = sv_sq s \<and>
        sv_flight s' = sv_flight s \<and> sv_closed s' = sv_closed s \<and> sv_log s' = sv_log s \<and>
        (\<forall>x. x \<noteq> a \<longrightarrow> cells (sv_ops s') x = cells (sv_ops s) x) \<and>
        (\<exists>op b. cells (sv_ops s) a = Some op \<and>
          cells (sv_ops s') a = Some (op\<lparr>op_buf_ref := Some b, op_buf_cap := of_nat (size_of large)\<rparr>) \<and>
          (\<forall>x. x \<noteq> b \<longrightarrow> cells (sv_bufs s') x = cells (sv_bufs s) x) \<and>
          (b \<in> idle_bufs s \<or> cells (sv_bufs s) b = None)))"
      using op fr f srv_mem_attach [OF mem ba op tk] by (auto simp: get_op_def put_op_def)
  qed
qed


section \<open>Freeing an operation\<close>

text \<open>What the helpers leave alone: the clients, the descriptors, the entries in flight, the log.\<close>

definition mem_only :: "server \<Rightarrow> server \<Rightarrow> bool" where
  "mem_only s s' \<longleftrightarrow> s'\<lparr>sv_slab64 := sv_slab64 s, sv_slab2k := sv_slab2k s, sv_bufs := sv_bufs s,
     sv_pool := sv_pool s, sv_ops := sv_ops s, sv_sq := sv_sq s\<rparr> = s"

lemma mem_only_eq:
  "mem_only s s' \<longleftrightarrow> sv_clients s' = sv_clients s \<and> sv_infos s' = sv_infos s \<and> sv_server_fd s' = sv_server_fd s \<and>
     sv_next_client_id s' = sv_next_client_id s \<and> sv_flight s' = sv_flight s \<and> sv_closed s' = sv_closed s \<and> sv_log s' = sv_log s"
  by (cases s; cases s') (auto simp: mem_only_def)

lemma mem_only_bufs: "bufs_only s s' \<Longrightarrow> mem_only s s'"
  by (simp add: mem_only_eq bufs_only_fields)

lemma mem_only_ops: "ops_only s s' \<Longrightarrow> mem_only s s'"
  by (simp add: mem_only_eq ops_only_fields)

lemma mem_only_trans: "mem_only s s' \<Longrightarrow> mem_only s' s'' \<Longrightarrow> mem_only s s''"
  by (simp add: mem_only_eq)

text \<open>After its buffer is released an operation is one of those that have none.\<close>

lemma srv_mem_released:
  assumes mem: "srv_mem {} s" and a: "a \<in> busy s" "cells (sv_ops s) a = Some op" "op_buf_ref op = Some b"
    and s1: "slabs_ok s1" "bufs_only s s1" "idle_bufs s1 = insert b (idle_bufs s)"
      "\<forall>x. x \<noteq> b \<longrightarrow> cells (sv_bufs s1) x = cells (sv_bufs s) x"
  shows "srv_mem {a} s1"
proof -
  have clean: "pool_clean (sv_pool s, sv_ops s)" and holds: "\<forall>x\<in>busy s. op_holds s x"
    and inj: "inj_on (buf_of s) (busy s)" using mem by (simp_all add: srv_mem_def)
  note f = bufs_only_fields [OF s1(2)]
  have "op_holds s1 x" if x: "x \<in> busy s" "x \<noteq> a" for x
  proof -
    have "op_holds s x" using holds x by blast
    then obtain ox bx rx where *: "cells (sv_ops s) x = Some ox" "op_buf_ref ox = Some bx" "cells (sv_bufs s) bx = Some rx"
      "br_ref rx = 1" "bx \<notin> idle_bufs s" "\<exists>large. op_buf_cap ox = of_nat (size_of large) \<and> length (br_buf rx) = size_of large"
      by (rule op_holdsE)
    have "bx \<noteq> b" using inj_onD [OF inj, of x a] x a * by (auto simp: buf_of_def)
    then show ?thesis using * s1(3,4) f by (simp add: op_holds_def)
  qed
  moreover have "buf_of s1 = buf_of s" by (simp add: buf_of_def f fun_eq_iff)
  then have "inj_on (buf_of s1) (busy s - {a})" using inj by (auto simp: inj_on_def)
  ultimately show ?thesis using clean s1(1) f by (simp add: srv_mem_def)
qed

text \<open>Returning to the pool an operation that has no buffer and no descriptor.\<close>

lemma srv_return_op_spec:
  assumes mem: "srv_mem {a} s" and a: "a \<in> busy s" "op_reset (sv_pool s, sv_ops s) a"
  shows "spec (srv_return_op a s) is_exit (\<lambda>s'. \<exists>p. s' = s\<lparr>sv_pool := p\<rparr> \<and> srv_mem {} s' \<and> busy s' = busy s - {a})"
proof -
  have clean: "pool_clean (sv_pool s, sv_ops s)" and ok: "slabs_ok s" and holds: "\<forall>x\<in>busy s - {a}. op_holds s x"
    and inj: "inj_on (buf_of s) (busy s - {a})" using mem by (simp_all add: srv_mem_def)
  have main: "srv_mem {} (s\<lparr>sv_pool := p\<rparr>) \<and> busy (s\<lparr>sv_pool := p\<rparr>) = busy s - {a}"
    if p: "pool_clean (p, sv_ops s)" "pool_known (p, sv_ops s) - set (pool_idle (p, sv_ops s)) = busy s - {a}" for p
  proof -
    let ?s = "s\<lparr>sv_pool := p\<rparr>"
    have b: "busy ?s = busy s - {a}" using p(2) by (simp add: busy_def)
    have "slabs_ok ?s = slabs_ok s" "idle_bufs ?s = idle_bufs s" "op_holds ?s = op_holds s" "buf_of ?s = buf_of s"
      by (simp_all add: slabs_ok_def idle_bufs_def op_holds_def buf_of_def fun_eq_iff)
    then show ?thesis using p(1) ok holds inj b by (simp add: srv_mem_def)
  qed
  have "a \<in> pool_known (sv_pool s, sv_ops s) - set (pool_idle (sv_pool s, sv_ops s))" using a(1) by (simp add: busy_def)
  note give = op_pool_give [OF clean this a(2), folded busy_def]
  show ?thesis
    unfolding srv_return_op_def spec_bindC
    by (rule spec_conseq [OF give]) (use main in auto)
qed

lemma free_op_mem:
  assumes mem: "srv_mem {} s" and a: "a \<in> busy s"
  shows "spec (free_op a s) is_exit (\<lambda>s'. srv_mem {} s' \<and> busy s' = busy s - {a} \<and> mem_only s s' \<and> sv_sq s' = sv_sq s \<and>
    (\<forall>x. x \<noteq> a \<longrightarrow> cells (sv_ops s') x = cells (sv_ops s) x))"
proof -
  have "op_holds s a" and ok: "slabs_ok s" using mem a by (simp_all add: srv_mem_def)
  then obtain op b buf large where op: "cells (sv_ops s) a = Some op" "op_buf_ref op = Some b" "cells (sv_bufs s) b = Some buf"
    "br_ref buf = 1" "b \<notin> idle_bufs s" "op_buf_cap op = of_nat (size_of large)" "length (br_buf buf) = size_of large"
    by (meson op_holdsE)
  let ?op = "op\<lparr>op_client_fd := - 1, op_buf_ref := None\<rparr>"
  have step: "spec (bindC (put_op a ?op s1) (srv_return_op a)) is_exit (\<lambda>s'. srv_mem {} s' \<and> busy s' = busy s - {a} \<and>
      mem_only s s' \<and> sv_sq s' = sv_sq s \<and> (\<forall>x. x \<noteq> a \<longrightarrow> cells (sv_ops s') x = cells (sv_ops s) x))"
    if s1: "slabs_ok s1" "bufs_only s s1" "idle_bufs s1 = insert b (idle_bufs s)"
      "\<forall>x. x \<noteq> b \<longrightarrow> cells (sv_bufs s1) x = cells (sv_bufs s) x" for s1
  proof -
    note f = bufs_only_fields [OF s1(2)]
    note m1 = srv_mem_released [OF mem a op(1,2) s1]
    let ?s2 = "s1\<lparr>sv_ops := (sv_ops s1)\<lparr>cells := (cells (sv_ops s1))(a \<mapsto> ?op)\<rparr>\<rparr>"
    have "put_op a ?op s1 = ret ?s2" "srv_mem {a} ?s2" "busy ?s2 = busy s1"
      using srv_mem_put_op [OF m1, of a op ?op] op(1) a f by (auto simp: spec_ret_iff)
    moreover have "op_reset (sv_pool ?s2, sv_ops ?s2) a" by (simp add: op_reset_def)
    moreover have "a \<in> busy ?s2" using a f calculation(3) by simp
    ultimately show ?thesis
      using srv_return_op_spec [of a ?s2] a f
      by (auto simp: mem_only_eq elim!: spec_conseq)
  qed
  show ?thesis
    using op step size_of_cap [OF op(6)]
    by (auto simp: free_op_def get_op_def intro!: spec_conseq [OF srv_release_spec [OF ok op(3,4,7,5)]])
qed

end
