(* ===== verification/Server_Ring.thy ===== *)
theory Server_Ring
  imports Server_Mem
begin

text \<open>
  The server and the ring: every operation in use, the one that is being handled apart, has exactly
  one entry that is prepared or in flight, and the entry asks for what the operation records. The
  clients' table stands for a finite map \<open>m\<close>. \<open>srv_ok m as s\<close> states both, with \<open>as\<close> the operations
  that wait, in the order of their entries. The lemmas show what each helper of server.c does to it.
\<close>

section \<open>The invariant\<close>

definition op_at :: "server \<Rightarrow> nat \<Rightarrow> operation" where
  "op_at s a = the (cells (sv_ops s) a)"

definition pend :: "server \<Rightarrow> sqe list" where
  "pend s = sv_flight s @ sv_sq s"

text \<open>
  A receive fills a large buffer to its end, a send sends the rest of the message in a small one, and
  an accept writes the address into the ClientInfo of the operation's client.
\<close>

fun request_ok :: "int \<Rightarrow> (64 word \<rightharpoonup> nat) \<Rightarrow> operation \<Rightarrow> request \<Rightarrow> bool" where
  "request_ok server_fd m op (Accept fd i) \<longleftrightarrow> op_type op = OP_ACCEPT \<and> fd = server_fd \<and>
     op_client_fd op = - 1 \<and> op_buf_cap op = 2048 \<and> m (op_client_id op) = Some i"
| "request_ok server_fd m op (Recv fd b off len) \<longleftrightarrow> op_type op = OP_READ \<and> fd = op_client_fd op \<and>
     op_buf_ref op = Some b \<and> op_buf_cap op = 2048 \<and> off + unat len = 2048"
| "request_ok server_fd m op (Send fd b off len) \<longleftrightarrow> op_type op = OP_WRITE \<and> fd = op_client_fd op \<and>
     op_buf_ref op = Some b \<and> op_buf_cap op = 64 \<and> off = unat (op_processed op) \<and>
     off + unat len = unat (op_buf_len op) \<and> unat (op_buf_len op) \<le> 64"

definition entry_ok :: "server \<Rightarrow> (64 word \<rightharpoonup> nat) \<Rightarrow> nat \<Rightarrow> sqe \<Rightarrow> bool" where
  "entry_ok s m a q \<longleftrightarrow> sqe_data q = op_pool_id (op_at s a) \<and> request_ok (sv_server_fd s) m (op_at s a) (sqe_req q)"

definition srv_ok :: "(64 word \<rightharpoonup> nat) \<Rightarrow> nat list \<Rightarrow> server \<Rightarrow> bool" where
  "srv_ok m as s \<longleftrightarrow> srv_mem {} s \<and> cm_rep (sv_clients s, sv_infos s) m \<and> infos_ok (sv_infos s) \<and>
     distinct as \<and> set as \<subseteq> busy s \<and> list_all2 (entry_ok s m) as (pend s)"

lemma srv_okD:
  assumes "srv_ok m as s"
  shows "srv_mem {} s" "cm_rep (sv_clients s, sv_infos s) m" "infos_ok (sv_infos s)" "distinct as" "set as \<subseteq> busy s"
    "list_all2 (entry_ok s m) as (pend s)"
  using assms by (simp_all add: srv_ok_def)

lemma busy_op:
  assumes "srv_ok m as s" and "a \<in> busy s"
  shows "cells (sv_ops s) a = Some (op_at s a)"
  using srv_mem_live [OF srv_okD(1) [OF assms(1)] assms(2)] by (auto simp: op_at_def)

text \<open>Steps that change only memory, and no operation that waits.\<close>

lemma srv_ok_frame:
  assumes ok: "srv_ok m as s" and mem: "srv_mem {} s'" "mem_only s s'" and sq: "sv_sq s' = sv_sq s"
    and as: "set as \<subseteq> busy s'" "\<And>x. x \<in> set as \<Longrightarrow> cells (sv_ops s') x = cells (sv_ops s) x"
  shows "srv_ok m as s'"
proof -
  have "entry_ok s' m x q = entry_ok s m x q" if "x \<in> set as" for x q
    using as(2) [OF that] mem(2) by (simp add: entry_ok_def op_at_def mem_only_eq)
  moreover have "pend s' = pend s" using mem(2) sq by (simp add: pend_def mem_only_eq)
  ultimately have "list_all2 (entry_ok s' m) as (pend s')"
    using srv_okD(6) [OF ok] by (metis list.rel_mono_strong)
  then show ?thesis using ok mem as by (simp add: srv_ok_def mem_only_eq)
qed

text \<open>Preparing the entry of an operation that does not wait.\<close>

lemma srv_ok_push:
  assumes ok: "srv_ok m as s" and a: "a \<in> busy s" "a \<notin> set as"
    and rq: "request_ok (sv_server_fd s) m (op_at s a) rq"
  shows "srv_ok m (as @ [a]) (push_sqe (op_pool_id (op_at s a)) rq s)"
proof -
  let ?s = "push_sqe (op_pool_id (op_at s a)) rq s"
  have same: "srv_mem {} ?s = srv_mem {} s" "busy ?s = busy s" "op_at ?s = op_at s"
    using srv_mem_fields [of ?s s] by (simp_all add: push_sqe_def op_at_def fun_eq_iff)
  have "entry_ok ?s m = entry_ok s m" by (simp add: entry_ok_def same fun_eq_iff) (simp add: push_sqe_def)
  then have "list_all2 (entry_ok ?s m) (as @ [a]) (pend ?s)"
    using srv_okD(6) [OF ok] rq by (simp add: pend_def push_sqe_def list_all2_appendI entry_ok_def flip: append_assoc)
  then show ?thesis
    using ok a by (simp add: srv_ok_def same) (simp add: push_sqe_def)
qed

text \<open>Changing an operation that does not wait, its id and its buffer apart.\<close>

lemma srv_ok_put_op:
  assumes ok: "srv_ok m as s" and a: "a \<in> busy s" "a \<notin> set as"
    and op: "op_pool_id op = op_pool_id (op_at s a)" "op_buf_ref op = op_buf_ref (op_at s a)" "op_buf_cap op = op_buf_cap (op_at s a)"
  defines "s' \<equiv> s\<lparr>sv_ops := (sv_ops s)\<lparr>cells := (cells (sv_ops s))(a \<mapsto> op)\<rparr>\<rparr>"
  shows "put_op a op s = ret s'" and "srv_ok m as s'" and "busy s' = busy s"
    and "op_at s' = (op_at s)(a := op)" and "mem_only s s'" and "sv_sq s' = sv_sq s" and "sv_bufs s' = sv_bufs s"
    and "idle_bufs s' = idle_bufs s"
proof -
  have *: "put_op a op s = ret s'" "srv_mem {} s'" "busy s' = busy s"
    using srv_mem_put_op [OF srv_okD(1) [OF ok] busy_op [OF ok a(1)] a(1) op(1)] op(2,3)
    by (auto simp: spec_ret_iff s'_def)
  then show "put_op a op s = ret s'" "busy s' = busy s" by simp_all
  show f: "mem_only s s'" "sv_sq s' = sv_sq s" "sv_bufs s' = sv_bufs s" by (simp_all add: s'_def mem_only_eq)
  show "op_at s' = (op_at s)(a := op)" by (auto simp: s'_def op_at_def)
  show "srv_ok m as s'"
    by (rule srv_ok_frame [OF ok *(2) f(1,2)]) (use a srv_okD(5) [OF ok] *(3) in \<open>auto simp: s'_def\<close>)
  show "idle_bufs s' = idle_bufs s" by (simp add: s'_def idle_bufs_def)
qed

text \<open>Changing the bytes of a buffer.\<close>

lemma srv_ok_put_buf:
  assumes ok: "srv_ok m as s" and b: "cells (sv_bufs s) b = Some r" "length bytes = length (br_buf r)"
  defines "s' \<equiv> s\<lparr>sv_bufs := (sv_bufs s)\<lparr>cells := (cells (sv_bufs s))(b \<mapsto> r\<lparr>br_buf := bytes\<rparr>)\<rparr>\<rparr>"
  shows "put_buf b bytes s = ret s'" and "srv_ok m as s'" and "busy s' = busy s" and "op_at s' = op_at s"
    and "mem_only s s'" and "sv_sq s' = sv_sq s" and "idle_bufs s' = idle_bufs s"
proof -
  have *: "put_buf b bytes s = ret s'" "srv_mem {} s'" "busy s' = busy s"
    using srv_mem_put_buf [OF srv_okD(1) [OF ok] b] by (auto simp: spec_ret_iff s'_def)
  then show "put_buf b bytes s = ret s'" "busy s' = busy s" by simp_all
  show f: "mem_only s s'" "sv_sq s' = sv_sq s" by (simp_all add: s'_def mem_only_eq)
  show "op_at s' = op_at s" by (auto simp: s'_def op_at_def)
  show "srv_ok m as s'"
    by (rule srv_ok_frame [OF ok *(2) f(1,2)]) (use srv_okD(5) [OF ok] *(3) in \<open>auto simp: s'_def\<close>)
  show "idle_bufs s' = idle_bufs s" by (simp add: s'_def idle_bufs_def slab_idle_def)
qed

text \<open>Changing the table of clients, but not the client of an accept that waits.\<close>

lemma srv_ok_clients:
  assumes ok: "srv_ok m as s" and rep: "cm_rep (cm, h) m'" "infos_ok h"
    and acc: "\<And>x. x \<in> set as \<Longrightarrow> op_type (op_at s x) = OP_ACCEPT \<Longrightarrow> m (op_client_id (op_at s x)) \<noteq> None \<Longrightarrow>
      m' (op_client_id (op_at s x)) = m (op_client_id (op_at s x))"
  defines "s' \<equiv> s\<lparr>sv_clients := cm, sv_infos := h\<rparr>"
  shows "srv_ok m' as s'" and "busy s' = busy s" and "op_at s' = op_at s"
proof -
  have same: "srv_mem {} s' = srv_mem {} s" "busy s' = busy s" "op_at s' = op_at s" "pend s' = pend s"
    using srv_mem_fields [of s' s] by (simp_all add: s'_def op_at_def pend_def fun_eq_iff)
  then show "busy s' = busy s" "op_at s' = op_at s" by simp_all
  have "entry_ok s' m' x q" if "x \<in> set as" "entry_ok s m x q" for x q
    using that acc [OF that(1)] same(3)
    by (cases "(sv_server_fd s, m, op_at s x, sqe_req q)" rule: request_ok.cases) (auto simp: entry_ok_def s'_def)
  then have "list_all2 (entry_ok s' m') as (pend s')"
    using srv_okD(6) [OF ok] same(4) by (metis list.rel_mono_strong)
  then show "srv_ok m' as s'" using ok rep same by (simp add: srv_ok_def) (simp add: s'_def)
qed

lemma put_info_ok:
  assumes ok: "srv_ok m as s" and c: "cells (sv_infos s) i = Some c" "ci_next c' = ci_next c" "ci_client_id c' = ci_client_id c"
    and sized: "info_sized c'"
  defines "s' \<equiv> s\<lparr>sv_infos := (sv_infos s)\<lparr>cells := (cells (sv_infos s))(i \<mapsto> c')\<rparr>\<rparr>"
  shows "put_info i c' s = ret s'" and "srv_ok m as s'" and "busy s' = busy s" and "op_at s' = op_at s"
proof -
  let ?h = "(sv_infos s)\<lparr>cells := (cells (sv_infos s))(i \<mapsto> c')\<rparr>"
  have s': "s' = s\<lparr>sv_clients := sv_clients s, sv_infos := ?h\<rparr>" by (simp add: s'_def)
  show "put_info i c' s = ret s'" using c(1) by (simp add: put_info_def hput_def s'_def)
  show "srv_ok m as s'" "busy s' = busy s" "op_at s' = op_at s"
    unfolding s'
    using srv_ok_clients [OF ok cm_rep_put [OF srv_okD(2) [OF ok] c] infos_ok_put [OF srv_okD(3) [OF ok] sized]] by blast+
qed

lemma busy_buf:
  assumes "srv_ok m as s" and "a \<in> busy s"
  obtains b buf where "op_buf_ref (op_at s a) = Some b" "cells (sv_bufs s) b = Some buf" "b \<notin> idle_bufs s"
    "length (br_buf buf) = unat (op_buf_cap (op_at s a))"
proof -
  have "op_holds s a" using srv_okD(1) [OF assms(1)] assms(2) by (simp add: srv_mem_def)
  then obtain op b buf large where "cells (sv_ops s) a = Some op" "op_buf_ref op = Some b" "cells (sv_bufs s) b = Some buf"
    "b \<notin> idle_bufs s" "op_buf_cap op = of_nat (size_of large)" "length (br_buf buf) = size_of large"
    by (meson op_holdsE)
  moreover have "unat (of_nat (size_of large) :: 64 word) = size_of large" by (simp add: size_of_def)
  ultimately show thesis using busy_op [OF assms] by (intro that) auto
qed

lemma spec_get_sqe [simp]:
  "spec (get_sqe env s) F P \<longleftrightarrow> (if env_sqe env (length (sv_sq s)) then P () else F (Exit_failure ''SQ is full''))"
  by (simp add: get_sqe_def)

section \<open>Taking and freeing operations\<close>

lemma free_op_ok:
  assumes "srv_ok m as s" and "a \<in> busy s" and "a \<notin> set as"
  shows "spec (free_op a s) is_exit (\<lambda>s'. srv_ok m as s' \<and> busy s' = busy s - {a} \<and> mem_only s s' \<and> sv_sq s' = sv_sq s \<and>
    (\<forall>x. x \<noteq> a \<longrightarrow> op_at s' x = op_at s x))"
proof (rule spec_conseq [OF free_op_mem [OF srv_okD(1) [OF assms(1)] assms(2)]], elim conjE, intro conjI)
  fix s' assume s': "srv_mem {} s'" "busy s' = busy s - {a}" "mem_only s s'" "sv_sq s' = sv_sq s"
    "\<forall>x. x \<noteq> a \<longrightarrow> cells (sv_ops s') x = cells (sv_ops s) x"
  show "srv_ok m as s'"
    by (rule srv_ok_frame [OF assms(1) s'(1,3,4)]) (use assms s' srv_okD(5) [OF assms(1)] in auto)
  show "\<forall>x. x \<noteq> a \<longrightarrow> op_at s' x = op_at s x" using s'(5) by (simp add: op_at_def)
qed

text \<open>The buffers of the operations in use keep their contents.\<close>

definition bufs_kept :: "server \<Rightarrow> server \<Rightarrow> bool" where
  "bufs_kept s s' \<longleftrightarrow> (\<forall>x\<in>busy s. \<forall>b. op_buf_ref (op_at s x) = Some b \<longrightarrow> cells (sv_bufs s') b = cells (sv_bufs s) b)"

definition acquire_buf :: "bool \<Rightarrow> nat \<Rightarrow> server \<Rightarrow> server comp" where
  "acquire_buf large a s = (if large then acquire_large_buf a 1 s else acquire_small_buf a 1 s)"

lemma acquire_buf_eq:
  assumes "slabs_ok s"
  shows "acquire_buf large a s = bindC (srv_acquire large 1 s) (\<lambda>(b, s). bindC (get_op s a) (\<lambda>op.
      put_op a (op\<lparr>op_buf_ref := Some b, op_buf_cap := of_nat (size_of large)\<rparr>) s))"
proof -
  have "post (srv_acquire large 1 s) (\<lambda>(b, s'). slab_buf_cap (srv_slab large s') = of_nat (size_of large))"
    by (rule spec_imp_post) (rule spec_conseq [OF srv_acquire_spec [OF assms]],
      auto simp: taken_buf_def slabs_ok_def size_of_def BUFFER_SIZE_64B_def BUFFER_SIZE_2KB_def srv_slab_def)
  then show ?thesis
    by (cases large) (auto simp: acquire_buf_def acquire_small_buf_def acquire_large_buf_def srv_slab_def
        intro!: bindC_cong_post intro: post_always elim!: post_conseq)
qed

text \<open>A new operation with a buffer of its own.\<close>

definition op_added :: "nat \<Rightarrow> server \<Rightarrow> server \<Rightarrow> bool" where
  "op_added a s s' \<longleftrightarrow> a \<notin> busy s \<and> busy s' = insert a (busy s) \<and> mem_only s s' \<and>
     (\<forall>x\<in>busy s. op_at s' x = op_at s x) \<and> bufs_kept s s'"

lemma op_added_buf:
  assumes ok: "srv_ok m as s"
  shows "spec (srv_new_op s) is_exit (\<lambda>(a, s1). spec (acquire_buf large a s1) is_exit (\<lambda>s'.
      srv_ok m as s' \<and> op_added a s s' \<and> sv_sq s' = sv_sq s \<and> op_buf_cap (op_at s' a) = of_nat (size_of large) \<and>
      (\<forall>x\<in>busy s. op_buf_ref (op_at s x) \<noteq> op_buf_ref (op_at s' a))))"
proof (rule spec_conseq [OF srv_new_op_spec [OF srv_okD(1) [OF ok]]], clarify)
  fix a s1
  assume s1: "srv_mem {a} s1" "ops_only s s1" "a \<notin> busy s" "busy s1 = insert a (busy s)"
    "\<forall>x. x \<noteq> a \<longrightarrow> cells (sv_ops s1) x = cells (sv_ops s) x"
  have sl: "slabs_ok s1" using s1(1) by (simp add: srv_mem_def)
  have a: "a \<in> busy s1" using s1(4) by simp
  note f = ops_only_fields [OF s1(2)]
  show "spec (acquire_buf large a s1) is_exit (\<lambda>s'.
      srv_ok m as s' \<and> op_added a s s' \<and> sv_sq s' = sv_sq s \<and> op_buf_cap (op_at s' a) = of_nat (size_of large) \<and>
      (\<forall>x\<in>busy s. op_buf_ref (op_at s x) \<noteq> op_buf_ref (op_at s' a)))"
    unfolding acquire_buf_eq [OF sl]
  proof (rule spec_conseq [OF srv_mem_acquired [OF s1(1) a]], elim conjE exE)
    fix s' op b
    assume s': "srv_mem {} s'" "busy s' = busy s1" "sv_clients s' = sv_clients s1" "sv_infos s' = sv_infos s1"
      "sv_server_fd s' = sv_server_fd s1" "sv_next_client_id s' = sv_next_client_id s1" "sv_sq s' = sv_sq s1"
      "sv_flight s' = sv_flight s1" "sv_closed s' = sv_closed s1" "sv_log s' = sv_log s1"
      and o: "\<forall>x. x \<noteq> a \<longrightarrow> cells (sv_ops s') x = cells (sv_ops s1) x"
      "cells (sv_ops s') a = Some (op\<lparr>op_buf_ref := Some b, op_buf_cap := of_nat (size_of large)\<rparr>)"
      and b: "\<forall>x. x \<noteq> b \<longrightarrow> cells (sv_bufs s') x = cells (sv_bufs s1) x" "b \<in> idle_bufs s1 \<or> cells (sv_bufs s1) b = None"
    have mo: "mem_only s s'" using s' f by (simp add: mem_only_eq)
    have at: "cells (sv_ops s') x = cells (sv_ops s) x" if "x \<in> busy s" for x using that s1(3,5) o(1) by metis
    have new: "op_buf_ref (op_at s x) \<noteq> Some b" if x: "x \<in> busy s" for x
    proof -
      obtain b' buf where "op_buf_ref (op_at s x) = Some b'" "cells (sv_bufs s) b' = Some buf" "b' \<notin> idle_bufs s"
        by (rule busy_buf [OF ok x])
      then show ?thesis using b(2) unfolding f(5,13) by auto
    qed
    have "srv_ok m as s'"
      by (rule srv_ok_frame [OF ok s'(1) mo]) (use s' f s1 srv_okD(5) [OF ok] at in auto)
    moreover have "bufs_kept s s'" using new b(1) f(5) by (force simp: bufs_kept_def)
    moreover have "op_at s' x = op_at s x" if "x \<in> busy s" for x using at [OF that] by (simp add: op_at_def)
    ultimately show "srv_ok m as s' \<and> op_added a s s' \<and> sv_sq s' = sv_sq s \<and>
        op_buf_cap (op_at s' a) = of_nat (size_of large) \<and> (\<forall>x\<in>busy s. op_buf_ref (op_at s x) \<noteq> op_buf_ref (op_at s' a))"
      using mo s' s1 f o(2) new by (auto simp: op_added_def op_at_def)
  qed
qed

section \<open>Preparing entries\<close>

text \<open>The operation \<open>a\<close> is set to \<open>op\<close> and its entry with the request \<open>rq\<close> is prepared.\<close>

definition armed :: "nat \<Rightarrow> operation \<Rightarrow> request \<Rightarrow> server \<Rightarrow> server \<Rightarrow> bool" where
  "armed a op rq s s' \<longleftrightarrow> busy s' = busy s \<and> mem_only s s' \<and> sv_bufs s' = sv_bufs s \<and> op_at s' = (op_at s)(a := op) \<and>
     sv_sq s' = sv_sq s @ [\<lparr>sqe_data = op_pool_id op, sqe_req = rq\<rparr>]"

lemma push_sqe_fields:
  "busy (push_sqe i rq s) = busy s" "op_at (push_sqe i rq s) = op_at s" "sv_bufs (push_sqe i rq s) = sv_bufs s"
  "mem_only s (push_sqe i rq s)" "sv_sq (push_sqe i rq s) = sv_sq s @ [\<lparr>sqe_data = i, sqe_req = rq\<rparr>]"
  by (simp_all add: push_sqe_def busy_def op_at_def mem_only_eq fun_eq_iff)

lemma push_armed:
  assumes "srv_ok m as s" and "a \<in> busy s" "a \<notin> set as" and "request_ok (sv_server_fd s) m (op_at s a) rq"
  shows "srv_ok m (as @ [a]) (push_sqe (op_pool_id (op_at s a)) rq s)"
    and "armed a (op_at s a) rq s (push_sqe (op_pool_id (op_at s a)) rq s)"
  using srv_ok_push [OF assms] by (simp_all add: armed_def push_sqe_fields)

lemma put_armed:
  assumes ok: "srv_ok m as s" and a: "a \<in> busy s" "a \<notin> set as"
    and op: "op_pool_id op = op_pool_id (op_at s a)" "op_buf_ref op = op_buf_ref (op_at s a)" "op_buf_cap op = op_buf_cap (op_at s a)"
    and rq: "request_ok (sv_server_fd s) m op rq"
  shows "spec (bindC (put_op a op s) (\<lambda>s'. ret (push_sqe (op_pool_id op) rq s'))) is_exit
    (\<lambda>s'. srv_ok m (as @ [a]) s' \<and> armed a op rq s s')"
proof -
  let ?s = "s\<lparr>sv_ops := (sv_ops s)\<lparr>cells := (cells (sv_ops s))(a \<mapsto> op)\<rparr>\<rparr>"
  note p = srv_ok_put_op [OF ok a op]
  have at: "op_at ?s a = op" using p(4) by simp
  have a1: "a \<in> busy ?s" using a p(3) by simp
  have rq1: "request_ok (sv_server_fd ?s) m (op_at ?s a) rq" using rq at by simp
  have "srv_ok m (as @ [a]) (push_sqe (op_pool_id op) rq ?s)"
    using push_armed(1) [OF p(2) a1 a(2) rq1] at by simp
  moreover have "armed a op rq s (push_sqe (op_pool_id op) rq ?s)"
    using mem_only_trans [OF p(5) push_sqe_fields(4)] p(3,4,6,7) by (simp add: armed_def push_sqe_fields)
  ultimately show ?thesis using p(1) by simp
qed

text \<open>An entry is prepared by a function that first asks for a free one.\<close>

lemma add_send_ok:
  assumes ok: "srv_ok m as s" and a: "a \<in> busy s" "a \<notin> set as"
    and op: "op_buf_cap (op_at s a) = 64" "unat (op_buf_len (op_at s a)) \<le> 64"
  shows "spec (add_send env a fd cid s) is_exit (\<lambda>s'. env_sqe env (length (sv_sq s)) \<and> srv_ok m (as @ [a]) s' \<and>
    (\<exists>b. op_buf_ref (op_at s a) = Some b \<and>
      armed a ((op_at s a)\<lparr>op_client_id := cid, op_processed := 0, op_client_fd := fd, op_type := OP_WRITE\<rparr>)
        (Send fd b 0 (op_buf_len (op_at s a))) s s'))"
proof -
  let ?op = "(op_at s a)\<lparr>op_client_id := cid, op_processed := 0, op_client_fd := fd, op_type := OP_WRITE\<rparr>"
  obtain b where b: "op_buf_ref (op_at s a) = Some b" using busy_buf [OF ok a(1)] by metis
  have "request_ok (sv_server_fd s) m ?op (Send fd b 0 (op_buf_len (op_at s a)))" using op b by simp
  from put_armed [OF ok a _ _ _ this] show ?thesis
    using busy_op [OF ok a(1)] b by (auto simp: add_send_def get_op_def elim!: spec_conseq)
qed

lemma add_recv_ok:
  assumes ok: "srv_ok m as s" and a: "a \<in> busy s" "a \<notin> set as" and op: "op_buf_cap (op_at s a) = 2048"
  shows "spec (add_recv env a fd s) is_exit (\<lambda>s'. env_sqe env (length (sv_sq s)) \<and> srv_ok m (as @ [a]) s' \<and>
    (\<exists>b. op_buf_ref (op_at s a) = Some b \<and>
      armed a ((op_at s a)\<lparr>op_client_fd := fd, op_type := OP_READ\<rparr>) (Recv fd b 0 2048) s s'))"
proof -
  let ?op = "(op_at s a)\<lparr>op_client_fd := fd, op_type := OP_READ\<rparr>"
  obtain b where b: "op_buf_ref (op_at s a) = Some b" using busy_buf [OF ok a(1)] by metis
  have "request_ok (sv_server_fd s) m ?op (Recv fd b 0 2048)" using op b by simp
  from put_armed [OF ok a _ _ _ this] show ?thesis
    using busy_op [OF ok a(1)] b op by (auto simp: add_recv_def get_op_def elim!: spec_conseq)
qed

lemma resume_recv_ok:
  assumes ok: "srv_ok m as s" and a: "a \<in> busy s" "a \<notin> set as"
    and op: "op_buf_cap (op_at s a) = 2048" "op_type (op_at s a) = OP_READ" and n: "unat n \<le> 2048"
  shows "spec (resume_recv env a n s) is_exit (\<lambda>s'. env_sqe env (length (sv_sq s)) \<and> srv_ok m (as @ [a]) s' \<and>
    (\<exists>b. op_buf_ref (op_at s a) = Some b \<and>
      armed a (op_at s a) (Recv (op_client_fd (op_at s a)) b (unat n) (2048 - n)) s s'))"
proof -
  obtain b where b: "op_buf_ref (op_at s a) = Some b" using busy_buf [OF ok a(1)] by metis
  have "n \<le> 2048" using n by (simp add: word_le_nat_alt)
  then have "unat (2048 - n) = 2048 - unat n" by (simp add: unat_sub)
  then have "request_ok (sv_server_fd s) m (op_at s a) (Recv (op_client_fd (op_at s a)) b (unat n) (2048 - n))"
    using op b n by simp
  from push_armed [OF ok a this] show ?thesis
    using busy_op [OF ok a(1)] b op by (simp add: resume_recv_def get_op_def Let_def)
qed

lemma resume_send_ok:
  assumes ok: "srv_ok m as s" and a: "a \<in> busy s" "a \<notin> set as"
    and op: "op_buf_cap (op_at s a) = 64" "op_type (op_at s a) = OP_WRITE" "unat (op_buf_len (op_at s a)) \<le> 64"
    and n: "unat (op_processed (op_at s a)) + unat n \<le> unat (op_buf_len (op_at s a))"
  shows "spec (resume_send env a n s) is_exit (\<lambda>s'. env_sqe env (length (sv_sq s)) \<and> srv_ok m (as @ [a]) s' \<and>
    (\<exists>b len. op_buf_ref (op_at s a) = Some b \<and>
      unat len = unat (op_buf_len (op_at s a)) - unat (op_processed (op_at s a)) - unat n \<and>
      armed a ((op_at s a)\<lparr>op_processed := op_processed (op_at s a) + n\<rparr>)
        (Send (op_client_fd (op_at s a)) b (unat (op_processed (op_at s a)) + unat n) len) s s'))"
proof -
  let ?op = "(op_at s a)\<lparr>op_processed := op_processed (op_at s a) + n\<rparr>"
  obtain b where b: "op_buf_ref (op_at s a) = Some b" using busy_buf [OF ok a(1)] by metis
  have p: "unat (op_processed (op_at s a) + n) = unat (op_processed (op_at s a)) + unat n"
    using n unat_lt_64 [of "op_buf_len (op_at s a)"] by (simp add: unat_word_ariths)
  then have "op_processed ?op \<le> op_buf_len ?op" using n by (simp add: word_le_nat_alt)
  then have l: "unat (op_buf_len ?op - op_processed ?op) = unat (op_buf_len (op_at s a)) - (unat (op_processed (op_at s a)) + unat n)"
    by (simp add: unat_sub p)
  then have "request_ok (sv_server_fd s) m ?op (Send (op_client_fd ?op) b (unat (op_processed ?op)) (op_buf_len ?op - op_processed ?op))"
    using op b n p by simp
  from put_armed [OF ok a _ _ _ this] show ?thesis
    using busy_op [OF ok a(1)] b l p
    by (auto simp: resume_send_def get_op_def Let_def elim!: spec_conseq)
qed

section \<open>Sending a message\<close>

text \<open>
  A new operation \<open>a\<close> of the client \<open>cid\<close> waits for the send of \<open>msg\<close> from the start of its buffer,
  and nothing that was in use before is touched.
\<close>

definition sent :: "nat \<Rightarrow> int \<Rightarrow> 64 word \<Rightarrow> 8 word list \<Rightarrow> server \<Rightarrow> server \<Rightarrow> bool" where
  "sent a fd cid msg s s' \<longleftrightarrow> op_added a s s' \<and> op_type (op_at s' a) = OP_WRITE \<and> op_client_id (op_at s' a) = cid \<and>
     (\<exists>b buf. cells (sv_bufs s') b = Some buf \<and> take (length msg) (br_buf buf) = msg \<and>
       sv_sq s' = sv_sq s @ [\<lparr>sqe_data = op_pool_id (op_at s' a), sqe_req = Send fd b 0 (of_nat (length msg))\<rparr>])"

lemma op_added_trans:
  assumes "op_added a s s1" and "busy s' = busy s1" and "mem_only s1 s'" and "\<And>x. x \<noteq> a \<Longrightarrow> op_at s' x = op_at s1 x"
    and "\<And>x b. x \<in> busy s \<Longrightarrow> op_buf_ref (op_at s x) = Some b \<Longrightarrow> cells (sv_bufs s') b = cells (sv_bufs s1) b"
  shows "op_added a s s'"
  using assms mem_only_trans [of s s1 s'] unfolding op_added_def bufs_kept_def by metis

text \<open>The senders after the operation has its buffer.\<close>

definition write_and_send ::
  "(64 word \<Rightarrow> 8 word list \<Rightarrow> (64 word \<times> 8 word list) comp) \<Rightarrow> env \<Rightarrow> int \<Rightarrow> 64 word \<Rightarrow> nat \<Rightarrow> server \<Rightarrow> server comp" where
  "write_and_send ser env fd cid a s = bindC (get_op s a) (\<lambda>op. bindC (ptr (op_buf_ref op)) (\<lambda>b. bindC (get_buf s b) (\<lambda>buf.
     bindC (ser (op_buf_cap op) (br_buf buf)) (\<lambda>(len, bytes). bindC (put_buf b bytes s) (\<lambda>s.
     bindC (put_op a (op\<lparr>op_buf_len := len\<rparr>) s) (\<lambda>s. add_send env a fd cid s))))))"

lemma write_and_send_ok:
  assumes ok: "srv_ok m as s" and ser: "\<And>buf. length buf = 64 \<Longrightarrow> ser 64 buf = ret (of_nat (length msg), msg @ drop (length msg) buf)"
    and len: "length msg \<le> 64"
    and s1: "srv_ok m as s1" "op_added a s s1" "sv_sq s1 = sv_sq s" "op_buf_cap (op_at s1 a) = 64"
      "\<forall>x\<in>busy s. op_buf_ref (op_at s x) \<noteq> op_buf_ref (op_at s1 a)"
  shows "spec (write_and_send ser env fd cid a s1) is_exit
    (\<lambda>s'. env_sqe env (length (sv_sq s)) \<and> (\<exists>a. srv_ok m (as @ [a]) s' \<and> sent a fd cid msg s s'))"
proof -
  have a: "a \<in> busy s1" "a \<notin> set as" using s1(2) srv_okD(5) [OF ok] by (auto simp: op_added_def)
  obtain b buf where b: "op_buf_ref (op_at s1 a) = Some b" "cells (sv_bufs s1) b = Some buf" "length (br_buf buf) = 64"
    by (rule busy_buf [OF s1(1) a(1)]) (use s1(4) in simp)
  let ?msg = "msg @ drop (length msg) (br_buf buf)" and ?len = "of_nat (length msg) :: 64 word"
  define s2 where "s2 = s1\<lparr>sv_bufs := (sv_bufs s1)\<lparr>cells := (cells (sv_bufs s1))(b \<mapsto> buf\<lparr>br_buf := ?msg\<rparr>)\<rparr>\<rparr>"
  have "length ?msg = length (br_buf buf)" using len b(3) by simp
  note p = srv_ok_put_buf [OF s1(1) b(2) this, folded s2_def]
  let ?op = "(op_at s1 a)\<lparr>op_buf_len := ?len\<rparr>"
  define s3 where "s3 = s2\<lparr>sv_ops := (sv_ops s2)\<lparr>cells := (cells (sv_ops s2))(a \<mapsto> ?op)\<rparr>\<rparr>"
  have a2: "a \<in> busy s2" using a(1) p(3) by simp
  have o: "put_op a ?op s2 = ret s3" "srv_ok m as s3" "busy s3 = busy s2" "op_at s3 = (op_at s2)(a := ?op)"
    "mem_only s2 s3" "sv_sq s3 = sv_sq s2" "sv_bufs s3 = sv_bufs s2"
    using srv_ok_put_op [OF p(2) a2 a(2), of ?op] p(4) unfolding s3_def by simp_all
  have l: "unat ?len = length msg" using len by (intro unat_of_nat_64) simp
  have add3: "op_added a s s3"
    by (rule op_added_trans [OF s1(2)])
      (use o p mem_only_trans [OF p(5) o(5)] s1(5) b(1) in \<open>auto simp: s2_def\<close>)
  have fin: "sent a fd cid msg s s'"
    if "armed a ((op_at s3 a)\<lparr>op_client_id := cid, op_processed := 0, op_client_fd := fd, op_type := OP_WRITE\<rparr>)
      (Send fd b 0 ?len) s3 s'" for s'
  proof -
    have "op_added a s s'" by (rule op_added_trans [OF add3]) (use that in \<open>auto simp: armed_def\<close>)
    moreover have "cells (sv_bufs s') b = Some (buf\<lparr>br_buf := ?msg\<rparr>)" using that o(7) by (simp add: armed_def s2_def)
    ultimately show ?thesis using that o p s1(3) by (auto simp: sent_def armed_def)
  qed
  have "op_buf_ref (op_at s3 a) = Some b" "a \<in> busy s3" "op_buf_cap (op_at s3 a) = 64" "op_buf_len (op_at s3 a) = ?len"
    "sv_sq s3 = sv_sq s" using b(1) a2 o s1(3,4) p(6) by simp_all
  with add_send_ok [OF o(2), of a env fd cid] a(2) l len fin
  have "spec (add_send env a fd cid s3) is_exit
      (\<lambda>s'. env_sqe env (length (sv_sq s)) \<and> (\<exists>a. srv_ok m (as @ [a]) s' \<and> sent a fd cid msg s s'))"
    by (auto elim!: spec_conseq)
  then show ?thesis
    using busy_op [OF s1(1) a(1)] b ser [OF b(3)] s1(4) p(1) o(1) by (simp add: write_and_send_def get_op_def get_buf_def)
qed

lemma send_with_ok:
  assumes ok: "srv_ok m as s" and ser: "\<And>buf. length buf = 64 \<Longrightarrow> ser 64 buf = ret (of_nat (length msg), msg @ drop (length msg) buf)"
    and len: "length msg \<le> 64"
  shows "spec (send_with ser env fd cid s) is_exit (\<lambda>s'. env_sqe env (length (sv_sq s)) \<and>
    (\<exists>a. srv_ok m (as @ [a]) s' \<and> sent a fd cid msg s s'))"
  unfolding send_with_def
proof (rule spec_bindI [OF op_added_buf [OF ok, of False]], clarify)
  fix a s0
  assume "spec (acquire_buf False a s0) is_exit (\<lambda>s1. srv_ok m as s1 \<and> op_added a s s1 \<and> sv_sq s1 = sv_sq s \<and>
    op_buf_cap (op_at s1 a) = of_nat (size_of False) \<and> (\<forall>x\<in>busy s. op_buf_ref (op_at s x) \<noteq> op_buf_ref (op_at s1 a)))"
  then have acq: "spec (acquire_small_buf a 1 s0) is_exit (\<lambda>s1. srv_ok m as s1 \<and> op_added a s s1 \<and> sv_sq s1 = sv_sq s \<and>
    op_buf_cap (op_at s1 a) = 64 \<and> (\<forall>x\<in>busy s. op_buf_ref (op_at s x) \<noteq> op_buf_ref (op_at s1 a)))"
    by (simp add: acquire_buf_def size_of_def)
  show "spec (bindC (acquire_small_buf a 1 s0) (\<lambda>s1. bindC (get_op s1 a) (\<lambda>op. bindC (ptr (op_buf_ref op)) (\<lambda>b.
      bindC (get_buf s1 b) (\<lambda>buf. bindC (ser (op_buf_cap op) (br_buf buf)) (\<lambda>(len, bytes). bindC (put_buf b bytes s1) (\<lambda>s2.
      bindC (put_op a (op\<lparr>op_buf_len := len\<rparr>) s2) (\<lambda>s3. add_send env a fd cid s3)))))))) is_exit
    (\<lambda>s'. env_sqe env (length (sv_sq s)) \<and> (\<exists>a. srv_ok m (as @ [a]) s' \<and> sent a fd cid msg s s'))"
    unfolding write_and_send_def [symmetric]
    by (rule spec_bindI [OF acq], elim conjE, rule write_and_send_ok [OF ok _ len]) (simp_all add: ser)
qed

lemma send_server_error_ok:
  assumes "srv_ok m as s"
  shows "spec (send_server_error env fd cid seqid code s) is_exit (\<lambda>s'. env_sqe env (length (sv_sq s)) \<and>
    (\<exists>a. srv_ok m (as @ [a]) s' \<and> sent a fd cid (wire_server_error (seqid, code)) s s'))"
  unfolding send_server_error_def by (rule send_with_ok [OF assms]) (simp_all add: ser_server_error_wire)

lemma send_set_username_response_ok:
  assumes "srv_ok m as s"
  shows "spec (send_set_username_response env fd seqid cid s) is_exit (\<lambda>s'. env_sqe env (length (sv_sq s)) \<and>
    (\<exists>a. srv_ok m (as @ [a]) s' \<and> sent a fd cid (wire_header 11 MSGT_SET_USERNAME_RESPONSE seqid) s s'))"
  unfolding send_set_username_response_def by (rule send_with_ok [OF assms]) (simp_all add: ser_set_username_response_wire)

section \<open>Accepting\<close>

text \<open>What \<open>add_accept\<close> has done when it returns.\<close>

definition accepting :: "(64 word \<rightharpoonup> nat) \<Rightarrow> nat list \<Rightarrow> 64 word \<Rightarrow> server \<Rightarrow> server \<Rightarrow> bool" where
  "accepting m as k s s' \<longleftrightarrow> (\<exists>a i. srv_ok (m(k \<mapsto> i)) (as @ [a]) s' \<and> i \<notin> ran m \<and> a \<notin> busy s \<and> busy s' = insert a (busy s) \<and>
     (\<forall>x\<in>busy s. op_at s' x = op_at s x) \<and> op_type (op_at s' a) = OP_ACCEPT \<and> op_client_id (op_at s' a) = k \<and>
     sv_next_client_id s' = sv_next_client_id s \<and> sv_server_fd s' = sv_server_fd s \<and> sv_flight s' = sv_flight s \<and>
     sv_closed s' = sv_closed s \<and> sv_log s' = sv_log s \<and> (\<forall>x\<in>ran m. cells (sv_infos s') x = cells (sv_infos s) x) \<and>
     sv_sq s' = sv_sq s @ [\<lparr>sqe_data = op_pool_id (op_at s' a), sqe_req = Accept (sv_server_fd s) i\<rparr>])"

text \<open>The second half of \<open>add_accept\<close>: the ClientInfo of the new client and the entry.\<close>

lemma accept_entry_ok:
  assumes ok: "srv_ok m as s1" and k: "m k = None" and a: "a \<notin> set as" and add: "op_added a s s1" and sq: "sv_sq s1 = sv_sq s"
    and op: "op_type (op_at s1 a) = OP_ACCEPT" "op_client_id (op_at s1 a) = k" "op_buf_cap (op_at s1 a) = 2048"
      "op_client_fd (op_at s1 a) = - 1"
  shows "spec (bindC (client_map_new_entry (sv_clients s1) (sv_infos s1) k) (\<lambda>(r, cm, h).
      let s = s1\<lparr>sv_clients := cm, sv_infos := h\<rparr> in
      bindC (ptr r) (\<lambda>i. bindC (get_info s i) (\<lambda>info.
      bindC (put_info i (info\<lparr>ci_client_addr := replicate 16 0, ci_client_addr_len := 16\<rparr>) s) (\<lambda>s.
      ret (push_sqe (op_pool_id (op_at s1 a)) (Accept (sv_server_fd s) i) s)))))) is_exit (accepting m as k s)"
proof (rule spec_bindI [OF spec_post [OF cm_add_absent [OF srv_okD(2) [OF ok] k] infos_ok_new_entry [OF srv_okD(3) [OF ok]]]],
    unfold split_paired_all prod.case, elim conjE exE)
  fix r cm h i c
  assume r: "r = Some i" and i: "i \<notin> ran m" and rep: "cm_rep (cm, h) (m(k \<mapsto> i))" and c: "cells h i = Some c" "ci_client_id c = k"
    and sized: "infos_ok h" and fr: "\<forall>x. x \<noteq> i \<longrightarrow> cells h x = cells (sv_infos s1) x"
  define s2 where "s2 = s1\<lparr>sv_clients := cm, sv_infos := h\<rparr>"
  have "(m(k \<mapsto> i)) x = m x" if "m x \<noteq> None" for x using that k by auto
  then have s2: "srv_ok (m(k \<mapsto> i)) as s2" "busy s2 = busy s1" "op_at s2 = op_at s1"
    unfolding s2_def using srv_ok_clients [OF ok rep sized] by blast+
  let ?c = "c\<lparr>ci_client_addr := replicate 16 0, ci_client_addr_len := 16\<rparr>"
  define s3 where "s3 = s2\<lparr>sv_infos := (sv_infos s2)\<lparr>cells := (cells (sv_infos s2))(i \<mapsto> ?c)\<rparr>\<rparr>"
  have "info_sized ?c" using infos_ok_cell [OF sized c(1)] by (simp add: info_sized_def)
  then have s3: "put_info i ?c s2 = ret s3" "srv_ok (m(k \<mapsto> i)) as s3" "busy s3 = busy s2" "op_at s3 = op_at s2"
    unfolding s3_def using put_info_ok [OF s2(1), of i c ?c] c(1) by (simp_all add: s2_def)
  have f: "sv_server_fd s3 = sv_server_fd s" "sv_sq s3 = sv_sq s" "sv_next_client_id s3 = sv_next_client_id s"
    "sv_flight s3 = sv_flight s" "sv_closed s3 = sv_closed s" "sv_log s3 = sv_log s"
    using add sq by (simp_all add: s3_def s2_def op_added_def mem_only_eq)
  have others: "\<forall>x\<in>ran m. cells (sv_infos s3) x = cells (sv_infos s) x"
    using fr i add by (auto simp: s3_def s2_def op_added_def mem_only_eq)
  have at: "op_at s3 a = op_at s1 a" "a \<in> busy s3" using s3 s2 add by (simp_all add: op_added_def)
  have rq: "request_ok (sv_server_fd s3) (m(k \<mapsto> i)) (op_at s3 a) (Accept (sv_server_fd s3) i)" using at op by simp
  note p = push_armed [OF s3(2) at(2) a rq]
  let ?s = "push_sqe (op_pool_id (op_at s1 a)) (Accept (sv_server_fd s3) i) s3"
  have "srv_ok (m(k \<mapsto> i)) (as @ [a]) ?s" using p(1) at by simp
  moreover have "\<forall>x\<in>busy s. op_at ?s x = op_at s x" "a \<notin> busy s" "busy ?s = insert a (busy s)"
    using add s3 s2 by (auto simp: op_added_def push_sqe_fields)
  ultimately have "accepting m as k s ?s"
    unfolding accepting_def
    using i at f p(2) op others by (intro exI [of _ a] exI [of _ i]) (auto simp: push_sqe_fields armed_def mem_only_eq)
  then show "spec (let s = s1\<lparr>sv_clients := cm, sv_infos := h\<rparr> in bindC (ptr r) (\<lambda>i. bindC (get_info s i) (\<lambda>info.
      bindC (put_info i (info\<lparr>ci_client_addr := replicate 16 0, ci_client_addr_len := 16\<rparr>) s) (\<lambda>s.
      ret (push_sqe (op_pool_id (op_at s1 a)) (Accept (sv_server_fd s) i) s))))) is_exit (accepting m as k s)"
    using r s3(1) c(1) by (simp add: get_info_def flip: s2_def) (simp add: s2_def)
qed

text \<open>The body of \<open>add_accept\<close> once it has an operation with its buffer.\<close>

lemma add_accept_filled:
  assumes ok: "srv_ok m as s" and k: "m k = None"
    and s1: "srv_ok m as s1" "op_added a s s1" "sv_sq s1 = sv_sq s" "op_buf_cap (op_at s1 a) = 2048"
  shows "spec (bindC (get_op s1 a) (\<lambda>op. bindC (put_op a (op\<lparr>op_buf_len := 0, op_client_id := k, op_processed := 0,
        op_client_fd := - 1, op_type := OP_ACCEPT\<rparr>) s1) (\<lambda>s.
      bindC (client_map_new_entry (sv_clients s) (sv_infos s) k) (\<lambda>(r, cm, h).
      let s = s\<lparr>sv_clients := cm, sv_infos := h\<rparr> in
      bindC (ptr r) (\<lambda>i. bindC (get_info s i) (\<lambda>info.
      bindC (put_info i (info\<lparr>ci_client_addr := replicate 16 0, ci_client_addr_len := 16\<rparr>) s) (\<lambda>s.
      ret (push_sqe (op_pool_id op) (Accept (sv_server_fd s) i) s)))))))) is_exit (accepting m as k s)"
proof -
  have a: "a \<in> busy s1" "a \<notin> set as" using s1(2) srv_okD(5) [OF ok] by (auto simp: op_added_def)
  let ?op = "(op_at s1 a)\<lparr>op_buf_len := 0, op_client_id := k, op_processed := 0, op_client_fd := - 1, op_type := OP_ACCEPT\<rparr>"
  define s2 where "s2 = s1\<lparr>sv_ops := (sv_ops s1)\<lparr>cells := (cells (sv_ops s1))(a \<mapsto> ?op)\<rparr>\<rparr>"
  have o: "put_op a ?op s1 = ret s2" "srv_ok m as s2" "busy s2 = busy s1" "op_at s2 = (op_at s1)(a := ?op)"
    "mem_only s1 s2" "sv_sq s2 = sv_sq s1" "sv_bufs s2 = sv_bufs s1"
    using srv_ok_put_op [OF s1(1) a, of ?op] unfolding s2_def by simp_all
  have "op_added a s s2" by (rule op_added_trans [OF s1(2)]) (use o in auto)
  from accept_entry_ok [OF o(2) k a(2) this] s1(3,4) o show ?thesis
    using busy_op [OF s1(1) a(1)] by (simp add: get_op_def)
qed

lemma add_accept_ok:
  assumes ok: "srv_ok m as s" and k: "m k = None"
  shows "spec (add_accept env k s) is_exit (\<lambda>s'. env_sqe env (length (sv_sq s)) \<and> accepting m as k s s')"
proof (cases "env_sqe env (length (sv_sq s))")
  case False
  then show ?thesis by (simp add: add_accept_def)
next
  case True
  have acq: "spec (acquire_large_buf a 1 s0) is_exit (\<lambda>s1. srv_ok m as s1 \<and> op_added a s s1 \<and> sv_sq s1 = sv_sq s \<and>
      op_buf_cap (op_at s1 a) = 2048)"
    if "spec (acquire_buf True a s0) is_exit (\<lambda>s1. srv_ok m as s1 \<and> op_added a s s1 \<and> sv_sq s1 = sv_sq s \<and>
      op_buf_cap (op_at s1 a) = of_nat (size_of True) \<and> (\<forall>x\<in>busy s. op_buf_ref (op_at s x) \<noteq> op_buf_ref (op_at s1 a)))" for a s0
    using that by (auto simp: acquire_buf_def size_of_def elim!: spec_conseq)
  have "add_accept env k s = bindC (srv_new_op s) (\<lambda>(a, s1). bindC (acquire_large_buf a 1 s1) (\<lambda>s1. bindC (get_op s1 a) (\<lambda>op.
      bindC (put_op a (op\<lparr>op_buf_len := 0, op_client_id := k, op_processed := 0, op_client_fd := - 1, op_type := OP_ACCEPT\<rparr>) s1) (\<lambda>s.
      bindC (client_map_new_entry (sv_clients s) (sv_infos s) k) (\<lambda>(r, cm, h).
      let s = s\<lparr>sv_clients := cm, sv_infos := h\<rparr> in
      bindC (ptr r) (\<lambda>i. bindC (get_info s i) (\<lambda>info.
      bindC (put_info i (info\<lparr>ci_client_addr := replicate 16 0, ci_client_addr_len := 16\<rparr>) s) (\<lambda>s.
      ret (push_sqe (op_pool_id op) (Accept (sv_server_fd s) i) s)))))))))"
    using True by (simp add: add_accept_def get_sqe_def)
  then have "spec (add_accept env k s) is_exit (accepting m as k s)"
    apply (simp only:)
    apply (rule spec_bindI [OF op_added_buf [OF ok, of True]])
    apply clarify
    apply (rule spec_bindI [OF acq], assumption)
    apply (elim conjE, rule add_accept_filled [OF ok k])
    apply assumption+
    done
  then show ?thesis using True by (auto elim: spec_conseq)
qed

end
