(* ===== verification/Server_Handlers.thy ===== *)
theory Server_Handlers
  imports Server_Ring
begin

text \<open>
  The handlers of server.c on the invariant of \<open>Server_Ring\<close>. \<open>handle_ok\<close> gives what a request does,
  on every branch; the loop of \<open>handle_recv\<close> is shown to end when the submission queue is finite;
  each handler, in a state in which its operation has completed, ends the process, stops at the
  out-of-bounds copy of \<open>handle_recv\<close>, or leads to a state of the server's invariant \<open>srv_inv\<close>.
\<close>

section \<open>Fields without memory\<close>

lemma srv_ok_fields:
  assumes "sv_pool s' = sv_pool s" "sv_ops s' = sv_ops s" "sv_bufs s' = sv_bufs s" "sv_slab64 s' = sv_slab64 s" "sv_slab2k s' = sv_slab2k s"
    and "sv_clients s' = sv_clients s" "sv_infos s' = sv_infos s" "sv_server_fd s' = sv_server_fd s" "pend s' = pend s"
  shows "srv_ok m as s' = srv_ok m as s"
proof -
  have "op_at s' = op_at s" using assms(2) by (simp add: op_at_def fun_eq_iff)
  then have "entry_ok s' m = entry_ok s m" using assms(8) by (simp add: entry_ok_def fun_eq_iff)
  then show ?thesis using srv_mem_fields [OF assms(1-5)] assms(6-9) by (simp add: srv_ok_def)
qed

lemma srv_ok_plain [simp]:
  "srv_ok m as (s\<lparr>sv_log := l\<rparr>) = srv_ok m as s" "srv_ok m as (s\<lparr>sv_closed := c\<rparr>) = srv_ok m as s"
  "srv_ok m as (s\<lparr>sv_next_client_id := k\<rparr>) = srv_ok m as s"
  by (rule srv_ok_fields; simp add: pend_def)+

lemma busy_plain [simp]:
  "busy (s\<lparr>sv_log := l\<rparr>) = busy s" "busy (s\<lparr>sv_closed := c\<rparr>) = busy s" "busy (s\<lparr>sv_next_client_id := k\<rparr>) = busy s"
  "op_at (s\<lparr>sv_log := l\<rparr>) = op_at s" "op_at (s\<lparr>sv_closed := c\<rparr>) = op_at s" "op_at (s\<lparr>sv_next_client_id := k\<rparr>) = op_at s"
  by (simp_all add: busy_def op_at_def fun_eq_iff)

text \<open>The line that \<open>log_with_client_info\<close> adds.\<close>

definition log_entry :: "client_info \<Rightarrow> string \<Rightarrow> log_line" where
  "log_entry c msg = (take 4 (drop 4 (ci_client_addr c)), be_word (take 2 (drop 2 (ci_client_addr c))),
     ci_client_id c, ci_client_fd c, msg)"

lemma log_ok:
  assumes "srv_ok m as s" and "cells (sv_infos s) i = Some c"
  shows "log_with_client_info env i msg s = ret (s\<lparr>sv_log := sv_log s @ [log_entry c msg]\<rparr>)"
  using infos_ok_cell [OF srv_okD(3) [OF assms(1)] assms(2)] assms(2)
  by (simp add: log_with_client_info_def get_info_def hget_def bread_def info_sized_def log_entry_def)

section \<open>Other clients\<close>

text \<open>
  What a step for the client \<open>k\<close> leaves to the other clients of the map \<open>m\<close>: each is still found, under the same
  ClientInfo, and the data in it (address, descriptor, name) are the same.
\<close>

definition peers :: "(64 word \<rightharpoonup> nat) \<Rightarrow> 64 word \<Rightarrow> server \<Rightarrow> server \<Rightarrow> bool" where
  "peers m k s s' \<longleftrightarrow> (\<forall>j i. j \<noteq> k \<longrightarrow> m j = Some i \<longrightarrow>
     client_map_get (sv_clients s') (sv_infos s') j = ret (Some i) \<and> profile (sv_infos s') i = profile (sv_infos s) i)"

lemma peersI:
  assumes "srv_ok m' as s'" and "\<And>j i. j \<noteq> k \<Longrightarrow> m j = Some i \<Longrightarrow> m' j = Some i \<and> profile (sv_infos s') i = profile (sv_infos s) i"
  shows "peers m k s s'"
  using assms cm_get [OF srv_okD(2) [OF assms(1)]] unfolding peers_def by metis

lemma peers_trans: "peers m k s s1 \<Longrightarrow> peers m k s1 s2 \<Longrightarrow> peers m k s s2"
  unfolding peers_def by metis

lemma peers_same: "srv_ok m as s' \<Longrightarrow> sv_infos s' = sv_infos s \<Longrightarrow> peers m k s s'"
  by (rule peersI) simp_all

lemma peers_put:
  assumes "srv_ok m as s" and "srv_ok m as' s'" and "m k = Some i" and "\<And>x. x \<noteq> i \<Longrightarrow> cells (sv_infos s') x = cells (sv_infos s) x"
  shows "peers m k s s'"
proof (rule peersI [OF assms(2)])
  fix j x assume j: "j \<noteq> k" "m j = Some x"
  have "x \<noteq> i" using cm_rep_live [OF srv_okD(2) [OF assms(1)] assms(3)] cm_rep_live [OF srv_okD(2) [OF assms(1)] j(2)] j(1) by (metis option.inject)
  then show "m j = Some x \<and> profile (sv_infos s') x = profile (sv_infos s) x" using j(2) assms(4) by (simp add: profile_def)
qed

section \<open>Disconnecting\<close>

lemma disconnect_ok:
  assumes ok: "srv_ok m as s" and a: "a \<in> busy s" "a \<notin> set as" and i: "m (op_client_id (op_at s a)) = Some i"
    and acc: "\<And>x. x \<in> set as \<Longrightarrow> op_type (op_at s x) = OP_ACCEPT \<Longrightarrow> op_client_id (op_at s x) \<noteq> op_client_id (op_at s a)"
  shows "spec (disconnect_and_free_op env (Some i) a s) is_exit (\<lambda>s'.
    srv_ok (m(op_client_id (op_at s a) := None)) as s' \<and> busy s' = busy s - {a} \<and> (\<forall>x. x \<noteq> a \<longrightarrow> op_at s' x = op_at s x) \<and>
    sv_closed s' = sv_closed s @ [op_client_fd (op_at s a)] \<and> sv_sq s' = sv_sq s \<and> sv_flight s' = sv_flight s \<and>
    sv_next_client_id s' = sv_next_client_id s \<and> sv_server_fd s' = sv_server_fd s \<and> peers m (op_client_id (op_at s a)) s s')"
    (is "spec _ _ ?post")
proof -
  let ?k = "op_client_id (op_at s a)" and ?fd = "op_client_fd (op_at s a)"
  obtain c where c: "cells (sv_infos s) i = Some c" using cm_rep_live [OF srv_okD(2) [OF ok] i] by metis
  let ?s1 = "s\<lparr>sv_log := sv_log s @ [log_entry c ''disconnected'']\<rparr>"
  have fin: "spec (free_op a (?s1\<lparr>sv_closed := sv_closed s @ [?fd], sv_clients := cm, sv_infos := h\<rparr>)) is_exit ?post"
    if rep: "cm_rep (cm, h) (m(?k := None))" "infos_ok h" and sp: "spares ?k (sv_infos s) h" for cm h
  proof -
    have others: "peers m ?k s s'" if "srv_ok (m(?k := None)) as s'" "sv_infos s' = h" for s'
      by (rule peersI [OF that(1)]) (use that(2) spares_profile [OF srv_okD(2) [OF ok] sp] in auto)
    define s2 where "s2 = ?s1\<lparr>sv_closed := sv_closed s @ [?fd], sv_clients := cm, sv_infos := h\<rparr>"
    have s2: "srv_ok (m(?k := None)) as s2" "busy s2 = busy s" "op_at s2 = op_at s"
      unfolding s2_def
      using srv_ok_clients [of m as "?s1\<lparr>sv_closed := sv_closed s @ [?fd]\<rparr>", OF _ rep] ok acc by (auto simp del: fun_upd_apply) (simp_all add: acc)
    show ?thesis
      unfolding s2_def [symmetric]
      by (rule spec_conseq [OF free_op_ok [OF s2(1)]]) (use a s2 others in \<open>auto simp: mem_only_eq s2_def\<close>)
  qed
  show ?thesis
    using log_ok [OF ok c] busy_op [OF ok a(1)] 
      spec_post [OF spec_post [OF cm_del_present [OF srv_okD(2) [OF ok] i] infos_ok_delete [OF srv_okD(3) [OF ok], of "sv_clients s" ?k]] spares_delete]
    by (auto simp: disconnect_and_free_op_def get_op_def must_close_def fatal_error_def case_prod_unfold elim!: spec_conseq intro!: fin)
qed

section \<open>Requests\<close>

lemma username_valid_iff:
  "off + n \<le> length buf \<Longrightarrow> username_valid n buf off = ret (list_all isalnum (take n (drop off buf)))"
proof (induction n arbitrary: off)
  case (Suc n)
  then have "drop off buf = buf ! off # drop (Suc off) buf" by (intro Cons_nth_drop_Suc [symmetric]) simp
  then show ?case using Suc by (simp add: aread_def)
qed simp

text \<open>
  What a SET_USERNAME request of \<open>len\<close> bytes with the name \<open>name\<close> is answered, and what it does to
  the ClientInfo: a name of 3 to 15 letters and digits is stored with a final zero byte.
\<close>

definition name_ok :: "64 word \<Rightarrow> 8 word list \<Rightarrow> bool" where
  "name_ok len name \<longleftrightarrow> 14 \<le> len \<and> len \<le> 26 \<and> list_all isalnum name"

definition answer :: "64 word \<Rightarrow> 64 word \<Rightarrow> 8 word list \<Rightarrow> 8 word list" where
  "answer seqid len name =
     (if \<not> (14 \<le> len \<and> len \<le> 26) then wire_server_error (seqid, code_val CODE_INVALID_MSG_LEN)
      else if \<not> list_all isalnum name then wire_server_error (seqid, code_val CODE_INVALID_USERNAME)
      else wire_header 11 MSGT_SET_USERNAME_RESPONSE seqid)"

definition set_name :: "nat \<Rightarrow> 8 word list \<Rightarrow> server \<Rightarrow> server" where
  "set_name i name s = s\<lparr>sv_infos := (sv_infos s)\<lparr>cells := (cells (sv_infos s))(i \<mapsto> (the (cells (sv_infos s) i))\<lparr>ci_username :=
     name @ [0] @ drop (Suc (length name)) (ci_username (the (cells (sv_infos s) i)))\<rparr>)\<rparr>\<rparr>"

lemma set_name_ok:
  assumes ok: "srv_ok m as s" and c: "cells (sv_infos s) i = Some c" and n: "length name \<le> 15"
  shows "bindC (bwrite (ci_username c) 0 name) (\<lambda>un. bindC (bwrite un (length name) [0]) (\<lambda>un.
      put_info i (c\<lparr>ci_username := un\<rparr>) s)) = ret (set_name i name s)"
    and "srv_ok m as (set_name i name s)" and "busy (set_name i name s) = busy s" and "op_at (set_name i name s) = op_at s"
    and "sv_sq (set_name i name s) = sv_sq s" and "sv_bufs (set_name i name s) = sv_bufs s"
proof -
  have l: "length (ci_username c) = 16" using infos_ok_cell [OF srv_okD(3) [OF ok] c] by (simp add: info_sized_def)
  let ?c = "c\<lparr>ci_username := name @ [0] @ drop (Suc (length name)) (ci_username c)\<rparr>"
  have "info_sized ?c" using infos_ok_cell [OF srv_okD(3) [OF ok] c] n l by (simp add: info_sized_def)
  then have p: "put_info i ?c s = ret (set_name i name s)" "srv_ok m as (set_name i name s)"
    "busy (set_name i name s) = busy s" "op_at (set_name i name s) = op_at s"
    using put_info_ok [OF ok c, of ?c] c by (simp_all add: set_name_def)
  then show "srv_ok m as (set_name i name s)" "busy (set_name i name s) = busy s" "op_at (set_name i name s) = op_at s"
    "sv_sq (set_name i name s) = sv_sq s" "sv_bufs (set_name i name s) = sv_bufs s"
    using c by (simp_all add: set_name_def)
  have "bwrite (ci_username c) 0 name = ret (name @ drop (length name) (ci_username c))" using n l by (simp add: bwrite_def)
  moreover have "bwrite (name @ drop (length name) (ci_username c)) (length name) [0] =
      ret (name @ [0] @ drop (Suc (length name)) (ci_username c))" using n l by (simp add: bwrite_def)
  ultimately show "bindC (bwrite (ci_username c) 0 name) (\<lambda>un. bindC (bwrite un (length name) [0]) (\<lambda>un.
      put_info i (c\<lparr>ci_username := un\<rparr>) s)) = ret (set_name i name s)"
    using p(1) c by (simp add: set_name_def)
qed

lemma uname_len_range:
  "(len - 11 < MIN_UNAME_LEN \<or> len - 11 > MAX_UNAME_LEN) \<longleftrightarrow> \<not> (14 \<le> len \<and> len \<le> (26 :: 64 word))"
proof -
  have "unat (len - 11) = (if 11 \<le> unat len then unat len - 11 else unat len + 18446744073709551605)"
    using unat_lt_64 [of len] by (simp add: unat_sub_if' word_le_nat_alt) 
  then show ?thesis by (auto simp: MIN_UNAME_LEN_def MAX_UNAME_LEN_def word_le_nat_alt word_less_nat_alt split: if_splits)
qed

text \<open>What \<open>handle\<close> reads of a name whose length is in range.\<close>

lemma handle_reads_name:
  assumes "14 \<le> len \<and> len \<le> (26 :: 64 word)" and b: "off + unat len \<le> length buf"
  defines "name \<equiv> take (unat len - 11) (drop (off + 11) buf)"
  shows "length name = unat (len - 11)" and "length name \<le> 15"
    and "username_valid (unat (len - 11)) buf (off + 11) = ret (list_all isalnum name)"
    and "bread buf (off + 11) (unat (len - 11)) = ret name"
proof -
  have n: "unat (len - 11) = unat len - 11" "unat len \<le> 26" "14 \<le> unat len"
    using assms(1) by (auto simp: unat_sub_if' word_le_nat_alt)
  show ln: "length name = unat (len - 11)" using b n by (simp add: name_def)
  then show "length name \<le> 15" using n by simp
  show "username_valid (unat (len - 11)) buf (off + 11) = ret (list_all isalnum name)"
    using username_valid_iff [of "off + 11" "unat (len - 11)" buf] b n by (simp add: name_def)
  show "bread buf (off + 11) (unat (len - 11)) = ret name"
    using b n by (simp add: bread_def name_def)
qed

lemma handle_ok:
  assumes ok: "srv_ok m as s" and a: "a \<in> busy s" and i: "cells (sv_infos s) i = Some c"
    and b: "cells (sv_bufs s) b = Some buf" "off + unat len \<le> length (br_buf buf)"
  defines "name \<equiv> take (unat len - 11) (drop (off + 11) (br_buf buf))"
  shows "spec (handle env i a b off len msgt seqid s) is_exit (\<lambda>(r, s').
    if msgt \<noteq> msgt_val MSGT_SET_USERNAME then r = - 1 \<and> s' = s
    else r = 0 \<and> env_sqe env (length (sv_sq s)) \<and> (\<exists>x. srv_ok m (as @ [x]) s' \<and>
      sent x (op_client_fd (op_at s a)) (op_client_id (op_at s a)) (answer seqid len name)
        (if name_ok len name then set_name i name s else s) s'))"
    (is "spec _ _ ?post")
proof (cases "msgt = msgt_val MSGT_SET_USERNAME")
  case False
  then show ?thesis using busy_op [OF ok a] by (simp add: handle_def get_op_def)
next
  case True
  let ?fd = "op_client_fd (op_at s a)" and ?k = "op_client_id (op_at s a)"
  have deser: "deser_set_username len = (11, len - 11)" by (simp add: deser_set_username_def layout)
  show ?thesis
  proof (cases "14 \<le> len \<and> len \<le> 26")
    case False
    with True show ?thesis
      using busy_op [OF ok a] deser send_server_error_ok [OF ok, of env ?fd ?k seqid "code_val CODE_INVALID_MSG_LEN"]
      by (auto simp: handle_def Let_def get_op_def uname_len_range answer_def name_ok_def simp del: code_val.simps elim!: spec_conseq)
  next
    case range: True
    note nm = handle_reads_name [OF range b(2), folded name_def]
    show ?thesis
    proof (cases "list_all isalnum name")
      case False
      with True range show ?thesis
        using busy_op [OF ok a] deser send_server_error_ok [OF ok, of env ?fd ?k seqid "code_val CODE_INVALID_USERNAME"] b(1) nm(3)
        by (auto simp: handle_def Let_def get_op_def get_buf_def uname_len_range answer_def name_ok_def
            simp del: code_val.simps elim!: spec_conseq)
    next
      case good: True
      note sn = set_name_ok [OF ok i nm(2), unfolded nm(1)]
      have "handle env i a b off len msgt seqid s = bindC (bindC (bwrite (ci_username c) 0 name) (\<lambda>un.
          bindC (bwrite un (unat (len - 11)) [0]) (\<lambda>un. put_info i (c\<lparr>ci_username := un\<rparr>) s))) (\<lambda>s.
          bindC (send_set_username_response env ?fd seqid ?k s) (\<lambda>s. ret (0, s)))"
        using True range good nm(3,4) busy_op [OF ok a] deser b(1) i
        by (simp add: handle_def get_op_def get_buf_def get_info_def hget_def uname_len_range bindC_assoc)
      also have "\<dots> = bindC (send_set_username_response env ?fd seqid ?k (set_name i name s)) (\<lambda>s. ret (0, s))"
        by (simp only: sn(1)) (simp add: bindC_def)
      finally show ?thesis
        using True range good send_set_username_response_ok [OF sn(2), of env ?fd seqid ?k] sn
        by (auto simp: answer_def name_ok_def elim!: spec_conseq)
    qed
  qed
qed

section \<open>The invariant of the server\<close>

text \<open>
  Client ids are handed out in order: every id in use is below the next one. The operation that
  accepts is the only one of its client and the only one that accepts. \<open>cur m as a s\<close> is the state in
  which the operation \<open>a\<close> has completed and is being handled while the operations \<open>as\<close> wait.
\<close>

definition ids_ok :: "(64 word \<rightharpoonup> nat) \<Rightarrow> server \<Rightarrow> bool" where
  "ids_ok m s \<longleftrightarrow> (\<forall>k\<in>dom m. k < sv_next_client_id s) \<and>
     (\<forall>a\<in>busy s. op_client_id (op_at s a) < sv_next_client_id s \<and>
       (op_type (op_at s a) = OP_ACCEPT \<longrightarrow>
         (\<forall>b\<in>busy s. b \<noteq> a \<longrightarrow> op_client_id (op_at s b) \<noteq> op_client_id (op_at s a) \<and> op_type (op_at s b) \<noteq> OP_ACCEPT)))"

definition listening :: "server \<Rightarrow> bool" where
  "listening s \<longleftrightarrow> (\<exists>a\<in>busy s. op_type (op_at s a) = OP_ACCEPT)"

definition srv_inv :: "server \<Rightarrow> bool" where
  "srv_inv s \<longleftrightarrow> (\<exists>m as. srv_ok m as s \<and> busy s = set as \<and> ids_ok m s \<and> listening s)"

definition cur :: "(64 word \<rightharpoonup> nat) \<Rightarrow> nat list \<Rightarrow> nat \<Rightarrow> server \<Rightarrow> bool" where
  "cur m as a s \<longleftrightarrow> srv_ok m as s \<and> a \<notin> set as \<and> busy s = insert a (set as) \<and> ids_ok m s"

text \<open>
  What a handler of the operation does when it returns: a state of the invariant, the entries in
  flight untouched, at most one client id handed out.
\<close>

definition moved :: "server \<Rightarrow> server \<Rightarrow> bool" where
  "moved s s' \<longleftrightarrow> srv_inv s' \<and> sv_flight s' = sv_flight s \<and>
     (sv_next_client_id s' = sv_next_client_id s \<or> sv_next_client_id s' = sv_next_client_id s + 1)"

definition same_run :: "server \<Rightarrow> server \<Rightarrow> bool" where
  "same_run s s' \<longleftrightarrow> sv_flight s' = sv_flight s \<and> sv_next_client_id s' = sv_next_client_id s"

lemma same_run_moved: "same_run s s' \<Longrightarrow> moved s' s'' \<Longrightarrow> moved s s''"
  by (simp add: same_run_def moved_def)

text \<open>The same with what the client of the operation \<open>a\<close> leaves to the others.\<close>

definition served :: "(64 word \<rightharpoonup> nat) \<Rightarrow> nat \<Rightarrow> server \<Rightarrow> server \<Rightarrow> bool" where
  "served m a s s' \<longleftrightarrow> moved s s' \<and> peers m (op_client_id (op_at s a)) s s'"

lemma served_trans:
  "same_run s s1 \<Longrightarrow> op_client_id (op_at s1 a) = op_client_id (op_at s a) \<Longrightarrow> peers m (op_client_id (op_at s a)) s s1 \<Longrightarrow> served m a s1 s2 \<Longrightarrow> served m a s s2"
  using peers_trans by (auto simp: served_def intro: same_run_moved)

lemma ids_ok_sent:
  assumes "ids_ok m s" and "a \<in> busy s" and "op_type (op_at s a) \<noteq> OP_ACCEPT"
    and "op_added x s s'" and "op_type (op_at s' x) = OP_WRITE" and "op_client_id (op_at s' x) = op_client_id (op_at s a)"
  shows "ids_ok m s'"
proof -
  have s': "busy s' = insert x (busy s)" "x \<notin> busy s" "sv_next_client_id s' = sv_next_client_id s"
    "\<And>y. y \<in> busy s \<Longrightarrow> op_at s' y = op_at s y" using assms(4) by (auto simp: op_added_def mem_only_eq)
  have "op_client_id (op_at s a) < sv_next_client_id s" using assms(1,2) by (simp add: ids_ok_def)
  moreover have "op_client_id (op_at s a) \<noteq> op_client_id (op_at s y)" if "y \<in> busy s" "op_type (op_at s y) = OP_ACCEPT" for y
    using assms(1-3) that unfolding ids_ok_def by metis
  ultimately show ?thesis
    using assms(1,5,6) s' unfolding ids_ok_def by auto
qed

lemma listening_kept:
  assumes "listening s" and "\<And>x. x \<in> busy s \<Longrightarrow> op_type (op_at s x) = OP_ACCEPT \<Longrightarrow> x \<in> busy s' \<and> op_at s' x = op_at s x"
  shows "listening s'"
  using assms unfolding listening_def by metis

lemma ids_ok_freed:
  assumes "ids_ok m s" and "busy s' \<subseteq> busy s" and "\<And>x. x \<in> busy s' \<Longrightarrow> op_at s' x = op_at s x"
    and "sv_next_client_id s' = sv_next_client_id s" and "dom m' \<subseteq> dom m"
  shows "ids_ok m' s'"
proof -
  have "x \<in> busy s \<and> op_at s' x = op_at s x" if "x \<in> busy s'" for x using that assms(2,3) by blast
  moreover have "k < sv_next_client_id s" if "k \<in> dom m'" for k using that assms(1,5) by (auto simp: ids_ok_def)
  ultimately show ?thesis using assms(1,4) by (simp add: ids_ok_def) blast
qed

text \<open>The last step of a handler: the operation is freed, or it waits again.\<close>

lemma cur_freed:
  assumes "cur m as a s" and "listening s" and "op_type (op_at s a) \<noteq> OP_ACCEPT"
    and "srv_ok m' as s'" and "busy s' = busy s - {a}" and "\<forall>x. x \<noteq> a \<longrightarrow> op_at s' x = op_at s x"
    and "same_run s s'" and "dom m' \<subseteq> dom m"
  shows "moved s s'"
proof -
  have "ids_ok m' s'" by (rule ids_ok_freed [of m s]) (use assms in \<open>auto simp: cur_def same_run_def\<close>)
  moreover have "listening s'" by (rule listening_kept [OF assms(2)]) (use assms(3,5,6) in auto)
  moreover have "busy s' = set as" using assms(1,5) by (auto simp: cur_def)
  ultimately show ?thesis using assms(4,7) unfolding moved_def same_run_def srv_inv_def by blast
qed

lemma cur_armed:
  assumes "cur m as a s" and "listening s" and "srv_ok m (as @ [a]) s'" and "armed a op rq s s'"
    and "op_client_id op = op_client_id (op_at s a)" and "op_type op = op_type (op_at s a)"
  shows "moved s s'"
proof -
  have s': "busy s' = insert a (set as)" "sv_next_client_id s' = sv_next_client_id s"
    "\<And>x. op_client_id (op_at s' x) = op_client_id (op_at s x)" "\<And>x. op_type (op_at s' x) = op_type (op_at s x)"
    using assms by (auto simp: cur_def armed_def mem_only_eq)
  then have "ids_ok m s'" using assms(1) by (simp add: cur_def ids_ok_def)
  moreover have "listening s'" using assms(1,2) s' by (simp add: cur_def listening_def)
  moreover have "busy s' = set (as @ [a])" using s'(1) by simp
  ultimately have "srv_inv s'" using assms(3) unfolding srv_inv_def by blast
  then show ?thesis using assms(4) by (simp add: moved_def armed_def mem_only_eq)
qed

lemma armed_served:
  assumes "cur m as a s" and "listening s" and "srv_ok m (as @ [a]) s'" and "armed a op rq s s'"
    and "op_client_id op = op_client_id (op_at s a)" and "op_type op = op_type (op_at s a)"
  shows "served m a s s'"
  using cur_armed [OF assms] peers_same [OF assms(3)] assms(4) by (simp add: served_def armed_def mem_only_eq)

lemma cur_disconnect:
  assumes c: "cur m as a s" and l: "listening s" and t: "op_type (op_at s a) \<noteq> OP_ACCEPT"
    and i: "m (op_client_id (op_at s a)) = Some i"
  shows "spec (disconnect_and_free_op env (Some i) a s) is_exit (served m a s)"
proof -
  have ok: "srv_ok m as s" and a: "a \<in> busy s" "a \<notin> set as" and sub: "set as \<subseteq> busy s" and ids: "ids_ok m s"
    using c by (auto simp: cur_def)
  have "op_client_id (op_at s x) \<noteq> op_client_id (op_at s a)" if "x \<in> set as" "op_type (op_at s x) = OP_ACCEPT" for x
    using ids that sub a unfolding ids_ok_def by (metis subsetD)
  from disconnect_ok [OF ok a i this] show ?thesis
    by (rule spec_conseq) (use c l t in \<open>auto simp: same_run_def served_def intro!: cur_freed split: if_splits\<close>)
qed

section \<open>Receiving\<close>

text \<open>How a handler may stop: the process exits, or a copy leaves its buffer.\<close>

definition stop_ok :: "fault \<Rightarrow> bool" where
  "stop_ok f \<longleftrightarrow> is_exit f \<or> f = Memmove_overrun"

lemma spec_stop: "spec n is_exit P \<Longrightarrow> spec n stop_ok P"
  by (erule spec_mono) (simp_all add: stop_ok_def)

text \<open>The memmove of \<open>handle_recv\<close>, with the length it is given, leaves the buffer exactly when \<open>n < off\<close>.\<close>

lemma memmove_down_ok:
  fixes n :: "64 word"
  assumes ok: "srv_ok m as s" and b: "cells (sv_bufs s) b = Some buf" "length (br_buf buf) = 2048"
    and n: "unat n \<le> 2048" and off: "off \<le> 2048"
  shows "if unat n < off then memmove_down b off (unat (2048 - n)) s = fail Memmove_overrun
    else spec (memmove_down b off (unat (2048 - n)) s) no_fault (\<lambda>s'. srv_ok m as s' \<and> busy s' = busy s \<and>
      op_at s' = op_at s \<and> mem_only s s' \<and> sv_sq s' = sv_sq s \<and>
      cells (sv_bufs s') b = Some (buf\<lparr>br_buf := take (2048 - unat n) (drop off (br_buf buf)) @ drop (2048 - unat n) (br_buf buf)\<rparr>))"
proof -
  have "n \<le> 2048" using n by (simp add: word_le_nat_alt)
  then have l: "unat (2048 - n) = 2048 - unat n" by (simp add: unat_sub)
  let ?bytes = "take (2048 - unat n) (drop off (br_buf buf))"
  show ?thesis
  proof (cases "unat n < off")
    case True
    then have "\<not> off + (2048 - unat n) \<le> 2048" using n by linarith
    then show ?thesis using True b l by (simp add: memmove_down_def get_buf_def hget_def)
  next
    case False
    let ?new = "?bytes @ drop (2048 - unat n) (br_buf buf)"
    have "length ?bytes = 2048 - unat n" using False b(2) n by simp
    then have "length ?new = length (br_buf buf)" using b(2) n by simp
    moreover have "off + (2048 - unat n) \<le> length (br_buf buf)" using False n b(2) by simp
    ultimately show ?thesis
      using srv_ok_put_buf [OF ok b(1), of ?new] False b(1) l by (simp add: memmove_down_def get_buf_def hget_def)
  qed
qed

lemma cur_same:
  assumes "cur m as a s" and "listening s" and "srv_ok m as s'" and "busy s' = busy s" and "op_at s' = op_at s"
    and "sv_next_client_id s' = sv_next_client_id s"
  shows "cur m as a s'" and "listening s'"
  using assms by (simp_all add: cur_def ids_ok_def listening_def)

lemma cur_sent:
  assumes c: "cur m as a s" and l: "listening s" and t: "op_type (op_at s a) = OP_READ"
    and s0: "busy s0 = busy s" "op_at s0 = op_at s" "sv_next_client_id s0 = sv_next_client_id s"
    and ok: "srv_ok m (as @ [x]) s'" and sent: "sent x fd (op_client_id (op_at s a)) msg s0 s'"
  shows "cur m (as @ [x]) a s'" and "listening s'" and "op_at s' a = op_at s a" and "same_run s0 s'" and "length (sv_sq s') = Suc (length (sv_sq s0))"
proof -
  have a: "a \<in> busy s" using c by (simp add: cur_def)
  have add: "op_added x s0 s'" and wr: "op_type (op_at s' x) = OP_WRITE" "op_client_id (op_at s' x) = op_client_id (op_at s0 a)"
    using sent s0(2) by (simp_all add: sent_def)
  have "ids_ok m s0" using c s0 by (simp add: cur_def ids_ok_def)
  then have "ids_ok m s'" by (rule ids_ok_sent [OF _ _ _ add wr]) (use a t s0 in simp_all)
  then show "cur m (as @ [x]) a s'"
    using c ok add a s0(1) by (auto simp: cur_def op_added_def)
  show "op_at s' a = op_at s a" using add a s0 by (simp add: op_added_def)
  show "listening s'" by (rule listening_kept [OF l]) (use add s0 in \<open>auto simp: op_added_def\<close>)
  show "same_run s0 s'" using add by (simp add: op_added_def mem_only_eq same_run_def)
  show "length (sv_sq s') = Suc (length (sv_sq s0))" using sent by (auto simp: sent_def)
qed

text \<open>The turns of the loop: a request that is too long, one that has not arrived in full, a whole one.\<close>

lemma recv_loop_turn:
  assumes "cells (sv_bufs s) b = Some buf" and "deser_header (env_endian env) (drop off (br_buf buf)) = ret h"
    and "PROT_HDR_LEN \<le> n"
  shows "ucast (hd_len h) > BUFFER_SIZE_2KB \<Longrightarrow>
      handle_recv_loop env i a b off n s = bindC (disconnect_and_free_op env (Some i) a s) (\<lambda>s. ret (None, s))"
    and "\<not> ucast (hd_len h) > BUFFER_SIZE_2KB \<Longrightarrow> n < ucast (hd_len h) \<Longrightarrow>
      handle_recv_loop env i a b off n s = bindC (get_op s a) (\<lambda>op.
        bindC (if off \<noteq> 0 then memmove_down b off (unat (op_buf_cap op - n)) s else ret s) (\<lambda>s. ret (Some n, s)))"
    and "\<not> ucast (hd_len h) > BUFFER_SIZE_2KB \<Longrightarrow> \<not> n < ucast (hd_len h) \<Longrightarrow>
      handle_recv_loop env i a b off n s = bindC (handle env i a b off (ucast (hd_len h)) (hd_msgt h) (hd_seqid h) s) (\<lambda>(r, s).
        if r = - 1 then bindC (disconnect_and_free_op env (Some i) a s) (\<lambda>s. ret (None, s))
        else handle_recv_loop env i a b (off + unat (ucast (hd_len h) :: 64 word)) (n - ucast (hd_len h)) s)"
  using assms by (subst handle_recv_loop.simps, simp add: get_buf_def hget_def Let_def)+

text \<open>
  What the loop leaves: the client is gone, or the number of bytes to go on with, below the size of
  the buffer, and the operation as it was.
\<close>

definition recv_left :: "(64 word \<rightharpoonup> nat) \<Rightarrow> nat \<Rightarrow> server \<Rightarrow> 64 word option \<times> server \<Rightarrow> bool" where
  "recv_left m a s = (\<lambda>(left, s'). case left of
      None \<Rightarrow> served m a s s'
    | Some n \<Rightarrow> unat n < 2048 \<and> same_run s s' \<and> listening s' \<and> op_at s' a = op_at s a \<and> (\<exists>as. cur m as a s') \<and>
        peers m (op_client_id (op_at s a)) s s')"

lemma recv_left_trans:
  "same_run s s1 \<Longrightarrow> op_at s1 a = op_at s a \<Longrightarrow> peers m (op_client_id (op_at s a)) s s1 \<Longrightarrow> recv_left m a s1 r \<Longrightarrow> recv_left m a s r"
  using peers_trans by (auto simp: recv_left_def same_run_def split: option.splits intro: served_trans [unfolded same_run_def])

lemma recv_part_ok:
  assumes c: "cur m as a s" "listening s" and cap: "op_buf_cap (op_at s a) = 2048"
    and buf: "cells (sv_bufs s) b = Some buf" "length (br_buf buf) = 2048" and n: "unat n < 2048" "off \<le> 2048"
  shows "spec (bindC (get_op s a) (\<lambda>op. bindC (if off \<noteq> 0 then memmove_down b off (unat (op_buf_cap op - n)) s else ret s)
    (\<lambda>s. ret (Some n, s)))) stop_ok (recv_left m a s)"
proof -
  have ok: "srv_ok m as s" and a: "a \<in> busy s" using c(1) by (auto simp: cur_def)
  have "spec (if off \<noteq> 0 then memmove_down b off (unat (2048 - n)) s else ret s) stop_ok (\<lambda>s'. recv_left m a s (Some n, s'))"
    using memmove_down_ok [OF ok buf, of n off] cur_same [OF c] c n
    by (auto simp: recv_left_def stop_ok_def no_fault_def mem_only_eq same_run_def peers_same [OF ok] intro: peers_same split: if_splits elim!: spec_mono)
  then show ?thesis using busy_op [OF ok a] cap by (auto simp: get_op_def elim!: spec_conseq)
qed

text \<open>A request that is answered takes an entry of the submission queue.\<close>

lemma handle_turn:
  assumes c: "cur m as a s" "listening s" "op_type (op_at s a) = OP_READ" and i: "m (op_client_id (op_at s a)) = Some i"
    and b: "cells (sv_bufs s) b = Some buf" "off + unat len \<le> length (br_buf buf)"
  shows "spec (handle env i a b off len msgt seqid s) stop_ok (\<lambda>(r, s'). if r = - 1 then s' = s
    else env_sqe env (length (sv_sq s)) \<and> length (sv_sq s') = Suc (length (sv_sq s)) \<and> (\<exists>as. cur m as a s') \<and>
      listening s' \<and> op_at s' a = op_at s a \<and> same_run s s' \<and> peers m (op_client_id (op_at s a)) s s')"
proof -
  have ok: "srv_ok m as s" and a: "a \<in> busy s" using c(1) by (auto simp: cur_def)
  obtain ci where ci: "cells (sv_infos s) i = Some ci" using cm_rep_live [OF srv_okD(2) [OF ok] i] by metis
  have post: "length (sv_sq s') = Suc (length (sv_sq s)) \<and> (\<exists>as. cur m as a s') \<and> listening s' \<and> op_at s' a = op_at s a \<and> same_run s s' \<and>
      peers m (op_client_id (op_at s a)) s s'"
    if x: "srv_ok m (as @ [x]) s'" "sent x (op_client_fd (op_at s a)) (op_client_id (op_at s a)) msg s0 s'"
      and s0: "s0 = s \<or> s0 = set_name i name s" for x s' msg s0 name
  proof -
    have same: "busy s0 = busy s" "op_at s0 = op_at s" "sv_next_client_id s0 = sv_next_client_id s" "sv_sq s0 = sv_sq s"
      "sv_flight s0 = sv_flight s" using s0 by (auto simp: set_name_def busy_def op_at_def fun_eq_iff)
    have "sv_infos s' = sv_infos s0" using x(2) by (simp add: sent_def op_added_def mem_only_eq)
    then have "peers m (op_client_id (op_at s a)) s s'" by (intro peers_put [OF ok x(1) i]) (use s0 in \<open>auto simp: set_name_def\<close>)
    then show ?thesis using cur_sent [OF c same(1-3) x] same(3-5) by (auto simp: same_run_def)
  qed
  show ?thesis
    by (rule spec_conseq [OF spec_stop [OF handle_ok [OF ok a ci b]]]) (auto split: if_splits dest: post)
qed

text \<open>
  One turn of the loop that finds a whole header: \<open>rest\<close> is what the following turn does after a
  handled request of length \<open>len\<close>.
\<close>

lemma recv_turn_ok:
  assumes c: "cur m as a s" and l: "listening s" and t: "op_type (op_at s a) = OP_READ" and cap: "op_buf_cap (op_at s a) = 2048"
    and b: "op_buf_ref (op_at s a) = Some b" and i: "m (op_client_id (op_at s a)) = Some i" and n: "off + unat n \<le> 2048"
    and hdr: "PROT_HDR_LEN \<le> n"
    and rest: "\<And>len s' as'. \<lbrakk>len \<le> n; env_sqe env (length (sv_sq s)); length (sv_sq s') = Suc (length (sv_sq s)); cur m as' a s';
        listening s'; op_at s' a = op_at s a; same_run s s'; peers m (op_client_id (op_at s a)) s s'\<rbrakk> \<Longrightarrow>
      spec (handle_recv_loop env i a b (off + unat len) (n - len) s') stop_ok (recv_left m a s)"
  shows "spec (handle_recv_loop env i a b off n s) stop_ok (recv_left m a s)"
proof -
  have ok: "srv_ok m as s" and a: "a \<in> busy s" using c by (auto simp: cur_def)
  obtain buf where buf: "cells (sv_bufs s) b = Some buf" "length (br_buf buf) = 2048"
    by (rule busy_buf [OF ok a]) (use cap b in auto)
  have "11 \<le> length (drop off (br_buf buf))" using hdr n buf(2) by (simp add: PROT_HDR_LEN_def word_le_nat_alt)
  then obtain h where h: "deser_header (env_endian env) (drop off (br_buf buf)) = ret h" using deser_header_reads by blast
  let ?len = "ucast (hd_len h) :: 64 word"
  note turn = recv_loop_turn [OF buf(1) h hdr]
  have gone: "spec (bindC (disconnect_and_free_op env (Some i) a s) (\<lambda>s. ret (None, s))) stop_ok (recv_left m a s)"
    using c l t i by (auto simp: recv_left_def intro!: spec_stop [OF cur_disconnect [of m as]])
  consider "?len > BUFFER_SIZE_2KB" | "\<not> ?len > BUFFER_SIZE_2KB" "n < ?len" | "\<not> ?len > BUFFER_SIZE_2KB" "?len \<le> n"
    by fastforce
  then show ?thesis
  proof cases
    case 1
    then show ?thesis using turn(1) gone by simp
  next
    case 2
    then have "unat n < 2048" by (simp add: BUFFER_SIZE_2KB_def word_less_nat_alt)
    then show ?thesis unfolding turn(2) [OF 2] using c l t cap b i n by (intro recv_part_ok [OF _ _ _ buf]) simp_all
  next
    case 3
    then have "off + unat ?len \<le> length (br_buf buf)" using n buf(2) by (simp add: word_le_nat_alt)
    note hd = handle_turn [OF c l t i buf(1) this, of env "hd_msgt h" "hd_seqid h"]
    show ?thesis
      unfolding turn(3) [OF 3(1) leD [OF 3(2)]]
      by (rule spec_bindI [OF hd]) (use gone rest [OF 3(2)] in \<open>auto split: if_splits\<close>)
  qed
qed

lemma recv_loop_ok:
  assumes bounded: "\<forall>k\<ge>N. \<not> env_sqe env k"
    and "cur m as a s" and "listening s" and "op_type (op_at s a) = OP_READ" and "op_buf_cap (op_at s a) = 2048"
    and "op_buf_ref (op_at s a) = Some b" and "m (op_client_id (op_at s a)) = Some i" and "off + unat n \<le> 2048"
  shows "spec (handle_recv_loop env i a b off n s) stop_ok (recv_left m a s)"
  using assms(2-)
proof (induction "N - length (sv_sq s)" arbitrary: as s off n rule: less_induct)
  case less
  have ok: "srv_ok m as s" using less.prems(1) by (simp add: cur_def)
  show ?case
  proof (cases "PROT_HDR_LEN \<le> n")
    case False
    then have "unat n < 11" by (simp add: PROT_HDR_LEN_def word_le_nat_alt)
    then show ?thesis
      using False less.prems peers_same [OF ok refl] by (subst handle_recv_loop.simps) (auto simp: recv_left_def same_run_def)
  next
    case True
    show ?thesis
    proof (rule recv_turn_ok [OF less.prems True])
      fix len s' as'
      assume r: "len \<le> n" "env_sqe env (length (sv_sq s))" "length (sv_sq s') = Suc (length (sv_sq s))" "cur m as' a s'" "listening s'"
        "op_at s' a = op_at s a" "same_run s s'" "peers m (op_client_id (op_at s a)) s s'"
      have "unat (n - len) = unat n - unat len" "unat len \<le> unat n" using r(1) by (simp_all add: unat_sub word_le_nat_alt)
      moreover have "length (sv_sq s) < N" using bounded r(2) by (meson not_le)
      ultimately have "spec (handle_recv_loop env i a b (off + unat len) (n - len) s') stop_ok (recv_left m a s')"
        using r less.prems by (intro less.hyps [of s' as']) auto
      then show "spec (handle_recv_loop env i a b (off + unat len) (n - len) s') stop_ok (recv_left m a s)"
        by (rule spec_conseq) (rule recv_left_trans [OF r(7,6,8)])
    qed
  qed
qed

text \<open>\<open>handle_recv\<close> on a completion that reports \<open>n\<close> bytes.\<close>

lemma handle_recv_ok:
  assumes bounded: "\<forall>k\<ge>N. \<not> env_sqe env k"
    and c: "cur m as a s" and l: "listening s" and t: "op_type (op_at s a) = OP_READ" and cap: "op_buf_cap (op_at s a) = 2048"
    and i: "m (op_client_id (op_at s a)) = Some i" and n: "unat n \<le> 2048"
  shows "spec (handle_recv env i a n s) stop_ok (served m a s)"
proof (cases "n = 0")
  case True
  then show ?thesis using spec_stop [OF cur_disconnect [OF c l _ i]] t by (simp add: handle_recv_def)
next
  case False
  have ok: "srv_ok m as s" and a: "a \<in> busy s" using c by (auto simp: cur_def)
  obtain b where b: "op_buf_ref (op_at s a) = Some b" using busy_buf [OF ok a] by metis
  have resume: "spec (resume_recv env a n' s') stop_ok (served m a s)"
    if "unat n' < 2048" "same_run s s'" "listening s'" "op_at s' a = op_at s a" "cur m as' a s'" "peers m (op_client_id (op_at s a)) s s'" for n' s' as'
  proof -
    have "srv_ok m as' s'" "a \<in> busy s'" "a \<notin> set as'" using that(5) by (auto simp: cur_def)
    note r = spec_stop [OF resume_recv_ok [OF this, of n' env]]
    show ?thesis
      by (rule spec_conseq [OF r]) (use that t cap in \<open>auto intro!: served_trans [OF that(2) _ that(6)] elim!: armed_served [OF that(5,3)]\<close>)
  qed
  have "spec (handle_recv_loop env i a b 0 n s) stop_ok (\<lambda>(left, s'). spec (case left of None \<Rightarrow> ret s' | Some n' \<Rightarrow> resume_recv env a n' s')
      stop_ok (served m a s))"
    by (rule spec_conseq [OF recv_loop_ok [OF bounded c l t cap b i]]) (use n resume in \<open>auto simp: recv_left_def split: option.splits\<close>)
  then show ?thesis
    using False busy_op [OF ok a] b by (simp add: handle_recv_def get_op_def case_prod_unfold)
qed

section \<open>Sending\<close>

text \<open>What is left of the message is sent next, or the operation is freed.\<close>

definition send_step :: "nat \<Rightarrow> nat \<Rightarrow> server \<Rightarrow> server \<Rightarrow> bool" where
  "send_step a n s s' \<longleftrightarrow> (let op = op_at s a; off = unat (op_processed op) + n in
     if off < unat (op_buf_len op)
     then a \<in> busy s' \<and> sv_bufs s' = sv_bufs s \<and> sv_clients s' = sv_clients s \<and> sv_infos s' = sv_infos s \<and>
       op_pool_id (op_at s' a) = op_pool_id op \<and> op_client_id (op_at s' a) = op_client_id op \<and> (\<exists>b len. op_buf_ref op = Some b \<and> unat len = unat (op_buf_len op) - off \<and>
       sv_sq s' = sv_sq s @ [\<lparr>sqe_data = op_pool_id op, sqe_req = Send (op_client_fd op) b off len\<rparr>])
     else a \<notin> busy s' \<and> sv_sq s' = sv_sq s)"

lemma send_step_ok:
  assumes c: "cur m as a s" and l: "listening s" and t: "op_type (op_at s a) = OP_WRITE" and cap: "op_buf_cap (op_at s a) = 64"
    and len: "unat (op_buf_len (op_at s a)) \<le> 64" "unat (op_processed (op_at s a)) + unat n \<le> unat (op_buf_len (op_at s a))"
  shows "spec (bindC (get_op s a) (\<lambda>op. if op_is_incomplete op n then resume_send env a n s else free_op a s)) is_exit
    (\<lambda>s'. served m a s s' \<and> sv_closed s' = sv_closed s \<and> send_step a (unat n) s s')"
    (is "spec _ _ ?post")
proof -
  have ok: "srv_ok m as s" and a: "a \<in> busy s" "a \<notin> set as" using c by (auto simp: cur_def)
  let ?rest = "unat (op_buf_len (op_at s a)) - unat (op_processed (op_at s a))"
  have "op_processed (op_at s a) \<le> op_buf_len (op_at s a)" using len(2) by (simp add: word_le_nat_alt)
  then have inc: "op_is_incomplete (op_at s a) n \<longleftrightarrow> unat (op_processed (op_at s a)) + unat n < unat (op_buf_len (op_at s a))"
    by (auto simp: op_is_incomplete_def word_less_nat_alt unat_sub)
  have "spec (resume_send env a n s) is_exit ?post" if "op_is_incomplete (op_at s a) n"
  proof (rule spec_conseq [OF resume_send_ok [OF ok a cap t len]], elim conjE exE)
    fix s' b len'
    assume s': "srv_ok m (as @ [a]) s'" "op_buf_ref (op_at s a) = Some b"
      "unat len' = unat (op_buf_len (op_at s a)) - unat (op_processed (op_at s a)) - unat n"
      and arm: "armed a ((op_at s a)\<lparr>op_processed := op_processed (op_at s a) + n\<rparr>)
        (Send (op_client_fd (op_at s a)) b (unat (op_processed (op_at s a)) + unat n) len') s s'"
    have "served m a s s'" using armed_served [OF c l s'(1) arm] by simp
    then show "?post s'" using arm s' a(1) that inc by (auto simp: armed_def mem_only_eq send_step_def Let_def)
  qed
  moreover have "spec (free_op a s) is_exit ?post" if "\<not> op_is_incomplete (op_at s a) n"
  proof (rule spec_conseq [OF free_op_ok [OF ok a]], elim conjE)
    fix s' assume s': "srv_ok m as s'" "busy s' = busy s - {a}" "mem_only s s'" "sv_sq s' = sv_sq s" "\<forall>x. x \<noteq> a \<longrightarrow> op_at s' x = op_at s x"
    then have "moved s s'" using t by (intro cur_freed [OF c l]) (auto simp: mem_only_eq same_run_def)
    then have "served m a s s'" using peers_same [OF s'(1)] s'(3) by (simp add: served_def mem_only_eq)
    then show "?post s'" using s' that inc by (simp add: mem_only_eq send_step_def Let_def)
  qed
  ultimately show ?thesis using busy_op [OF ok a(1)] by (simp add: get_op_def)
qed

lemma handle_send_ok:
  assumes c: "cur m as a s" and l: "listening s" and t: "op_type (op_at s a) = OP_WRITE" and cap: "op_buf_cap (op_at s a) = 64"
    and i: "m (op_client_id (op_at s a)) = Some i"
    and len: "unat (op_buf_len (op_at s a)) \<le> 64" "unat (op_processed (op_at s a)) + unat n \<le> unat (op_buf_len (op_at s a))"
  shows "spec (handle_send env i a n s) is_exit (\<lambda>s'. served m a s s' \<and> sv_closed s' = sv_closed s \<and> send_step a (unat n) s s')"
proof -
  have ok: "srv_ok m as s" using c by (simp add: cur_def)
  obtain ci where ci: "cells (sv_infos s) i = Some ci" using cm_rep_live [OF srv_okD(2) [OF ok] i] by metis
  let ?s = "s\<lparr>sv_log := sv_log s @ [log_entry ci ''SHORT_WRITE_0'']\<rparr>"
  have s: "cur m as a ?s" "listening ?s" "served m a ?s = served m a s" "send_step a (unat n) ?s = send_step a (unat n) s"
    using cur_same [OF c l, of ?s] ok by (auto simp: served_def peers_def moved_def send_step_def fun_eq_iff)
  from send_step_ok [OF s(1,2), of n env] send_step_ok [OF c l, of n env] show ?thesis
    using s(3,4) t cap len log_ok [OF ok ci] by (cases "n = 0") (simp_all add: handle_send_def)
qed

section \<open>Accepting\<close>

lemma word_next: "k < n \<Longrightarrow> n \<noteq> - 1 \<Longrightarrow> k < n + 1" "n \<noteq> - 1 \<Longrightarrow> n < n + 1" for n k :: "64 word"
proof -
  have "unat (n + 1) = unat n + 1" if "n \<noteq> - 1"
    using that unat_lt_64 [of n] by (metis add_eq_0_iff2 unatSuc Suc_eq_plus1 add.commute)
  then show "k < n \<Longrightarrow> n \<noteq> - 1 \<Longrightarrow> k < n + 1" "n \<noteq> - 1 \<Longrightarrow> n < n + 1" by (simp_all add: word_less_nat_alt)
qed

text \<open>The new accept takes the next id; the operation that accepted before now receives.\<close>

lemma accepting_inv:
  assumes ids: "ids_ok m s" and others: "\<And>x. x \<in> busy s \<Longrightarrow> op_type (op_at s x) \<noteq> OP_ACCEPT"
    and room: "sv_next_client_id s \<noteq> - 1" and all: "busy s = set as" and acc: "accepting m as (sv_next_client_id s) s s'"
  shows "moved s (s'\<lparr>sv_next_client_id := sv_next_client_id s' + 1\<rparr>)"
proof -
  let ?k = "sv_next_client_id s" and ?s = "s'\<lparr>sv_next_client_id := sv_next_client_id s' + 1\<rparr>"
  obtain a i where a: "srv_ok (m(?k \<mapsto> i)) (as @ [a]) s'" "a \<notin> busy s" "busy s' = insert a (busy s)"
    "\<forall>x\<in>busy s. op_at s' x = op_at s x" "op_type (op_at s' a) = OP_ACCEPT" "op_client_id (op_at s' a) = ?k"
    "sv_next_client_id s' = ?k" "sv_flight s' = sv_flight s"
    using acc by (auto simp: accepting_def)
  have lt: "k < ?k + 1" if "k < ?k \<or> k = ?k" for k using that room word_next by blast
  have "op_client_id (op_at s x) < ?k" if "x \<in> busy s" for x using ids that by (simp add: ids_ok_def)
  then have "ids_ok (m(?k \<mapsto> i)) ?s"
    using ids others a lt unfolding ids_ok_def by (auto dest!: order.strict_implies_not_eq)
  moreover have "listening ?s" using a by (auto simp: listening_def)
  ultimately have "srv_inv ?s"
    unfolding srv_inv_def using a(1,3) all by (intro exI [of _ "m(?k \<mapsto> i)"] exI [of _ "as @ [a]"]) simp
  then show ?thesis using a(7,8) by (simp add: moved_def)
qed

lemma accepting_peers:
  assumes "accepting m as n s s'" and "m n = None"
  shows "peers m k s (s'\<lparr>sv_next_client_id := sv_next_client_id s' + 1\<rparr>)"
proof -
  obtain i b where i: "srv_ok (m(n \<mapsto> i)) (as @ [b]) s'" "\<forall>x\<in>ran m. cells (sv_infos s') x = cells (sv_infos s) x"
    using assms(1) by (auto simp: accepting_def)
  show ?thesis
    by (rule peersI [of "m(n \<mapsto> i)" "as @ [b]"]) (use i assms(2) ranI [of m] in \<open>auto simp: profile_def\<close>)
qed

text \<open>The accepting operation turned into a receive: no operation accepts any more.\<close>

lemma accepted_recv_ok:
  assumes ok: "srv_ok m as s" and a: "a \<in> busy s" "a \<notin> set as" and ids: "ids_ok m s"
    and cap: "op_buf_cap (op_at s a) = 2048" and t: "op_type (op_at s a) = OP_ACCEPT"
  shows "spec (add_recv env a fd s) is_exit (\<lambda>s'. srv_ok m (as @ [a]) s' \<and> busy s' = busy s \<and> ids_ok m s' \<and>
    same_run s s' \<and> (\<forall>x\<in>busy s'. op_type (op_at s' x) \<noteq> OP_ACCEPT) \<and> sv_infos s' = sv_infos s)"
proof (rule spec_conseq [OF add_recv_ok [OF ok]])
  fix s' assume "env_sqe env (length (sv_sq s)) \<and> srv_ok m (as @ [a]) s' \<and> (\<exists>b. op_buf_ref (op_at s a) = Some b \<and>
    armed a ((op_at s a)\<lparr>op_client_fd := fd, op_type := OP_READ\<rparr>) (Recv fd b 0 2048) s s')"
  then have s': "srv_ok m (as @ [a]) s'" "busy s' = busy s" "sv_next_client_id s' = sv_next_client_id s" "same_run s s'"
    "sv_infos s' = sv_infos s" "op_at s' = (op_at s)(a := (op_at s a)\<lparr>op_client_fd := fd, op_type := OP_READ\<rparr>)"
    by (auto simp: armed_def mem_only_eq same_run_def)
  have "op_type (op_at s x) \<noteq> OP_ACCEPT" if "x \<in> busy s" "x \<noteq> a" for x
    using ids that a(1) t unfolding ids_ok_def by blast
  then have "op_type (op_at s' x) \<noteq> OP_ACCEPT" if "x \<in> busy s" for x using that s'(6) by simp
  moreover have "op_client_id (op_at s' x) = op_client_id (op_at s x)" for x using s'(6) by simp
  moreover have "k < sv_next_client_id s'" if "k \<in> dom m" for k using that ids s'(3) by (simp add: ids_ok_def)
  moreover have "op_client_id (op_at s x) < sv_next_client_id s'" if "x \<in> busy s" for x
    using that ids s'(3) by (simp add: ids_ok_def)
  ultimately have "ids_ok m s'" "\<forall>x\<in>busy s'. op_type (op_at s' x) \<noteq> OP_ACCEPT"
    using s'(2) by (simp_all add: ids_ok_def)
  then show "srv_ok m (as @ [a]) s' \<and> busy s' = busy s \<and> ids_ok m s' \<and>
      same_run s s' \<and> (\<forall>x\<in>busy s'. op_type (op_at s' x) \<noteq> OP_ACCEPT) \<and> sv_infos s' = sv_infos s"
    using s'(1-5) by blast
qed (use a cap in simp_all)

lemma handle_accept_ok:
  assumes c: "cur m as a s" and t: "op_type (op_at s a) = OP_ACCEPT" and cap: "op_buf_cap (op_at s a) = 2048"
    and i: "m (op_client_id (op_at s a)) = Some i" and room: "sv_next_client_id s \<noteq> - 1"
  shows "spec (handle_accept env fd i a s) is_exit (served m a s)"
proof -
  have ok: "srv_ok m as s" and a: "a \<in> busy s" "a \<notin> set as" and bz: "busy s = insert a (set as)" and ids: "ids_ok m s"
    using c by (auto simp: cur_def)
  obtain ci where ci: "cells (sv_infos s) i = Some ci" using cm_rep_live [OF srv_okD(2) [OF ok] i] by metis
  let ?ci = "ci\<lparr>ci_client_fd := fd\<rparr>"
  define s1 where "s1 = s\<lparr>sv_infos := (sv_infos s)\<lparr>cells := (cells (sv_infos s))(i \<mapsto> ?ci)\<rparr>\<rparr>"
  define s2 where "s2 = s1\<lparr>sv_log := sv_log s1 @ [log_entry ?ci ''connected'']\<rparr>"
  have s1: "put_info i ?ci s = ret s1" "srv_ok m as s1" "busy s1 = busy s" "op_at s1 = op_at s"
    using put_info_ok [OF ok ci, of ?ci] infos_ok_cell [OF srv_okD(3) [OF ok] ci] by (simp_all add: s1_def)
  have log: "log_with_client_info env i ''connected'' s1 = ret s2"
    unfolding s2_def by (rule log_ok [OF s1(2)]) (simp add: s1_def)
  have s2: "srv_ok m as s2" "busy s2 = busy s" "op_at s2 = op_at s" "sv_next_client_id s2 = sv_next_client_id s"
    "sv_flight s2 = sv_flight s" using s1 by (simp_all add: s2_def) (simp_all add: s1_def)
  have recv: "spec (add_recv env a fd s2) is_exit (\<lambda>s3. srv_ok m (as @ [a]) s3 \<and> busy s3 = busy s \<and> ids_ok m s3 \<and>
      same_run s s3 \<and> (\<forall>x\<in>busy s3. op_type (op_at s3 x) \<noteq> OP_ACCEPT) \<and> sv_infos s3 = sv_infos s1)"
  proof (rule spec_conseq [OF accepted_recv_ok [OF s2(1)]])
    show "ids_ok m s2" using ids s2(2-4) by (simp add: ids_ok_def)
  qed (use s2 a cap t in \<open>auto simp: same_run_def s2_def\<close>)
  have fresh: "m (sv_next_client_id s) = None" using ids by (auto simp: ids_ok_def)
  have "spec (bindC (add_accept env (sv_next_client_id s3) s3) (\<lambda>s. ret (s\<lparr>sv_next_client_id := sv_next_client_id s + 1\<rparr>))) is_exit (served m a s)"
    if s3: "srv_ok m (as @ [a]) s3" "busy s3 = busy s" "ids_ok m s3" "same_run s s3"
      "\<forall>x\<in>busy s3. op_type (op_at s3 x) \<noteq> OP_ACCEPT" "sv_infos s3 = sv_infos s1" for s3
  proof -
    have "peers m (op_client_id (op_at s a)) s s3" by (rule peers_put [OF ok s3(1) i]) (simp add: s3(6) s1_def)
    then have "served m a s (s'\<lparr>sv_next_client_id := sv_next_client_id s' + 1\<rparr>)" if "accepting m (as @ [a]) (sv_next_client_id s3) s3 s'" for s'
      using accepting_inv [OF s3(3) _ _ _ that] peers_trans accepting_peers [OF that] s3 fresh room bz
      by (auto simp: served_def same_run_def intro!: same_run_moved [OF s3(4)])
    then show ?thesis
      using add_accept_ok [OF s3(1), of "sv_next_client_id s3" env] fresh s3(4) by (auto simp: same_run_def elim!: spec_conseq)
  qed
  then show ?thesis
    using s1(1) log ci recv by (auto simp: handle_accept_def get_info_def elim!: spec_conseq)
qed

end
