(* ===== verification/Server_Run.thy ===== *)
theory Server_Run
  imports Server_Handlers
begin

text \<open>
  The event loop. A completion is legal when it belongs to an entry in flight and reports what the
  kernel documents for its request: an address of 16 bytes, at most as many bytes as were asked for,
  or an error. From a state of the invariant a legal completion is delivered and handled without any
  fault but those of \<open>stop_ok\<close>; rounds of the loop, and with them \<open>server_start\<close>, keep the invariant.
\<close>

section \<open>Legal completions\<close>

definition legal_cqe :: "sqe list \<Rightarrow> cqe \<Rightarrow> bool" where
  "legal_cqe flight c \<longleftrightarrow> (case find (\<lambda>q. sqe_data q = cqe_data c) flight of
       None \<Rightarrow> False
     | Some q \<Rightarrow> cqe_res c < 0 \<or> (case sqe_req q of
           Accept fd i \<Rightarrow> length (cqe_bytes c) = 16
         | Recv fd b off len \<Rightarrow> cqe_res c = int (length (cqe_bytes c)) \<and> length (cqe_bytes c) \<le> unat len
         | Send fd b off len \<Rightarrow> nat (cqe_res c) \<le> unat len))"

text \<open>What the handlers rely on: the queue is finite, closing the descriptor -1 fails.\<close>

definition env_ok :: "nat \<Rightarrow> env \<Rightarrow> bool" where
  "env_ok N env \<longleftrightarrow> (\<forall>k\<ge>N. \<not> env_sqe env k) \<and> env_close env (- 1) < 0"

section \<open>Delivering\<close>

lemma cur_entry:
  assumes inv: "srv_inv s" and q: "q \<in> set (sv_flight s)"
  defines "s' \<equiv> s\<lparr>sv_flight := remove1 q (sv_flight s)\<rparr>"
  obtains m as a where "cur m as a s'" "listening s'" "sqe_data q = op_pool_id (op_at s' a)"
    "request_ok (sv_server_fd s') m (op_at s' a) (sqe_req q)"
proof -
  from inv obtain m as where ok: "srv_ok m as s" and bz: "busy s = set as" and ids: "ids_ok m s" and l: "listening s"
    by (auto simp: srv_inv_def)
  obtain us vs where uv: "sv_flight s = us @ q # vs" "q \<notin> set us" using q by (meson split_list_first)
  have all: "list_all2 (entry_ok s m) as (us @ q # vs @ sv_sq s)" using srv_okD(6) [OF ok] uv by (simp add: pend_def)
  then obtain xs zs where z: "as = xs @ zs" "list_all2 (entry_ok s m) xs us" "list_all2 (entry_ok s m) zs (q # vs @ sv_sq s)"
    by (meson list_all2_append2)
  from z(3) obtain a ys where "zs = a # ys" "entry_ok s m a q" "list_all2 (entry_ok s m) ys (vs @ sv_sq s)"
    unfolding list_all2_Cons2 by blast
  with z have as: "as = xs @ a # ys" "list_all2 (entry_ok s m) xs us" "entry_ok s m a q"
    "list_all2 (entry_ok s m) ys (vs @ sv_sq s)" by simp_all
  have same: "busy s' = busy s" "op_at s' = op_at s" "srv_mem {} s' = srv_mem {} s"
    using srv_mem_fields [of s' s] by (simp_all add: s'_def op_at_def fun_eq_iff)
  have "entry_ok s' m = entry_ok s m" using same by (simp add: entry_ok_def s'_def fun_eq_iff)
  moreover have "pend s' = us @ vs @ sv_sq s" using uv by (simp add: s'_def pend_def remove1_append)
  ultimately have "list_all2 (entry_ok s' m) (xs @ ys) (pend s')" using as by (simp add: list_all2_appendI)
  then have "srv_ok m (xs @ ys) s'" using ok as(1) same by (auto simp: srv_ok_def) (simp_all add: s'_def)
  moreover have "ids_ok m s'" "listening s'" using ids l same by (simp_all add: ids_ok_def listening_def) (simp_all add: s'_def ids_ok_def)
  ultimately have "cur m (xs @ ys) a s'" using srv_okD(4) [OF ok] as(1) bz same by (auto simp: cur_def)
  then show thesis using \<open>listening s'\<close> as(3) same by (intro that) (auto simp: entry_ok_def s'_def)
qed


text \<open>The completion finds its operation again under the user data.\<close>

lemma busy_get:
  assumes ok: "srv_ok m as s" and a: "a \<in> busy s"
  shows "op_pool_get (sv_pool s) (op_pool_id (op_at s a)) = ret (Some a)"
proof -
  have "pool_inv (sv_pool s, sv_ops s)" "a \<in> pool_known (sv_pool s, sv_ops s)"
    using srv_okD(1) [OF ok] a by (auto simp: srv_mem_def pool_clean_def busy_def)
  then show ?thesis by (rule pool_get_known) (simp add: op_at_def)
qed

text \<open>The kernel's writes for a completion, when its operation \<open>a\<close> is the only one without an entry.\<close>

lemma deliver_cur:
  assumes q: "find (\<lambda>q. sqe_data q = cqe_data c) (sv_flight s) = Some q" and legal: "legal_cqe (sv_flight s) c"
  defines "s0 \<equiv> s\<lparr>sv_flight := remove1 q (sv_flight s)\<rparr>"
  assumes cur: "cur m as a s0" and rq: "request_ok (sv_server_fd s0) m (op_at s0 a) (sqe_req q)"
  shows "\<exists>s1. deliver c s = ret s1 \<and> srv_ok m as s1 \<and> busy s1 = busy s0 \<and> op_at s1 = op_at s0 \<and>
    sv_server_fd s1 = sv_server_fd s0 \<and> same_run s0 s1 \<and> peers m (op_client_id (op_at s0 a)) s0 s1"
proof (cases "cqe_res c < 0")
  have ok: "srv_ok m as s0" using cur by (simp add: cur_def)
  case True
  then show ?thesis using q ok peers_same [OF ok refl] by (auto simp: deliver_def same_run_def Let_def simp flip: s0_def)
next
  have ok: "srv_ok m as s0" and a: "a \<in> busy s0" using cur by (auto simp: cur_def)
  case False
  show ?thesis
  proof (cases "sqe_req q")
    case (Accept fd i)
    then have i: "m (op_client_id (op_at s0 a)) = Some i" using rq by simp
    then obtain ci where ci: "cells (sv_infos s0) i = Some ci" using cm_rep_live [OF srv_okD(2) [OF ok]] by metis
    let ?ci = "ci\<lparr>ci_client_addr := cqe_bytes c\<rparr>"
    have "length (cqe_bytes c) = 16" using legal q Accept False by (simp add: legal_cqe_def)
    then have "info_sized ?ci" using infos_ok_cell [OF srv_okD(3) [OF ok] ci] by (simp add: info_sized_def)
    then have p: "put_info i ?ci s0 = ret (s0\<lparr>sv_infos := (sv_infos s0)\<lparr>cells := (cells (sv_infos s0))(i \<mapsto> ?ci)\<rparr>\<rparr>)"
      "srv_ok m as (s0\<lparr>sv_infos := (sv_infos s0)\<lparr>cells := (cells (sv_infos s0))(i \<mapsto> ?ci)\<rparr>\<rparr>)"
      using put_info_ok [OF ok ci, of ?ci] by simp_all
    then show ?thesis
      using q False Accept ci peers_put [OF ok p(2) i]
      by (simp add: deliver_def get_info_def hget_def same_run_def Let_def busy_def op_at_def fun_eq_iff flip: s0_def)
  next
    case (Recv fd b off len)
    then have r: "op_buf_ref (op_at s0 a) = Some b" "op_buf_cap (op_at s0 a) = 2048" "off + unat len = 2048" using rq by auto
    obtain buf where buf: "cells (sv_bufs s0) b = Some buf" "length (br_buf buf) = 2048"
      by (rule busy_buf [OF ok a]) (use r in auto)
    have "length (cqe_bytes c) \<le> unat len" using legal q Recv False by (simp add: legal_cqe_def)
    then have fit: "off + length (cqe_bytes c) \<le> length (br_buf buf)" using r(3) buf(2) by simp
    let ?b = "take off (br_buf buf) @ cqe_bytes c @ drop (off + length (cqe_bytes c)) (br_buf buf)"
    have "length ?b = length (br_buf buf)" using fit by simp
    note p = srv_ok_put_buf [OF ok buf(1) this]
    then show ?thesis
      using q False Recv buf fit peers_same [OF p(2)]
      by (simp add: deliver_def get_buf_def hget_def bwrite_def same_run_def mem_only_eq Let_def flip: s0_def)
  next
    case (Send fd b off len)
    then show ?thesis using q False ok peers_same [OF ok refl] by (auto simp: deliver_def same_run_def Let_def simp flip: s0_def)
  qed
qed

lemma deliver_ok:
  assumes inv: "srv_inv s" and legal: "legal_cqe (sv_flight s) c"
  obtains q m as a s1 where "find (\<lambda>q. sqe_data q = cqe_data c) (sv_flight s) = Some q" "deliver c s = ret s1"
    "cur m as a s1" "listening s1" "cqe_data c = op_pool_id (op_at s1 a)"
    "request_ok (sv_server_fd s1) m (op_at s1 a) (sqe_req q)"
    "sv_flight s1 = remove1 q (sv_flight s)" "sv_next_client_id s1 = sv_next_client_id s"
    "op_at s1 = op_at s" "peers m (op_client_id (op_at s a)) s s1" "\<And>j. client_map_get (sv_clients s) (sv_infos s) j = ret (m j)"
    "busy s1 = busy s"
proof -
  from legal obtain q where q: "find (\<lambda>q. sqe_data q = cqe_data c) (sv_flight s) = Some q"
    by (auto simp: legal_cqe_def split: option.splits)
  then have qd: "q \<in> set (sv_flight s)" "sqe_data q = cqe_data c" by (auto simp: find_Some_iff in_set_conv_nth)
  define s0 where "s0 = s\<lparr>sv_flight := remove1 q (sv_flight s)\<rparr>"
  obtain m as a where cur: "cur m as a s0" "listening s0" and d: "sqe_data q = op_pool_id (op_at s0 a)"
    and rq: "request_ok (sv_server_fd s0) m (op_at s0 a) (sqe_req q)"
    using cur_entry [OF inv qd(1)] unfolding s0_def by metis
  obtain s1 where s1: "deliver c s = ret s1" "srv_ok m as s1" "busy s1 = busy s0" "op_at s1 = op_at s0"
    "sv_server_fd s1 = sv_server_fd s0" "same_run s0 s1" "peers m (op_client_id (op_at s0 a)) s0 s1"
    using deliver_cur [OF q legal, folded s0_def, OF cur(1) rq] by blast
  have ok: "srv_ok m as s0" using cur(1) by (simp add: cur_def)
  have s0: "op_at s0 = op_at s" "sv_clients s0 = sv_clients s" "sv_infos s0 = sv_infos s" "busy s0 = busy s"
    by (simp_all add: s0_def op_at_def busy_def fun_eq_iff)
  have m: "client_map_get (sv_clients s) (sv_infos s) j = ret (m j)" for j using cm_get [OF srv_okD(2) [OF ok]] s0 by simp
  have peers: "peers m (op_client_id (op_at s a)) s s1" using s1(7) s0 by (simp add: peers_def)
  have "cur m as a s1" "listening s1" using cur_same [OF cur, of s1] s1 by (simp_all add: same_run_def)
  then show thesis
    by (rule that [OF q s1(1) _ _ _ _ _ _ _ peers m]) (use d qd(2) rq s1 s0(1,4) in \<open>simp_all add: same_run_def s0_def\<close>)
qed

section \<open>Handling\<close>

lemma handle_cqe_failed:
  assumes env: "env_ok N env" and c: "cur m as a s" and l: "listening s"
    and rq: "request_ok (sv_server_fd s) m (op_at s a) rq"
  shows "spec (disconnect_and_free_op env (m (op_client_id (op_at s a))) a s) is_exit (served m a s)"
proof (cases "m (op_client_id (op_at s a))")
  case None
  have ok: "srv_ok m as s" and a: "a \<in> busy s" "a \<notin> set as" using c by (auto simp: cur_def)
  have "op_type (op_at s a) \<noteq> OP_ACCEPT" using rq None by (cases rq) auto
  then show ?thesis
    using None by (auto simp: disconnect_and_free_op_def mem_only_eq same_run_def served_def peers_same
        intro!: spec_conseq [OF free_op_ok [OF ok a]] cur_freed [OF c l])
next
  case (Some i)
  have ok: "srv_ok m as s" and a: "a \<in> busy s" using c by (auto simp: cur_def)
  obtain ci where ci: "cells (sv_infos s) i = Some ci" using cm_rep_live [OF srv_okD(2) [OF ok] Some] by metis
  show ?thesis
  proof (cases "op_type (op_at s a) = OP_ACCEPT")
    case True
    then have "op_client_fd (op_at s a) = - 1" using rq by (cases rq) auto
    then show ?thesis
      using env Some log_ok [OF ok ci] busy_op [OF ok a]
      by (simp add: disconnect_and_free_op_def get_op_def must_close_def fatal_error_def env_ok_def)
  next
    case False
    then show ?thesis using cur_disconnect [OF c l False Some] Some by simp
  qed
qed

lemma handle_cqe_eq:
  assumes c: "cur m as a s" and d: "cqe_data ce = op_pool_id (op_at s a)"
  shows "handle_cqe env ce s = (if cqe_res ce < 0 then disconnect_and_free_op env (m (op_client_id (op_at s a))) a s
      else case m (op_client_id (op_at s a)) of None \<Rightarrow> free_op a s | Some i \<Rightarrow> (case op_type (op_at s a) of
          OP_ACCEPT \<Rightarrow> handle_accept env (cqe_res ce) i a s
        | OP_READ \<Rightarrow> handle_recv env i a (of_int (cqe_res ce)) s
        | OP_WRITE \<Rightarrow> handle_send env i a (of_int (cqe_res ce)) s))"
proof -
  have ok: "srv_ok m as s" and a: "a \<in> busy s" using c by (auto simp: cur_def)
  show ?thesis
    using busy_get [OF ok a] d cm_get [OF srv_okD(2) [OF ok]] busy_op [OF ok a]
    by (simp add: handle_cqe_def assertC_def ptr_def get_op_def hget_def)
qed

lemma handle_cqe_cur:
  assumes env: "env_ok N env" and c: "cur m as a s" and l: "listening s"
    and d: "cqe_data ce = op_pool_id (op_at s a)" and rq: "request_ok (sv_server_fd s) m (op_at s a) rq"
    and res: "cqe_res ce < 0 \<or> (case rq of Accept fd i \<Rightarrow> True | Recv fd b off len \<Rightarrow> nat (cqe_res ce) \<le> unat len
      | Send fd b off len \<Rightarrow> nat (cqe_res ce) \<le> unat len)"
    and room: "sv_next_client_id s \<noteq> - 1"
  shows "spec (handle_cqe env ce s) stop_ok (served m a s)"
proof -
  have ok: "srv_ok m as s" and a: "a \<in> busy s" "a \<notin> set as" using c by (auto simp: cur_def)
  let ?k = "op_client_id (op_at s a)"
  note eq = handle_cqe_eq [OF c d, of env]
  have failed: "spec (disconnect_and_free_op env (m ?k) a s) stop_ok (served m a s)"
    by (rule spec_stop [OF handle_cqe_failed [OF env c l rq]])
  show ?thesis
  proof (cases "cqe_res ce < 0 \<or> m ?k = None")
    case True
    then show ?thesis using eq failed by (auto simp: disconnect_and_free_op_def)
  next
    case False
    then obtain i where i: "m ?k = Some i" and pos: "0 \<le> cqe_res ce" by auto
    have n: "unat (of_int (cqe_res ce) :: 64 word) = nat (cqe_res ce)" if "nat (cqe_res ce) \<le> 2048"
      using that pos unat_of_nat_64 [of "nat (cqe_res ce)"] by (simp add: of_nat_nat)
    note eqs = eq i pos
    show ?thesis
    proof (cases rq)
      case (Accept fd i')
      then show ?thesis
        using eqs rq spec_stop [OF handle_accept_ok [OF c _ _ i room]] by simp
    next
      case (Recv fd b off len)
      then have "nat (cqe_res ce) \<le> 2048" using rq res pos by auto
      then show ?thesis
        using Recv eqs rq n env handle_recv_ok [of N env m as a s i "of_int (cqe_res ce)", OF _ c l _ _ i]
        by (simp add: env_ok_def)
    next
      case (Send fd b off len)
      then have "nat (cqe_res ce) \<le> 64" "unat (op_processed (op_at s a)) + nat (cqe_res ce) \<le> unat (op_buf_len (op_at s a))"
        using rq res pos by auto
      then show ?thesis
        using Send eqs rq n by (auto intro!: spec_conseq [OF spec_stop [OF handle_send_ok [OF c l _ _ i]]])
    qed
  qed
qed


section \<open>Rounds\<close>

fun legal_cqes :: "sqe list \<Rightarrow> cqe list \<Rightarrow> bool" where
  "legal_cqes flight [] \<longleftrightarrow> True"
| "legal_cqes flight (c # cs) \<longleftrightarrow> legal_cqe flight c \<and>
     legal_cqes (remove1 (the (find (\<lambda>q. sqe_data q = cqe_data c) flight)) flight) cs"

fun round_cqes :: "wait_result \<times> peek_result \<Rightarrow> cqe list" where
  "round_cqes (Wait_error, pk) = []"
| "round_cqes (Waited c, Peeked cs) = c # cs"
| "round_cqes (Waited c, pk) = [c]"

primrec cqe_count :: "(wait_result \<times> peek_result) list \<Rightarrow> nat" where
  "cqe_count [] = 0"
| "cqe_count (r # rs) = length (round_cqes r) + cqe_count rs"

text \<open>
  Every round of a run meets a state in which its completions are legal. A run that has stopped
  asks for nothing more.
\<close>

fun legal_run :: "env \<Rightarrow> (wait_result \<times> peek_result) list \<Rightarrow> server \<Rightarrow> bool" where
  "legal_run env [] s \<longleftrightarrow> True"
| "legal_run env (r # rs) s \<longleftrightarrow> legal_cqes (sv_flight s) (round_cqes r) \<and>
     (case server_round env r s of Some (Inr s') \<Rightarrow> legal_run env rs s' | _ \<Rightarrow> True)"

lemma take_cqe_ok:
  assumes env: "env_ok N env" and inv: "srv_inv s" and legal: "legal_cqe (sv_flight s) c" and room: "sv_next_client_id s \<noteq> - 1"
  shows "spec (bindC (deliver c s) (handle_cqe_batch env [c])) stop_ok (\<lambda>s'. srv_inv s' \<and>
    sv_flight s' = remove1 (the (find (\<lambda>q. sqe_data q = cqe_data c) (sv_flight s))) (sv_flight s) \<and>
    (sv_next_client_id s' = sv_next_client_id s \<or> sv_next_client_id s' = sv_next_client_id s + 1))"
proof -
  obtain q m as a s1 where q: "find (\<lambda>q. sqe_data q = cqe_data c) (sv_flight s) = Some q" and s1: "deliver c s = ret s1"
    "cur m as a s1" "listening s1" "cqe_data c = op_pool_id (op_at s1 a)"
    "request_ok (sv_server_fd s1) m (op_at s1 a) (sqe_req q)"
    "sv_flight s1 = remove1 q (sv_flight s)" "sv_next_client_id s1 = sv_next_client_id s"
    using deliver_ok [OF inv legal] by metis
  have "cqe_res c < 0 \<or> (case sqe_req q of Accept fd i \<Rightarrow> True | Recv fd b off len \<Rightarrow> nat (cqe_res c) \<le> unat len
      | Send fd b off len \<Rightarrow> nat (cqe_res c) \<le> unat len)"
    using legal q by (auto simp: legal_cqe_def split: request.splits)
  from handle_cqe_cur [OF env s1(2-5) this] room s1(7) have "spec (handle_cqe env c s1) stop_ok (served m a s1)" by simp
  then have "spec (handle_cqe_batch env [c] s1) stop_ok (served m a s1)" by (simp add: handle_cqe_batch_def)
  then show ?thesis using s1 q by (auto simp: served_def moved_def elim!: spec_conseq)
qed

lemma take_cqes_ok:
  assumes env: "env_ok N env"
  shows "srv_inv s \<Longrightarrow> legal_cqes (sv_flight s) (cs @ ds) \<Longrightarrow>
    unat (sv_next_client_id s) + length cs + n \<le> 18446744073709551615 \<Longrightarrow>
    spec (take_cqes env cs s) stop_ok (\<lambda>s'. srv_inv s' \<and> legal_cqes (sv_flight s') ds \<and>
      unat (sv_next_client_id s') + n \<le> 18446744073709551615)"
proof (induction cs arbitrary: s)
  case Nil
  then show ?case by (simp add: take_cqes_def)
next
  case (Cons c cs)
  have "unat (- 1 :: 64 word) = 18446744073709551615" by (simp add: unsigned_minus_1_eq_mask mask_eq_exp_minus_1)
  then have room: "sv_next_client_id s \<noteq> - 1" using Cons.prems(3) by auto
  then have suc: "unat (sv_next_client_id s + 1) = Suc (unat (sv_next_client_id s))"
    by (metis add.commute add_eq_0_iff unatSuc)
  have "spec (take_cqes env cs s') stop_ok (\<lambda>s'. srv_inv s' \<and> legal_cqes (sv_flight s') ds \<and>
      unat (sv_next_client_id s') + n \<le> 18446744073709551615)"
    if "srv_inv s'" "sv_flight s' = remove1 (the (find (\<lambda>q. sqe_data q = cqe_data c) (sv_flight s))) (sv_flight s)"
      "sv_next_client_id s' = sv_next_client_id s \<or> sv_next_client_id s' = sv_next_client_id s + 1" for s'
    by (rule Cons.IH) (use that Cons.prems suc in auto)
  moreover have "take_cqes env (c # cs) s = bindC (bindC (deliver c s) (handle_cqe_batch env [c])) (take_cqes env cs)"
  proof -
    have "take_cqes env cs = foldC (\<lambda>c s. bindC (deliver c s) (handle_cqe_batch env [c])) cs" by (simp add: take_cqes_def fun_eq_iff)
    then show ?thesis by (simp add: take_cqes_def)
  qed
  ultimately show ?case
    using take_cqe_ok [OF env Cons.prems(1) _ room, of c] Cons.prems(2) by (auto elim!: spec_conseq)
qed

lemma submit_ok: "srv_inv s \<Longrightarrow> spec (submit env s) is_exit (\<lambda>s'. srv_inv s' \<and> sv_next_client_id s' = sv_next_client_id s)"
proof -
  assume inv: "srv_inv s"
  let ?s = "s\<lparr>sv_flight := sv_flight s @ sv_sq s, sv_sq := []\<rparr>"
  have "busy ?s = busy s" "op_at ?s = op_at s" "srv_mem {} ?s = srv_mem {} s" "pend ?s = pend s"
    using srv_mem_fields [of ?s s] by (simp_all add: op_at_def fun_eq_iff pend_def)
  moreover from this have "entry_ok ?s = entry_ok s" by (simp add: entry_ok_def fun_eq_iff)
  ultimately have "srv_inv ?s" using inv by (simp add: srv_inv_def srv_ok_def ids_ok_def listening_def)
  then show ?thesis by (simp add: submit_def)
qed

lemma server_round_ok:
  assumes env: "env_ok N env" and inv: "srv_inv s" and legal: "legal_cqes (sv_flight s) (round_cqes r)"
    and room: "unat (sv_next_client_id s) + length (round_cqes r) + n \<le> 18446744073709551615"
  shows "spec (server_round env r s) stop_ok (\<lambda>s'. srv_inv s' \<and> unat (sv_next_client_id s') + n \<le> 18446744073709551615)"
proof -
  obtain w pk where r: "r = (w, pk)" by (cases r)
  have sub: "spec (submit env s') stop_ok (\<lambda>s''. srv_inv s'' \<and> unat (sv_next_client_id s'') + n \<le> 18446744073709551615)"
    if "srv_inv s'" "unat (sv_next_client_id s') + n \<le> 18446744073709551615" for s'
    by (rule spec_conseq [OF spec_stop [OF submit_ok [OF that(1)]]]) (use that(2) in auto)
  show ?thesis
  proof (cases w)
    case Wait_error
    then show ?thesis using r by (simp add: server_round_def stop_ok_def)
  next
    case (Waited c)
    note first = take_cqes_ok [OF env inv, of "[c]"]
    show ?thesis
    proof (cases pk)
      case Peek_again
      then show ?thesis
        using first [of "[]" n] legal room r Waited sub by (auto simp: server_round_def elim!: spec_conseq)
    next
      case Peek_error
      then show ?thesis
        using first [of "[]" n] legal room r Waited by (auto simp: server_round_def stop_ok_def elim!: spec_conseq)
    next
      case (Peeked cs)
      have rest: "spec (bindC (take_cqes env cs s') (submit env)) stop_ok
          (\<lambda>s''. srv_inv s'' \<and> unat (sv_next_client_id s'') + n \<le> 18446744073709551615)"
        if "srv_inv s'" "legal_cqes (sv_flight s') cs" "unat (sv_next_client_id s') + (length cs + n) \<le> 18446744073709551615" for s'
        using take_cqes_ok [OF env that(1), of cs "[]" n] that(2,3) sub by (auto elim!: spec_conseq)
      show ?thesis
        using first [of cs "length cs + n"] legal room r Waited Peeked rest
        by (auto simp: server_round_def elim!: spec_conseq)
    qed
  qed
qed

lemma legal_run_ok:
  assumes env: "env_ok N env"
  shows "srv_inv s \<Longrightarrow> legal_run env rs s \<Longrightarrow>
    unat (sv_next_client_id s) + cqe_count rs \<le> 18446744073709551615 \<Longrightarrow>
    spec (foldC (server_round env) rs s) stop_ok srv_inv"
proof (induction rs arbitrary: s)
  case (Cons r rs)
  let ?n = "cqe_count rs"
  have step: "spec (server_round env r s) stop_ok (\<lambda>s'. srv_inv s' \<and> unat (sv_next_client_id s') + ?n \<le> 18446744073709551615)"
    by (rule server_round_ok [OF env Cons.prems(1)]) (use Cons.prems(2,3) in auto)
  then show ?case
  proof (cases rule: spec_cases)
    case (failed f)
    then show ?thesis by (simp add: bindC_def)
  next
    case (returned s')
    then show ?thesis using Cons.IH [of s'] Cons.prems(2) by (simp add: bindC_def)
  qed
qed simp

section \<open>Starting\<close>

text \<open>A server before it starts: nothing is in use, nobody is connected, the ring is empty.\<close>

definition srv_fresh :: "server \<Rightarrow> bool" where
  "srv_fresh s \<longleftrightarrow> srv_mem {} s \<and> busy s = {} \<and> cm_rep (sv_clients s, sv_infos s) Map.empty \<and> infos_ok (sv_infos s) \<and>
     sv_sq s = [] \<and> sv_flight s = [] \<and> sv_next_client_id s = 1"

definition server_boot :: "env \<Rightarrow> server \<Rightarrow> server comp" where
  "server_boot env s = bindC (add_accept env (sv_next_client_id s) s) (\<lambda>s.
     submit env (s\<lparr>sv_next_client_id := sv_next_client_id s + 1\<rparr>))"

definition legal_start :: "env \<Rightarrow> (wait_result \<times> peek_result) list \<Rightarrow> server \<Rightarrow> bool" where
  "legal_start env rs s \<longleftrightarrow> (case server_boot env s of Some (Inr s') \<Rightarrow> legal_run env rs s' | _ \<Rightarrow> True)"

lemma server_boot_ok:
  assumes "srv_fresh s"
  shows "spec (server_boot env s) is_exit (\<lambda>s'. srv_inv s' \<and> sv_next_client_id s' = 2)"
proof -
  have ok: "srv_ok Map.empty [] s" and ids: "ids_ok Map.empty s" and b: "busy s = {}" and n: "sv_next_client_id s = 1"
    using assms by (auto simp: srv_fresh_def srv_ok_def ids_ok_def pend_def)
  have "srv_inv (s'\<lparr>sv_next_client_id := sv_next_client_id s' + 1\<rparr>) \<and> sv_next_client_id s' = 1"
    if "accepting Map.empty [] 1 s s'" for s'
    using accepting_inv [OF ids, of "[]" s'] b n that by (auto simp: moved_def accepting_def)
  note acc = this
  have "spec (add_accept env (sv_next_client_id s) s) is_exit
      (\<lambda>s'. srv_inv (s'\<lparr>sv_next_client_id := sv_next_client_id s' + 1\<rparr>) \<and> sv_next_client_id s' = 1)"
    by (rule spec_conseq [OF add_accept_ok [OF ok]]) (use n in \<open>auto dest!: acc\<close>)
  then show ?thesis
    unfolding server_boot_def spec_bindC by (rule spec_conseq) (auto elim!: spec_conseq [OF submit_ok])
qed

lemma server_start_boot: "server_start env rs s = bindC (server_boot env s) (foldC (server_round env) rs)"
  by (simp add: server_start_def server_boot_def bindC_assoc)

lemma server_start_ok:
  assumes "env_ok N env" and "srv_fresh s" and "legal_start env rs s"
    and "cqe_count rs < 18446744073709551613"
  shows "spec (server_start env rs s) stop_ok srv_inv"
proof -
  from server_boot_ok [OF assms(2), of env]
  have "spec (bindC (server_boot env s) (foldC (server_round env) rs)) stop_ok srv_inv"
  proof (cases rule: spec_cases)
    case (failed f)
    then show ?thesis by (simp add: bindC_def stop_ok_def)
  next
    case (returned s')
    then show ?thesis
      using legal_run_ok [OF assms(1), of s' rs] assms(3,4) by (simp add: bindC_def legal_start_def)
  qed
  then show ?thesis by (simp only: server_start_boot)
qed

end
