(* ===== verification/Server_Main.thy ===== *)
theory Server_Main
  imports Server_Run
begin

text \<open>
  main.c: the listening socket, the construction of the server's parts and the call of
  \<open>server_start\<close>. The system calls and \<open>io_uring_queue_init\<close> are parameters that give the returned
  values. \<open>server_start\<close> does not return; \<open>main_teardown\<close> is the code after it.
\<close>

section \<open>Definitions\<close>

definition QUEUE_SIZE :: nat where
  "QUEUE_SIZE = 4096"

definition BACKLOG :: int where
  "BACKLOG = 10"

definition PORT :: "16 word" where
  "PORT = 8080"

record sys =
  sys_queue_init :: "nat \<Rightarrow> int"
  sys_socket :: int
  sys_setsockopt :: "int \<Rightarrow> int"
  sys_getfl :: "int \<Rightarrow> 32 word"
  sys_setfl :: "int \<Rightarrow> 32 word \<Rightarrow> int"
  sys_o_nonblock :: "32 word"
  sys_bind :: "int \<Rightarrow> 8 word list \<Rightarrow> int"
  sys_listen :: "int \<Rightarrow> int \<Rightarrow> int"
  sys_shutdown :: "int \<Rightarrow> int"

text \<open>The \<open>sockaddr_in\<close> as it lies in memory: AF_INET is 2, INADDR_ANY is 0.\<close>

definition server_sockaddr :: "endian \<Rightarrow> 16 word \<Rightarrow> 8 word list" where
  "server_sockaddr e port = mem_bytes e 2 (2 :: 16 word) @ mem_bytes e 2 (htons e port) @
     mem_bytes e 4 (htonl e 0) @ replicate 8 0"

definition setup_server :: "sys \<Rightarrow> endian \<Rightarrow> 16 word \<Rightarrow> int comp" where
  "setup_server sys e port =
     (let server_fd = sys_socket sys in
      if server_fd = - 1 then fatal_error ''setup_server socket()''
      else if sys_setsockopt sys server_fd < 0 then fatal_error ''setsockopt(SO_REUSEADDR)''
      else bindC (set_nonblocking (sys_getfl sys) (sys_setfl sys) (sys_o_nonblock sys) server_fd) (\<lambda>_.
        if sys_bind sys server_fd (server_sockaddr e port) = - 1 then fatal_error ''setup_server bind''
        else if sys_listen sys server_fd BACKLOG = - 1 then fatal_error ''setup_server listen''
        else ret server_fd))"

text \<open>The part of \<open>main\<close> that builds the server, after the ring and the socket.\<close>

definition main_build :: "int \<Rightarrow> client_info heap \<Rightarrow> bufref heap \<Rightarrow> operation heap \<Rightarrow> server comp" where
  "main_build server_fd infos bufs opers =
     bindC (op_pool_init opers) (\<lambda>pool.
     bindC (client_map_init 1024 infos) (\<lambda>clients.
     bindC (slab_init BUFFER_SIZE_64B bufs) (\<lambda>(slab64, bufs).
     bindC (slab_init BUFFER_SIZE_2KB bufs) (\<lambda>(slab2k, bufs).
     ret (server_init clients infos slab64 slab2k bufs pool opers server_fd)))))"

text \<open>
  \<open>main\<close> on the rounds that liburing delivers: the exit code when it returns before the server
  starts, or the state after these rounds.
\<close>

definition main_fun ::
  "sys \<Rightarrow> env \<Rightarrow> (wait_result \<times> peek_result) list \<Rightarrow> client_info heap \<Rightarrow> bufref heap \<Rightarrow> operation heap \<Rightarrow> (int + server) comp" where
  "main_fun sys env rounds infos bufs opers =
     (if sys_queue_init sys QUEUE_SIZE < 0 then ret (Inl 1)
      else bindC (setup_server sys (env_endian env) PORT) (\<lambda>server_fd.
        bindC (main_build server_fd infos bufs opers) (\<lambda>srv.
        bindC (server_start env rounds srv) (\<lambda>srv. ret (Inr srv)))))"

definition main_teardown :: "sys \<Rightarrow> env \<Rightarrow> server \<Rightarrow> (client_info heap \<times> bufref heap \<times> operation heap) comp" where
  "main_teardown sys env s =
     bindC (must_shutdown (sys_shutdown sys) (sv_server_fd s) ''server_fd shutdown'') (\<lambda>_.
     bindC (must_close (env_close env) (sv_server_fd s) ''server_fd close'') (\<lambda>_.
     bindC (op_pool_deinit (sv_pool s) (sv_ops s)) (\<lambda>opers.
     bindC (client_map_deinit (sv_clients s) (sv_infos s)) (\<lambda>infos.
     bindC (slab_deinit (sv_slab64 s) (sv_bufs s)) (\<lambda>bufs.
     bindC (slab_deinit (sv_slab2k s) bufs) (\<lambda>bufs.
     ret (infos, bufs, opers)))))))"

section \<open>Starting from main\<close>

lemma server_init_fresh:
  assumes p: "pool_clean (pool, opers)" "pool_known (pool, opers) = {}" and c: "cm_rep (clients, infos) Map.empty"
    and infos: "infos_ok infos" and sl: "slab_inv (sl64, h1)" "slab_buf_cap sl64 = BUFFER_SIZE_64B"
    and s2: "slab_inv (sl2k, h2)" "slab_buf_cap sl2k = BUFFER_SIZE_2KB" "\<forall>a<brk h1. cells h2 a = cells h1 a"
  shows "srv_fresh (server_init clients infos sl64 sl2k h2 pool opers fd)"
proof -
  let ?s = "server_init clients infos sl64 sl2k h2 pool opers fd"
  have "cells h2 a = cells h1 a" if "a \<in> set (slab_idle (sl64, h1))" for a
    using that sl(1) s2(3) heap_wf_live [of h1 a] by (auto simp: slab_inv_def slab_known_def subset_iff)
  moreover have "slab_idle (sl64, h2) = slab_idle (sl64, h1)" by (simp add: slab_idle_def)
  ultimately have "slab_inv (sl64, h2)"
    using sl(1) s2(1) by (auto simp: slab_inv_def slab_known_def subset_iff)
  then have "slabs_ok ?s" using sl(2) s2(1,2) by (simp add: slabs_ok_def server_init_def)
  moreover have "busy ?s = {}" using p(2) by (simp add: busy_def server_init_def)
  ultimately show ?thesis
    using p(1) c infos by (simp add: srv_fresh_def srv_mem_def) (simp add: server_init_def)
qed

lemma main_build_fresh:
  assumes wf: "heap_wf infos" "infos_ok infos" "heap_wf bufs" "heap_wf opers"
  shows "spec (main_build fd infos bufs opers) is_exit (\<lambda>s. srv_fresh s \<and> sv_server_fd s = fd)"
proof -
  have pool: "spec (op_pool_init opers) is_exit (\<lambda>p. pool_clean (p, opers) \<and> pool_known (p, opers) = {})"
    unfolding op_pool_init_def
    by (rule spec_conseq [OF op_pool_init_clean [OF wf(4)]]) (simp_all add: OPERATIONS_INIT_CAP_def FREE_OPS_INIT_CAP_def)
  have slab: "spec (slab_init c h) is_exit (\<lambda>(s, h'). slab_inv (s, h') \<and> slab_buf_cap s = c \<and>
      slab_idle (s, h') = [brk h..<brk h + SLAB_INIT_CAP] \<and> (\<forall>a<brk h. cells h' a = cells h a))" if "heap_wf h" for c h
    unfolding slab_init_def
    by (rule spec_conseq [OF slab_init_built [OF that]]) (auto simp: SLAB_INIT_CAP_def)
  have second: "spec (slab_init BUFFER_SIZE_2KB h1) is_exit (\<lambda>(sl2k, h2).
      srv_fresh (server_init clients infos sl64 sl2k h2 pool opers fd))"
    if "pool_clean (pool, opers)" "pool_known (pool, opers) = {}" "cm_rep (clients, infos) Map.empty"
      "slab_inv (sl64, h1)" "slab_buf_cap sl64 = BUFFER_SIZE_64B" "slab_idle (sl64, h1) = [brk bufs..<brk bufs + SLAB_INIT_CAP]"
    for pool clients sl64 h1
  proof -
    have "heap_wf h1" using that(4) by (simp add: slab_inv_def)
    from slab [OF this] show ?thesis by (rule spec_conseq) (use server_init_fresh [OF that(1-3) wf(2) that(4,5)] in auto)
  qed
  show ?thesis
    unfolding main_build_def
    apply (rule spec_bindI [OF pool], elim conjE)
    apply (rule spec_bindI [OF cm_init [OF wf(1)]])
    apply (rule spec_bindI [OF slab [OF wf(3)]], clarify)
    apply (rule spec_bindI [OF second], assumption+)
    apply (auto simp: server_init_def)
    done
qed

end
