(* ===== verification/Server_Props.thy ===== *)
theory Server_Props
  imports Server_Main
begin

text \<open>
  Safety of the whole run of the server, from \<open>server_start\<close> and from \<open>main\<close> on; what the invariant says
  of the ring and of the buffers; the listening socket and the check of usernames. A small server
  with one connected client shows that the hypotheses can be met.
\<close>

section \<open>A server with one client\<close>

definition demo_env :: env where
  "demo_env = \<lparr>env_endian = LE, env_sqe = (\<lambda>n. n < 8), env_submit = (\<lambda>q. int (length q)),
     env_close = (\<lambda>fd. if fd < 0 then - 1 else 0)\<rparr>"

definition demo_srv :: server where
  "demo_srv = server_init
     \<lparr>cm_buckets_cap = 2, cm_buckets = [None, None], cm_free_cap = 1, cm_free_len = 0, cm_free = [None]\<rparr> (empty_heap zero_info)
     \<lparr>sl_cap = 1, sl_len = 0, sl_buf_cap = 64, sl_buf_refs = [None]\<rparr> \<lparr>sl_cap = 1, sl_len = 0, sl_buf_cap = 2048, sl_buf_refs = [None]\<rparr>
     (empty_heap \<lparr>br_ref = 0, br_buf = []\<rparr>)
     \<lparr>ops_next_idx = 0, ops_cap = 4, ops = [None, None, None, None], free_len = 0, free_cap = 1, free_ops_idx = [None]\<rparr>
     (empty_heap (demo_op 0)) 3"

text \<open>A client from 127.0.0.1, port 8080, is accepted with descriptor 7.\<close>

definition demo_accept :: cqe where
  "demo_accept = \<lparr>cqe_data = 0, cqe_res = 7, cqe_bytes = [2, 0, 31, 144, 127, 0, 0, 1, 0, 0, 0, 0, 0, 0, 0, 0]\<rparr>"

definition demo_rounds :: "(wait_result \<times> peek_result) list" where
  "demo_rounds = [(Waited demo_accept, Peek_again)]"

definition demo_conn :: server where
  "demo_conn = (case server_start demo_env demo_rounds demo_srv of Some (Inr s) \<Rightarrow> s | _ \<Rightarrow> demo_srv)"

lemmas run_defs = server_boot_def add_accept_def get_sqe_def srv_new_op_def op_pool_new_entry_def must_malloc_def malloc_def
  acquire_large_buf_def srv_acquire_def slab_acquire_def malloc_buf_ref_def get_op_def put_op_def hget_def hput_def
  aread_def awrite_def ptr_def client_map_new_entry_def cm_node_def cm_hash_def chain_search.simps get_info_def put_info_def
  push_sqe_def submit_def srv_slab_def set_slab_def slab_buf_cap_def assertC_def fatal_error_def Let_def bindC_def
  server_round_def take_cqes_def deliver_def handle_cqe_batch_def handle_cqe_def op_pool_get_def client_map_get_def
  handle_accept_def log_with_client_info_def bread_def add_recv_def server_start_def

lemmas demo_defs = demo_srv_def demo_env_def demo_accept_def demo_rounds_def demo_op_def server_init_def empty_heap_def zero_info_def

lemma demo_env_ok: "env_ok 8 demo_env"
  by (simp add: env_ok_def demo_env_def)

lemma demo_srv_fresh: "srv_fresh demo_srv"
proof -
  have "cm_rep (sv_clients demo_srv, sv_infos demo_srv) Map.empty"
  proof -
    have "table ci_next ci_client_id (cm_hash 2) [None, None] Map.empty [[], []]"
      by (simp add: table_def less_Suc_eq nth_Cons')
    moreover have "Map.empty = entry ci_client_id (cm_hash 2) Map.empty [[], []]"
      by (auto simp: entry_def fun_eq_iff nth_Cons')
    ultimately show ?thesis
      by (auto simp: demo_defs cm_rep_def cm_shape_def cm_idle_def heap_wf_def intro!: exI [of _ "[[], []]"])
  qed
  then show ?thesis
    by (simp add: srv_fresh_def srv_mem_def busy_def slabs_ok_def)
      (simp add: demo_defs pool_clean_def pool_inv_def pool_shape_def ids_kept_def pool_addrs_def free_ids_def pool_idle_def
        pool_known_def heap_wf_def slab_defs slab_buf_cap_def BUFFER_SIZE_64B_def BUFFER_SIZE_2KB_def infos_ok_def info_sized_def)
qed

lemma demo_boot: "\<exists>s. server_boot demo_env demo_srv = ret s \<and> legal_run demo_env demo_rounds s"
  by (simp add: run_defs demo_defs legal_cqe_def)

lemma demo_start: "server_start demo_env demo_rounds demo_srv = ret demo_conn"
  by (simp add: demo_conn_def run_defs demo_defs)

lemma demo_legal: "legal_start demo_env demo_rounds demo_srv" "cqe_count demo_rounds = 1"
  using demo_boot by (auto simp: legal_start_def demo_rounds_def)

lemma demo_inv: "srv_inv demo_conn"
  using server_start_ok [OF demo_env_ok demo_srv_fresh demo_legal(1)] demo_legal(2) demo_start by simp

lemma demo_flight: "sv_flight demo_conn = [\<lparr>sqe_data = 0, sqe_req = Recv 7 0 0 2048\<rparr>, \<lparr>sqe_data = 1, sqe_req = Accept 3 1\<rparr>]"
  "sv_sq demo_conn = []" "sv_next_client_id demo_conn = 3" "sv_server_fd demo_conn = 3"
  "sv_log demo_conn = [([127, 0, 0, 1], 8080, 1, 7, ''connected'')]"
  by (simp_all add: demo_conn_def run_defs demo_defs be_word_def)

section \<open>The run of the server\<close>

text \<open>
  C1. Safety of the server: started with empty pools, slabs and client map, and fed any number of
  rounds of completions that the kernel may deliver (fewer than \<open>2\<^sup>6\<^sup>4 - 3\<close> of them, so that client ids
  do not wrap), \<open>server_start\<close> never diverges and never runs into a failed assertion, a NULL or
  dangling pointer or an access out of bounds, with one exception: it exits, or stops at the memmove of
  \<open>handle_recv\<close> because that leaves its buffer (\<open>Memmove_overrun\<close>, the fault of this call alone), or is in a
  state of the server's invariant after the rounds.
\<close>

theorem server_start_safe:
  assumes "env_ok N env" and "srv_fresh s" and "legal_start env rounds s" and "cqe_count rounds < 18446744073709551613"
  shows "spec (server_start env rounds s) (\<lambda>f. is_exit f \<or> f = Memmove_overrun) srv_inv"
  using server_start_ok [OF assms] by (simp add: stop_ok_def [abs_def])

theorem server_start_safe_witness:
  "spec (server_start demo_env demo_rounds demo_srv) (\<lambda>f. is_exit f \<or> f = Memmove_overrun) srv_inv \<and>
   server_start demo_env demo_rounds demo_srv = ret demo_conn \<and> length (sv_flight demo_conn) = 2"
  using server_start_safe [OF demo_env_ok demo_srv_fresh demo_legal(1)] demo_legal(2) demo_start demo_flight by simp

text \<open>What the invariant says of the ring and of the buffers, without reference to the proof's auxiliary notions.\<close>

definition is_accept :: "sqe \<Rightarrow> bool" where
  "is_accept q \<longleftrightarrow> (case sqe_req q of Accept fd i \<Rightarrow> True | _ \<Rightarrow> False)"

definition in_bounds :: "server \<Rightarrow> sqe \<Rightarrow> bool" where
  "in_bounds s q = (case sqe_req q of
       Accept fd i \<Rightarrow> cells (sv_infos s) i \<noteq> None
     | Recv fd b off len \<Rightarrow> (case cells (sv_bufs s) b of None \<Rightarrow> False | Some buf \<Rightarrow> off + unat len \<le> length (br_buf buf))
     | Send fd b off len \<Rightarrow> (case cells (sv_bufs s) b of None \<Rightarrow> False | Some buf \<Rightarrow> off + unat len \<le> length (br_buf buf)))"

fun sqe_buf :: "sqe \<Rightarrow> nat option" where
  "sqe_buf \<lparr>sqe_data = d, sqe_req = Accept fd i\<rparr> = None"
| "sqe_buf \<lparr>sqe_data = d, sqe_req = Recv fd b off len\<rparr> = Some b"
| "sqe_buf \<lparr>sqe_data = d, sqe_req = Send fd b off len\<rparr> = Some b"

lemma entry_in_bounds:
  assumes "srv_ok m as s" and "a \<in> busy s" and "entry_ok s m a q"
  shows "in_bounds s q" and "sqe_buf q \<noteq> None \<Longrightarrow> sqe_buf q = op_buf_ref (op_at s a)"
    and "is_accept q \<longleftrightarrow> op_type (op_at s a) = OP_ACCEPT"
proof -
  obtain b buf where b: "op_buf_ref (op_at s a) = Some b" "cells (sv_bufs s) b = Some buf"
    "length (br_buf buf) = unat (op_buf_cap (op_at s a))"
    by (rule busy_buf [OF assms(1,2)])
  have rq: "request_ok (sv_server_fd s) m (op_at s a) (sqe_req q)" using assms(3) by (simp add: entry_ok_def)
  obtain d r where q: "q = \<lparr>sqe_data = d, sqe_req = r\<rparr>" by (cases q) auto
  show "in_bounds s q"
    using rq b cm_rep_live [OF srv_okD(2) [OF assms(1)]] q by (cases r) (auto simp: in_bounds_def, metis option.distinct(1))
  show "sqe_buf q \<noteq> None \<Longrightarrow> sqe_buf q = op_buf_ref (op_at s a)" "is_accept q \<longleftrightarrow> op_type (op_at s a) = OP_ACCEPT"
    using rq b q by (cases r; simp add: is_accept_def)+
qed

lemma filter_lengths: "list_all2 (\<lambda>a q. P q \<longleftrightarrow> Q a) as qs \<Longrightarrow> length (filter P qs) = length (filter Q as)"
  by (induction rule: list_all2_induct) auto

lemma filter_distinct:
  assumes "list_all2 (\<lambda>a q. g q \<noteq> None \<longrightarrow> g q = f a) as qs" and "distinct (map f as)"
  shows "distinct (filter (\<lambda>b. b \<noteq> None) (map g qs)) \<and> set (filter (\<lambda>b. b \<noteq> None) (map g qs)) \<subseteq> f ` set as"
  using assms
proof (induction rule: list_all2_induct)
  case (Cons a as q qs)
  have "f a \<notin> set (filter (\<lambda>b. b \<noteq> None) (map g qs))" using Cons.IH Cons.prems by auto
  then show ?case using Cons by (cases "g q = None") auto
qed simp

lemma srv_inv_ring:
  assumes "srv_inv s"
  shows "distinct (map sqe_data (pend s))" and "length (filter is_accept (pend s)) = 1"
    and "list_all (in_bounds s) (pend s)" and "distinct (filter (\<lambda>b. b \<noteq> None) (map sqe_buf (pend s)))"
proof -
  from assms obtain m as where ok: "srv_ok m as s" and bz: "busy s = set as" and ids: "ids_ok m s" and l: "listening s"
    by (auto simp: srv_inv_def)
  note all = srv_okD(6) [OF ok]
  have "map sqe_data (pend s) = map (\<lambda>a. op_pool_id (op_at s a)) as"
    using all by (induction) (auto simp: entry_ok_def)
  moreover have "inj_on (\<lambda>a. op_pool_id (op_at s a)) (busy s)"
  proof (rule inj_onI)
    fix x y assume xy: "x \<in> busy s" "y \<in> busy s" "op_pool_id (op_at s x) = op_pool_id (op_at s y)"
    have "(ret (Some x) :: nat option comp) = ret (Some y)"
      by (rule trans [OF sym [OF busy_get [OF ok xy(1)]]], unfold xy(3), rule busy_get [OF ok xy(2)])
    then show "x = y" by simp
  qed
  ultimately show "distinct (map sqe_data (pend s))" using srv_okD(4) [OF ok] bz by (simp add: distinct_map)
  show "list_all (in_bounds s) (pend s)"
  proof -
    have "in_bounds s q" if "q \<in> set (pend s)" for q
    proof -
      from all that obtain a where "a \<in> set as" "entry_ok s m a q"
        by (metis in_set_conv_nth list_all2_conv_all_nth nth_mem)
      then show ?thesis using entry_in_bounds(1) [OF ok] bz by blast
    qed
    then show ?thesis by (simp add: list_all_iff)
  qed
  have "length (filter is_accept (pend s)) = length (filter (\<lambda>a. op_type (op_at s a) = OP_ACCEPT) as)"
    using all bz entry_in_bounds(3) [OF ok] by (intro filter_lengths) (auto elim: list.rel_mono_strong)
  also have "\<dots> = card ({a. op_type (op_at s a) = OP_ACCEPT} \<inter> set as)" by (rule distinct_length_filter [OF srv_okD(4) [OF ok]])
  also have "\<exists>a. {a. op_type (op_at s a) = OP_ACCEPT} \<inter> set as = {a}"
    using l ids bz unfolding listening_def ids_ok_def by blast
  then have "card ({a. op_type (op_at s a) = OP_ACCEPT} \<inter> set as) = 1" by auto
  finally show "length (filter is_accept (pend s)) = 1" .
  have "buf_of s a = op_buf_ref (op_at s a)" for a by (simp add: buf_of_def op_at_def)
  then have "distinct (map (\<lambda>a. op_buf_ref (op_at s a)) as)"
    using srv_okD(1) [OF ok] bz srv_okD(4) [OF ok] by (auto simp: srv_mem_def inj_on_def distinct_map)
  then show "distinct (filter (\<lambda>b. b \<noteq> None) (map sqe_buf (pend s)))"
    using all bz entry_in_bounds(2) [OF ok] by (intro conjunct1 [OF filter_distinct]) (auto elim: list.rel_mono_strong)
qed

text \<open>Operations in use and entries of the ring belong to each other one to one, by the lookup of the user data.\<close>

lemma srv_inv_entries:
  assumes "srv_inv s"
  shows "\<forall>q\<in>set (pend s). \<exists>a\<in>busy s. op_pool_get (sv_pool s) (sqe_data q) = ret (Some a)"
    and "\<forall>a\<in>busy s. \<exists>!q. q \<in> set (pend s) \<and> op_pool_get (sv_pool s) (sqe_data q) = ret (Some a)"
proof -
  from assms obtain m as where ok: "srv_ok m as s" and bz: "busy s = set as" by (auto simp: srv_inv_def)
  have "map sqe_data (pend s) = map (\<lambda>a. op_pool_id (op_at s a)) as"
    using srv_okD(6) [OF ok] by (auto simp: list_all2_conv_all_nth entry_ok_def intro: nth_equalityI)
  then have data: "sqe_data ` set (pend s) = (\<lambda>a. op_pool_id (op_at s a)) ` busy s" unfolding bz by (metis set_map)
  note get = busy_get [OF ok]
  have op: "\<exists>a\<in>busy s. sqe_data q = op_pool_id (op_at s a)" if "q \<in> set (pend s)" for q
    using imageI [OF that, of sqe_data] unfolding data by blast
  show "\<forall>q\<in>set (pend s). \<exists>a\<in>busy s. op_pool_get (sv_pool s) (sqe_data q) = ret (Some a)"
  proof
    fix q assume "q \<in> set (pend s)"
    with op obtain a where "a \<in> busy s" "sqe_data q = op_pool_id (op_at s a)" by blast
    with get show "\<exists>a\<in>busy s. op_pool_get (sv_pool s) (sqe_data q) = ret (Some a)" by auto
  qed
  have inj: "inj_on sqe_data (set (pend s))" using srv_inv_ring(1) [OF assms] by (simp add: distinct_map)
  have own: "sqe_data q = op_pool_id (op_at s a)" if "q \<in> set (pend s)" "op_pool_get (sv_pool s) (sqe_data q) = ret (Some a)" for q a
  proof -
    from op [OF that(1)] obtain a' where "a' \<in> busy s" "sqe_data q = op_pool_id (op_at s a')" by blast
    with get [of a'] that(2) show ?thesis by simp
  qed
  show "\<forall>a\<in>busy s. \<exists>!q. q \<in> set (pend s) \<and> op_pool_get (sv_pool s) (sqe_data q) = ret (Some a)"
  proof
    fix a assume a: "a \<in> busy s"
    then have "op_pool_id (op_at s a) \<in> sqe_data ` set (pend s)" unfolding data by blast
    then obtain q where "q \<in> set (pend s)" "sqe_data q = op_pool_id (op_at s a)" by auto
    note q = this
    show "\<exists>!q. q \<in> set (pend s) \<and> op_pool_get (sv_pool s) (sqe_data q) = ret (Some a)"
    proof (rule ex1I [of _ q])
      show "q \<in> set (pend s) \<and> op_pool_get (sv_pool s) (sqe_data q) = ret (Some a)" using q get [OF a] by simp
      fix q' assume "q' \<in> set (pend s) \<and> op_pool_get (sv_pool s) (sqe_data q') = ret (Some a)"
      then show "q' = q" using own [of q' a] q inj_onD [OF inj, of q' q] by simp
    qed
  qed
qed

section \<open>From main\<close>

text \<open>The program on a host where every call succeeds: it builds its server and accepts one client.\<close>

definition demo_sys :: sys where
  "demo_sys = \<lparr>sys_queue_init = \<lambda>n. 0, sys_socket = 3, sys_setsockopt = \<lambda>fd. 0, sys_getfl = \<lambda>fd. 2, sys_setfl = \<lambda>fd fl. 0,
     sys_o_nonblock = 2048, sys_bind = \<lambda>fd addr. 0, sys_listen = \<lambda>fd n. 0, sys_shutdown = \<lambda>fd. 0\<rparr>"

lemmas main_defs = main_build_def slab_init_def slab_init_plenty op_pool_init_def op_pool_init_with_cap_def
  must_malloc_arr_def client_map_init_def SLAB_INIT_CAP_def OPERATIONS_INIT_CAP_def FREE_OPS_INIT_CAP_def FREE_INIT_LEN_def

lemma demo_main:
  assumes "main_build fd (empty_heap zero_info) (empty_heap \<lparr>br_ref = 0, br_buf = []\<rparr>) (empty_heap (demo_op 0)) = ret srv"
  shows "legal_start demo_env demo_rounds srv"
proof -
  have "\<exists>s0. server_boot demo_env srv = ret s0 \<and> legal_cqe (sv_flight s0) demo_accept"
    using assms by (auto simp: main_defs run_defs demo_defs legal_cqe_def simp del: upt_rec_numeral)
  then show ?thesis by (auto simp: legal_start_def demo_rounds_def split: option.splits sum.splits)
qed

lemma demo_main_runs:
  "\<exists>s. main_fun demo_sys demo_env demo_rounds (empty_heap zero_info) (empty_heap \<lparr>br_ref = 0, br_buf = []\<rparr>) (empty_heap (demo_op 0)) = ret (Inr s) \<and>
     length (sv_flight s) = 2 \<and> sv_log s = [([127, 0, 0, 1], 8080, 1, 7, ''connected'')]"
  by (simp add: main_fun_def demo_sys_def setup_server_def set_nonblocking_def main_defs run_defs demo_defs be_word_def del: upt_rec_numeral)
text \<open>
  C6. Safety of the program: \<open>main\<close>, on any results of the system calls, returns 1 when the ring
  cannot be set up, or exits, or stops at the memmove of \<open>handle_recv\<close> that leaves its buffer, or runs the
  server, built from empty heaps, in states of its invariant, for any rounds of legal completions.
\<close>

theorem main_safe:
  assumes "env_ok QUEUE_SIZE env" and "heap_wf infos" and "infos_ok infos" and "heap_wf bufs" and "heap_wf opers"
    and "\<And>fd srv. main_build fd infos bufs opers = ret srv \<Longrightarrow> legal_start env rounds srv"
    and "cqe_count rounds < 18446744073709551613"
  shows "spec (main_fun sys env rounds infos bufs opers) (\<lambda>f. is_exit f \<or> f = Memmove_overrun)
    (\<lambda>r. case r of Inl code \<Rightarrow> code = 1 \<and> sys_queue_init sys QUEUE_SIZE < 0 | Inr s \<Rightarrow> srv_inv s)"
proof -
  let ?F = "\<lambda>f. is_exit f \<or> f = Memmove_overrun"
  have build: "spec (main_build fd infos bufs opers) ?F (\<lambda>s. srv_fresh s \<and> legal_start env rounds s)" for fd
    using main_build_fresh [OF assms(2-5), of fd] assms(6) by (auto simp: spec_def split: option.splits sum.splits)
  have run: "spec (server_start env rounds s) ?F srv_inv" if "srv_fresh s" "legal_start env rounds s" for s
    using server_start_ok [OF assms(1) that assms(7)] by (simp add: stop_ok_def [abs_def])
  have sock: "spec (setup_server sys (env_endian env) PORT) ?F (\<lambda>_. True)"
    by (auto simp: setup_server_def set_nonblocking_def fatal_error_def Let_def)
  show ?thesis
    unfolding main_fun_def by (auto intro!: spec_conseq [OF sock] spec_conseq [OF build] run)
qed

theorem main_safe_witness:
  "spec (main_fun demo_sys demo_env demo_rounds (empty_heap zero_info) (empty_heap \<lparr>br_ref = 0, br_buf = []\<rparr>) (empty_heap (demo_op 0)))
     (\<lambda>f. is_exit f \<or> f = Memmove_overrun) (\<lambda>r. case r of Inl code \<Rightarrow> False | Inr s \<Rightarrow> srv_inv s) \<and>
   (\<exists>s. main_fun demo_sys demo_env demo_rounds (empty_heap zero_info) (empty_heap \<lparr>br_ref = 0, br_buf = []\<rparr>) (empty_heap (demo_op 0)) = ret (Inr s) \<and>
     length (sv_flight s) = 2 \<and> sv_log s = [([127, 0, 0, 1], 8080, 1, 7, ''connected'')])"
proof -
  have "env_ok QUEUE_SIZE demo_env" by (simp add: env_ok_def demo_env_def QUEUE_SIZE_def)
  moreover have "heap_wf (empty_heap zero_info)" "infos_ok (empty_heap zero_info)" "heap_wf (empty_heap \<lparr>br_ref = 0, br_buf = []\<rparr>)"
    "heap_wf (empty_heap (demo_op 0))" by (simp_all add: heap_wf_def empty_heap_def infos_ok_def info_sized_def zero_info_def)
  ultimately have "spec (main_fun demo_sys demo_env demo_rounds (empty_heap zero_info) (empty_heap \<lparr>br_ref = 0, br_buf = []\<rparr>) (empty_heap (demo_op 0)))
     (\<lambda>f. is_exit f \<or> f = Memmove_overrun) (\<lambda>r. case r of Inl code \<Rightarrow> False | Inr s \<Rightarrow> srv_inv s)"
    by (intro spec_conseq [OF main_safe]) (use demo_legal(2) demo_main in \<open>auto simp: demo_sys_def split: sum.splits\<close>)
  then show ?thesis using demo_main_runs by blast
qed

text \<open>
  The listening socket: \<open>setup_server\<close> exits when a system call fails and otherwise returns the new
  socket, which has been made non-blocking and bound to the given port, in network byte order, of
  all addresses.
\<close>

theorem setup_server_correct:
  "spec (setup_server sys e port) is_exit (\<lambda>fd. fd = sys_socket sys \<and> fd \<noteq> - 1 \<and> 0 \<le> sys_setsockopt sys fd \<and>
     sys_setfl sys fd (sys_getfl sys fd OR sys_o_nonblock sys) \<noteq> - 1 \<and>
     sys_bind sys fd (mem_bytes e 2 (2 :: 16 word) @ be_bytes 2 port @ [0, 0, 0, 0] @ replicate 8 0) \<noteq> - 1 \<and>
     sys_listen sys fd 10 \<noteq> - 1)"
proof -
  have "be_bytes 4 (0 :: 32 word) = [0, 0, 0, 0]" by (simp add: be_bytes_def upt_rec)
  then show ?thesis
    by (auto simp: setup_server_def set_nonblocking_def fatal_error_def server_sockaddr_def BACKLOG_def Let_def)
qed

text \<open>
  C19. The loop of \<open>username_valid\<close> decides, for a name inside its buffer, whether all of its characters
  are letters or digits; a name that reaches beyond the buffer and has no other character is read
  beyond it.
\<close>

theorem username_valid_decides:
  "username_valid n buf off = (if list_all isalnum (take n (drop off buf)) \<and> n \<noteq> 0 \<and> length buf < off + n
     then fail Out_of_bounds else ret (list_all isalnum (take n (drop off buf))))"
proof (induction n arbitrary: off)
  case (Suc n)
  show ?case
  proof (cases "off < length buf")
    case True
    then have "drop off buf = buf ! off # drop (Suc off) buf" by (intro Cons_nth_drop_Suc [symmetric])
    then show ?thesis using True Suc.IH [of "Suc off"] by (auto simp: aread_def)
  qed (simp add: aread_def)
qed simp

end
