(* ===== verification/Server_Steps.thy ===== *)
theory Server_Steps
  imports Machine Server_Props
begin

text \<open>
  The server as a machine of single steps: a completion is handled, or the prepared entries are
  submitted, in any order. The rounds of \<open>server_start\<close>, with their batches, are runs of this machine;
  its invariant holds however completions and submissions are interleaved.
\<close>

section \<open>Steps\<close>

datatype event = Completion cqe | Submission

fun server_step :: "env \<Rightarrow> event \<Rightarrow> server \<Rightarrow> server comp" where
  "server_step env (Completion c) s = take_cqes env [c] s"
| "server_step env Submission s = submit env s"

fun event_legal :: "event \<Rightarrow> server \<Rightarrow> bool" where
  "event_legal (Completion c) s \<longleftrightarrow> legal_cqe (sv_flight s) c \<and> sv_next_client_id s \<noteq> - 1"
| "event_legal Submission s \<longleftrightarrow> True"

interpretation server_machine: guarded_machine "server_step env" event_legal "\<lambda>s. (\<exists>N. env_ok N env) \<and> srv_inv s" stop_ok
  for env :: env
proof unfold_locales
  fix s e assume inv: "(\<exists>N. env_ok N env) \<and> srv_inv s" and legal: "event_legal e s"
  show "spec (server_step env e s) stop_ok (\<lambda>s. (\<exists>N. env_ok N env) \<and> srv_inv s)"
  proof (cases e)
    case (Completion c)
    from inv obtain N where N: "env_ok N env" by blast
    have "spec (take_cqes env [c] s) stop_ok srv_inv"
      using take_cqe_ok [OF N, of s c] inv legal Completion by (auto simp: take_cqes_def elim!: spec_conseq)
    then show ?thesis using N Completion by (auto elim: spec_conseq)
  next
    case Submission
    have "spec (submit env s) stop_ok (\<lambda>s'. srv_inv s' \<and> sv_next_client_id s' = sv_next_client_id s)"
      using inv by (intro spec_stop submit_ok) simp
    then show ?thesis using inv Submission by (auto elim: spec_conseq)
  qed
qed

section \<open>Rounds are runs\<close>

lemma take_cqes_runs:
  assumes env: "env_ok N env"
  shows "srv_inv s \<Longrightarrow> legal_cqes (sv_flight s) cs \<Longrightarrow> unat (sv_next_client_id s) + length cs \<le> 18446744073709551615 \<Longrightarrow>
    take_cqes env cs s = ret s' \<Longrightarrow> runs (server_step env) event_legal s (map Completion cs) s'"
proof (induction cs arbitrary: s)
  case Nil
  then show ?case by (simp add: take_cqes_def runs_Nil)
next
  case (Cons c cs)
  obtain s1 where s1: "take_cqes env [c] s = ret s1" "take_cqes env cs s1 = ret s'"
    using Cons.prems(4) by (auto simp: take_cqes_def bindC_eq_ret_iff)
  have "unat (- 1 :: 64 word) = 18446744073709551615" by (simp add: unsigned_minus_1_eq_mask mask_eq_exp_minus_1)
  then have room: "sv_next_client_id s \<noteq> - 1" using Cons.prems(3) by auto
  have "spec (take_cqes env [c] s) stop_ok (\<lambda>s'. srv_inv s' \<and> legal_cqes (sv_flight s') cs \<and>
      unat (sv_next_client_id s') + length cs \<le> 18446744073709551615)"
    by (rule take_cqes_ok [OF env Cons.prems(1)]) (use Cons.prems in simp_all)
  with s1 have "runs (server_step env) event_legal s1 (map Completion cs) s'" by (intro Cons.IH) simp_all
  then show ?case using s1(1) Cons.prems(2) room by (auto intro: runs_Cons)
qed

lemma server_round_runs:
  assumes env: "env_ok N env" and inv: "srv_inv s" and legal: "legal_cqes (sv_flight s) (round_cqes r)"
    and room: "unat (sv_next_client_id s) + length (round_cqes r) \<le> 18446744073709551615" and r: "server_round env r s = ret s'"
  shows "runs (server_step env) event_legal s (map Completion (round_cqes r) @ [Submission]) s'"
proof -
  obtain c cs s1 where c: "round_cqes r = c # cs" and s1: "take_cqes env (c # cs) s = ret s1" "submit env s1 = ret s'"
    using r by (cases r rule: round_cqes.cases) (auto simp: server_round_def take_cqes_def bindC_eq_ret_iff split: peek_result.splits)
  have "runs (server_step env) event_legal s (map Completion (c # cs)) s1"
    by (rule take_cqes_runs [OF env inv _ _ s1(1)]) (use legal room c in simp_all)
  moreover have "runs (server_step env) event_legal s1 [Submission] s'" using s1(2) by (intro runs_one) simp_all
  ultimately show ?thesis unfolding c by (rule runs_append)
qed

definition run_events :: "(wait_result \<times> peek_result) list \<Rightarrow> event list" where
  "run_events rounds = concat (map (\<lambda>r. map Completion (round_cqes r) @ [Submission]) rounds)"

lemma legal_run_runs:
  assumes env: "env_ok N env"
  shows "srv_inv s \<Longrightarrow> legal_run env rs s \<Longrightarrow> unat (sv_next_client_id s) + cqe_count rs \<le> 18446744073709551615 \<Longrightarrow>
    foldC (server_round env) rs s = ret s' \<Longrightarrow> runs (server_step env) event_legal s (run_events rs) s'"
proof (induction rs arbitrary: s)
  case Nil
  then show ?case by (simp add: run_events_def runs_Nil)
next
  case (Cons r rs)
  obtain s1 where s1: "server_round env r s = ret s1" "foldC (server_round env) rs s1 = ret s'"
    using Cons.prems(4) by (auto simp: bindC_eq_ret_iff)
  have "spec (server_round env r s) stop_ok (\<lambda>s'. srv_inv s' \<and> unat (sv_next_client_id s') + cqe_count rs \<le> 18446744073709551615)"
    by (rule server_round_ok [OF env Cons.prems(1)]) (use Cons.prems(2,3) in auto)
  then have "runs (server_step env) event_legal s1 (run_events rs) s'" using s1 Cons.prems(2) by (intro Cons.IH) simp_all
  moreover have "runs (server_step env) event_legal s (map Completion (round_cqes r) @ [Submission]) s1"
    by (rule server_round_runs [OF env Cons.prems(1) _ _ s1(1)]) (use Cons.prems(2,3) in auto)
  ultimately have "runs (server_step env) event_legal s ((map Completion (round_cqes r) @ [Submission]) @ run_events rs) s'"
    by (rule runs_append [rotated])
  then show ?case by (simp add: run_events_def)
qed

text \<open>
  C7. The event loop is a run of single steps: what \<open>server_start\<close> does on its rounds is what the
  machine does that handles their completions one after the other and submits after each round.
\<close>

theorem server_start_refines_steps:
  assumes "env_ok N env" and "srv_fresh s" and "legal_start env rounds s" and "cqe_count rounds < 18446744073709551613"
    and "server_start env rounds s = ret s'"
  shows "\<exists>s0. server_boot env s = ret s0 \<and> runs (server_step env) event_legal s0 (run_events rounds) s'"
proof -
  obtain s0 where s0: "server_boot env s = ret s0" "foldC (server_round env) rounds s0 = ret s'"
    using assms(5) unfolding server_start_boot bindC_eq_ret_iff by blast
  then show ?thesis
    using legal_run_runs [OF assms(1), of s0 rounds s'] server_boot_ok [OF assms(2), of env] assms(3,4)
    by (auto simp: legal_start_def)
qed

theorem server_start_refines_steps_witness:
  "\<exists>s0. server_boot demo_env demo_srv = ret s0 \<and>
     runs (server_step demo_env) event_legal s0 [Completion demo_accept, Submission] demo_conn"
  using server_start_refines_steps [OF demo_env_ok demo_srv_fresh demo_legal(1) _ demo_start] demo_legal(2)
  by (simp add: run_events_def demo_rounds_def)

text \<open>
  C2. Any interleaving is safe: however completions and submissions follow each other after the
  start, the entries of the ring have their own user data, exactly one accepts, all stay in live
  memory and share no buffer, the user data of every entry finds an operation in use and every operation in
  use is found by exactly one entry, and whatever may happen next is handled without a fault other than an
  exit and the memmove of \<open>handle_recv\<close> that leaves its buffer.
\<close>

theorem server_interleaving_safe:
  assumes "env_ok N env" and "srv_fresh s" and "server_boot env s = ret s0"
    and "runs (server_step env) event_legal s0 es s'"
  shows "distinct (map sqe_data (pend s')) \<and> length (filter is_accept (pend s')) = 1 \<and> list_all (in_bounds s') (pend s') \<and>
    distinct (filter (\<lambda>b. b \<noteq> None) (map sqe_buf (pend s'))) \<and> card (busy s') = length (pend s') \<and>
    (\<forall>q\<in>set (pend s'). \<exists>a\<in>busy s'. op_pool_get (sv_pool s') (sqe_data q) = ret (Some a)) \<and>
    (\<forall>a\<in>busy s'. \<exists>!q. q \<in> set (pend s') \<and> op_pool_get (sv_pool s') (sqe_data q) = ret (Some a)) \<and>
    (\<forall>e. event_legal e s' \<longrightarrow> spec (server_step env e s') (\<lambda>f. is_exit f \<or> f = Memmove_overrun) srv_inv)"
proof -
  have "srv_inv s0" using server_boot_ok [OF assms(2), of env] assms(3) by simp
  then have inv: "srv_inv s'" and nxt: "\<And>e. event_legal e s' \<Longrightarrow> spec (server_step env e s') stop_ok (\<lambda>s. (\<exists>N. env_ok N env) \<and> srv_inv s)"
    using server_machine.runs_inv [OF assms(4)] server_machine.runs_next [OF assms(4)] assms(1) by blast+
  from inv obtain m as where as: "srv_ok m as s'" "busy s' = set as" by (auto simp: srv_inv_def)
  then have "card (busy s') = length (pend s')"
    using srv_okD(4,6) [OF as(1)] by (auto simp: distinct_card dest: list_all2_lengthD)
  moreover have "spec (server_step env e s') (\<lambda>f. is_exit f \<or> f = Memmove_overrun) srv_inv" if "event_legal e s'" for e
    by (rule spec_mono [OF nxt [OF that]]) (auto simp: stop_ok_def)
  ultimately show ?thesis using srv_inv_ring [OF inv] srv_inv_entries [OF inv] by blast
qed

lemma demo_runs:
  obtains s0 where "server_boot demo_env demo_srv = ret s0" "runs (server_step demo_env) event_legal s0 (run_events demo_rounds) demo_conn"
proof -
  obtain s0 where s0: "server_boot demo_env demo_srv = ret s0" "foldC (server_round demo_env) demo_rounds s0 = ret demo_conn"
    using demo_start unfolding server_start_boot bindC_eq_ret_iff by blast
  moreover have "runs (server_step demo_env) event_legal s0 (run_events demo_rounds) demo_conn"
    using legal_run_runs [OF demo_env_ok, of s0 demo_rounds demo_conn] server_boot_ok [OF demo_srv_fresh, of demo_env] s0 demo_legal
    by (auto simp: legal_start_def)
  ultimately show thesis by (intro that)
qed

theorem server_interleaving_safe_witness:
  "card (busy demo_conn) = 2 \<and> length (filter is_accept (pend demo_conn)) = 1 \<and>
   (\<exists>a\<in>busy demo_conn. op_pool_get (sv_pool demo_conn) 1 = ret (Some a))"
proof -
  obtain s0 where s0: "server_boot demo_env demo_srv = ret s0" "runs (server_step demo_env) event_legal s0 (run_events demo_rounds) demo_conn"
    by (rule demo_runs)
  from server_interleaving_safe [OF demo_env_ok demo_srv_fresh s0] show ?thesis
    using demo_flight(1,2) by (simp add: pend_def)
qed

end
