(* ===== verification/Server_Stream.thy ===== *)
theory Server_Stream
  imports Server_Run
begin

text \<open>
  What a client sees: SET_USERNAME requests that arrive in one receive, one after the other, are
  answered in their order, each from a buffer of its own, and the ClientInfo holds the last valid
  name. The abstract side is a list of requests; \<open>answer_of\<close> and \<open>store_name\<close> say what each one does.
\<close>

section \<open>Requests and answers\<close>

type_synonym name_request = "64 word \<times> 8 word list"

definition answer_of :: "name_request \<Rightarrow> 8 word list" where
  "answer_of = (\<lambda>(seqid, name). answer seqid (of_nat (11 + length name)) name)"

definition store_name :: "name_request \<Rightarrow> 8 word list \<Rightarrow> 8 word list" where
  "store_name = (\<lambda>(seqid, name) u. if name_ok (of_nat (11 + length name)) name then name @ [0] @ drop (Suc (length name)) u else u)"

text \<open>The entry \<open>q\<close>, of an operation in use for the client \<open>cid\<close>, sends \<open>msg\<close> on the descriptor \<open>fd\<close>.\<close>

definition carries :: "server \<Rightarrow> int \<Rightarrow> 64 word \<Rightarrow> sqe \<Rightarrow> 8 word list \<Rightarrow> bool" where
  "carries s fd cid q msg \<longleftrightarrow> (\<exists>x\<in>busy s. sqe_data q = op_pool_id (op_at s x) \<and> op_client_id (op_at s x) = cid) \<and>
     (\<exists>b buf. sqe_req q = Send fd b 0 (of_nat (length msg)) \<and> cells (sv_bufs s) b = Some buf \<and>
       take (length msg) (br_buf buf) = msg)"

definition username_of :: "server \<Rightarrow> nat \<Rightarrow> 8 word list" where
  "username_of s i = ci_username (the (cells (sv_infos s) i))"

text \<open>What operations in use before keep.\<close>

definition kept :: "server \<Rightarrow> server \<Rightarrow> bool" where
  "kept s s' \<longleftrightarrow> busy s \<subseteq> busy s' \<and> (\<forall>x\<in>busy s. op_at s' x = op_at s x) \<and> bufs_kept s s' \<and>
     sv_closed s' = sv_closed s"

lemma kept_trans: "kept s s1 \<Longrightarrow> kept s1 s2 \<Longrightarrow> kept s s2"
  unfolding kept_def bufs_kept_def by (metis subsetD subset_trans)

lemma sent_carries:
  assumes "srv_ok m (as @ [x]) s1" and "sent x fd cid msg s0 s1" and "kept s1 s2"
  obtains q where "sv_sq s1 = sv_sq s0 @ [q]" "carries s2 fd cid q msg"
proof -
  from assms(2) obtain b buf where b: "cells (sv_bufs s1) b = Some buf" "take (length msg) (br_buf buf) = msg"
    and q: "sv_sq s1 = sv_sq s0 @ [\<lparr>sqe_data = op_pool_id (op_at s1 x), sqe_req = Send fd b 0 (of_nat (length msg))\<rparr>]"
    by (auto simp: sent_def)
  let ?q = "\<lparr>sqe_data = op_pool_id (op_at s1 x), sqe_req = Send fd b 0 (of_nat (length msg))\<rparr>"
  have "pend s1 = (sv_flight s1 @ sv_sq s0) @ [?q]" using q by (simp add: pend_def)
  then have "entry_ok s1 m x ?q"
    using srv_okD(6) [OF assms(1)] by (auto simp: list_all2_append1 list_all2_Cons1 append_eq_append_conv2)
  then have "op_buf_ref (op_at s1 x) = Some b" by (simp add: entry_ok_def)
  moreover have x: "x \<in> busy s1" using srv_okD(5) [OF assms(1)] by simp
  ultimately have "cells (sv_bufs s2) b = Some buf" using assms(3) b(1) by (simp add: kept_def bufs_kept_def)
  moreover have "x \<in> busy s2" "op_at s2 x = op_at s1 x" "op_client_id (op_at s1 x) = cid"
    using assms(2,3) x by (auto simp: kept_def sent_def)
  ultimately have "carries s2 fd cid ?q msg" using b(2) by (auto simp: carries_def intro!: bexI [of _ x])
  then show thesis using q by (rule that [rotated])
qed

text \<open>The requests \<open>msgs\<close> of the operation \<open>a\<close> have been answered on the way from \<open>s\<close> to \<open>s'\<close>.\<close>

definition answered :: "(64 word \<rightharpoonup> nat) \<Rightarrow> nat \<Rightarrow> nat \<Rightarrow> name_request list \<Rightarrow> server \<Rightarrow> server \<Rightarrow> bool" where
  "answered m a i msgs s s' \<longleftrightarrow> listening s' \<and> same_run s s' \<and> kept s s' \<and>
     username_of s' i = fold store_name msgs (username_of s i) \<and>
     (\<exists>as qs. cur m as a s' \<and> sv_sq s' = sv_sq s @ qs \<and>
       (\<forall>s2. kept s' s2 \<longrightarrow> list_all2 (carries s2 (op_client_fd (op_at s a)) (op_client_id (op_at s a))) qs (map answer_of msgs)))"

lemma answered_Nil: "cur m as a s \<Longrightarrow> listening s \<Longrightarrow> answered m a i [] s s"
  by (auto simp: answered_def same_run_def kept_def bufs_kept_def)

lemma answered_append:
  assumes "cur m as a s" and "answered m a i ms s s1" and "answered m a i ms' s1 s2"
  shows "answered m a i (ms @ ms') s s2"
proof -
  have "a \<in> busy s" using assms(1) by (simp add: cur_def)
  then have fd: "op_at s1 a = op_at s a" using assms(2) by (simp add: answered_def kept_def)
  have k: "kept s s1" "kept s1 s2" using assms(2,3) by (simp_all add: answered_def)
  obtain as qs where q: "cur m as a s1" "sv_sq s1 = sv_sq s @ qs"
    "\<And>s2. kept s1 s2 \<Longrightarrow> list_all2 (carries s2 (op_client_fd (op_at s a)) (op_client_id (op_at s a))) qs (map answer_of ms)"
    using assms(2) by (auto simp: answered_def)
  obtain as' qs' where q': "cur m as' a s2" "sv_sq s2 = sv_sq s1 @ qs'"
    "\<And>s3. kept s2 s3 \<Longrightarrow> list_all2 (carries s3 (op_client_fd (op_at s a)) (op_client_id (op_at s a))) qs' (map answer_of ms')"
    using assms(3) fd by (auto simp: answered_def)
  have "list_all2 (carries s3 (op_client_fd (op_at s a)) (op_client_id (op_at s a))) (qs @ qs') (map answer_of (ms @ ms'))" if "kept s2 s3" for s3
    using q(3) [OF kept_trans [OF k(2) that]] q'(3) [OF that] by (simp add: list_all2_appendI)
  then show ?thesis
    using assms(2,3) q' q(2) kept_trans [OF k]
    by (auto simp: answered_def same_run_def intro!: exI [of _ as'] exI [of _ "qs @ qs'"])
qed

section \<open>The loop on a stream of requests\<close>

lemma wire_len:
  assumes "11 + length name \<le> 2048"
  shows "(ucast (of_nat (11 + length name) :: 16 word) :: 64 word) = of_nat (11 + length name)"
    and "unat (of_nat (11 + length name) :: 64 word) = 11 + length name"
proof -
  have "unat (of_nat (11 + length name) :: 16 word) = 11 + length name" using assms by (intro unat_of_nat_16) simp
  then show "(ucast (of_nat (11 + length name) :: 16 word) :: 64 word) = of_nat (11 + length name)" by (rule ucast_word_of_nat)
  show "unat (of_nat (11 + length name) :: 64 word) = 11 + length name" using assms by (intro unat_of_nat_64) simp
qed

text \<open>One turn of the loop, when a whole request lies at the front.\<close>

lemma loop_request:
  assumes buf: "cells (sv_bufs s) b = Some buf" "drop off (br_buf buf) = wire_set_username (seqid, name) @ rest"
    and n: "11 + length name \<le> unat n" "unat n \<le> 2048"
  shows "handle_recv_loop env i a b off n s =
    bindC (handle env i a b off (of_nat (11 + length name)) (msgt_val MSGT_SET_USERNAME) seqid s) (\<lambda>(r, s).
      if r = - 1 then bindC (disconnect_and_free_op env (Some i) a s) (\<lambda>s. ret (None, s))
      else handle_recv_loop env i a b (off + (11 + length name)) (n - of_nat (11 + length name)) s)"
proof -
  let ?len = "of_nat (11 + length name) :: 64 word"
  have "11 + length name \<le> 2048" using n by simp
  note len = wire_len [OF this]
  define h where "h = \<lparr>hd_len = of_nat (11 + length name), hd_msgt = msgt_val MSGT_SET_USERNAME, hd_seqid = seqid\<rparr>"
  have dh: "deser_header (env_endian env) (drop off (br_buf buf)) = ret h"
    unfolding h_def buf(2) wire_set_username_def prod.case append_assoc by (rule deser_header_wire)
  have h: "ucast (hd_len h) = ?len" "hd_msgt h = msgt_val MSGT_SET_USERNAME" "hd_seqid h = seqid"
    using len(1) by (simp_all add: h_def del: of_nat_add)
  have r: "n \<ge> PROT_HDR_LEN" "\<not> ?len > BUFFER_SIZE_2KB" "\<not> n < ?len"
    using n len(2) by (simp_all add: PROT_HDR_LEN_def BUFFER_SIZE_2KB_def word_le_nat_alt word_less_nat_alt not_less del: of_nat_add)
  show ?thesis by (rule recv_loop_turn(3) [OF buf(1) dh r(1), unfolded h len(2), OF r(2,3)])
qed

lemma request_ok_step:
  assumes c: "cur m as a s" and l: "listening s" and t: "op_type (op_at s a) = OP_READ"
    and b: "op_buf_ref (op_at s a) = Some b" and i: "m (op_client_id (op_at s a)) = Some i"
    and buf: "cells (sv_bufs s) b = Some buf" "drop off (br_buf buf) = wire_set_username (seqid, name) @ rest"
    and len: "11 + length name \<le> 2048"
  shows "spec (handle env i a b off (of_nat (11 + length name)) (msgt_val MSGT_SET_USERNAME) seqid s) is_exit (\<lambda>(r, s1).
    r = 0 \<and> answered m a i [(seqid, name)] s s1)"
proof -
  let ?len = "of_nat (11 + length name) :: 64 word"
  have ok: "srv_ok m as s" and a: "a \<in> busy s" using c by (auto simp: cur_def)
  obtain ci where ci: "cells (sv_infos s) i = Some ci" using cm_rep_live [OF srv_okD(2) [OF ok] i] by metis
  note ln = wire_len [OF len]
  have "length (drop off (br_buf buf)) = 11 + length name + length rest" using buf(2) by simp
  then have fit: "off + unat ?len \<le> length (br_buf buf)" unfolding ln(2) length_drop by arith
  have "drop (off + 11) (br_buf buf) = name @ rest" using buf(2) drop_drop [of 11 off "br_buf buf"]
    by (simp add: add.commute wire_set_username_def)
  then have name: "take (unat ?len - 11) (drop (off + 11) (br_buf buf)) = name" unfolding ln(2) by simp
  note h = handle_ok [OF ok a ci buf(1) fit, of env "msgt_val MSGT_SET_USERNAME" seqid, unfolded name]
  show ?thesis
  proof (intro spec_conseq [OF h], unfold split_paired_all prod.case)
    fix r :: int and s1
    let ?s0 = "if name_ok ?len name then set_name i name s else s"
    assume "if msgt_val MSGT_SET_USERNAME \<noteq> msgt_val MSGT_SET_USERNAME then r = - 1 \<and> s1 = s
      else r = 0 \<and> env_sqe env (length (sv_sq s)) \<and> (\<exists>x. srv_ok m (as @ [x]) s1 \<and>
        sent x (op_client_fd (op_at s a)) (op_client_id (op_at s a)) (answer seqid ?len name) ?s0 s1)"
    then obtain x where r: "r = 0" and x: "srv_ok m (as @ [x]) s1"
      and st: "sent x (op_client_fd (op_at s a)) (op_client_id (op_at s a)) (answer seqid ?len name) ?s0 s1" by auto
    have s0: "busy ?s0 = busy s" "op_at ?s0 = op_at s" "sv_next_client_id ?s0 = sv_next_client_id s"
      "sv_flight ?s0 = sv_flight s" "sv_sq ?s0 = sv_sq s" "sv_bufs ?s0 = sv_bufs s" "sv_closed ?s0 = sv_closed s"
      by (simp_all add: set_name_def busy_def op_at_def fun_eq_iff)
    note cs = cur_sent [OF c l t s0(1-3) x st]
    have "op_added x ?s0 s1" using st by (simp add: sent_def)
    then have add: "busy s \<subseteq> busy s1" "\<forall>y\<in>busy s. op_at s1 y = op_at s y" "bufs_kept s s1" "sv_infos s1 = sv_infos ?s0"
      "sv_closed s1 = sv_closed s"
      unfolding op_added_def bufs_kept_def mem_only_eq s0 by auto
    have "username_of s1 i = store_name (seqid, name) (username_of s i)"
      unfolding username_of_def add(4) using ci by (simp add: set_name_def store_name_def)
    moreover have "same_run s s1" using cs(4) s0(3,4) by (simp add: same_run_def)
    moreover obtain q where q: "sv_sq s1 = sv_sq s @ [q]" using st s0(5) by (auto simp: sent_def)
    moreover have "carries s2 (op_client_fd (op_at s a)) (op_client_id (op_at s a)) q (answer_of (seqid, name))" if k: "kept s1 s2" for s2
      by (rule sent_carries [OF x st k]) (use q s0(5) in \<open>auto simp: answer_of_def\<close>)
    ultimately have "answered m a i [(seqid, name)] s s1"
      unfolding answered_def using cs(1,2) add(1-3,5) by (auto simp: kept_def intro!: exI [of _ "as @ [x]"])
    then show "r = 0 \<and> answered m a i [(seqid, name)] s s1" using r by simp
  qed
qed

text \<open>
  Whole requests at the front of \<open>n\<close> bytes: the loop answers them and goes on with the \<open>t\<close> bytes
  after them. When these are fewer than a header's, the loop ends and leaves them where they are.
\<close>

lemma loop_requests:
  assumes "cur m as a s" and "listening s" and "op_type (op_at s a) = OP_READ"
    and "op_buf_ref (op_at s a) = Some b" and "m (op_client_id (op_at s a)) = Some i"
    and "cells (sv_bufs s) b = Some buf" and "drop off (br_buf buf) = concat (map wire_set_username msgs) @ rest"
    and "unat n = length (concat (map wire_set_username msgs)) + t" and "unat n \<le> 2048"
    and "\<And>f. is_exit f \<Longrightarrow> F f"
    and "\<And>s1. answered m a i msgs s s1 \<Longrightarrow>
      spec (handle_recv_loop env i a b (off + length (concat (map wire_set_username msgs))) (of_nat t) s1) F Q"
  shows "spec (handle_recv_loop env i a b off n s) F Q"
  using assms
proof (induction msgs arbitrary: as s off n)
  case Nil
  then have "n = of_nat t" by (auto intro: word_unat_eq_iff [THEN iffD2])
  then show ?case using Nil.prems(11) [OF answered_Nil [OF Nil.prems(1,2)]] by simp
next
  case (Cons msg msgs)
  obtain seqid name where msg: "msg = (seqid, name)" by (cases msg)
  let ?len = "11 + length name" and ?k = "length (concat (map wire_set_username msgs))"
  have wl: "length (wire_set_username msg) = ?len" by (simp add: msg wire_set_username_def)
  then have n: "unat n = ?len + (?k + t)" using Cons.prems(8) by simp
  then have len: "?len \<le> unat n" "?len \<le> 2048" using Cons.prems(9) by linarith+
  have d: "drop off (br_buf buf) = wire_set_username (seqid, name) @ (concat (map wire_set_username msgs) @ rest)"
    using Cons.prems(7) by (simp add: msg)
  note ln = wire_len(2) [OF len(2)]
  have n': "unat (n - of_nat ?len) = ?k + t"
  proof -
    have "of_nat ?len \<le> n" using len(1) ln by (simp only: word_le_nat_alt)
    then show ?thesis using n ln by (simp only: unat_sub)
  qed
  have d': "drop (off + ?len) (br_buf buf) = concat (map wire_set_username msgs) @ rest"
    using d drop_drop [of ?len off "br_buf buf"] by (simp add: add.commute wire_set_username_def)
  have step: "spec (handle_recv_loop env i a b (off + ?len) (n - of_nat ?len) s1) F Q"
    if r: "answered m a i [(seqid, name)] s s1" for s1
  proof -
    obtain as1 where c: "cur m as1 a s1" "listening s1" and k: "kept s s1" using r by (auto simp: answered_def)
    have a: "a \<in> busy s" using Cons.prems(1) by (simp add: cur_def)
    then have s1: "op_at s1 a = op_at s a" "cells (sv_bufs s1) b = Some buf"
      using k Cons.prems(4,6) by (auto simp: kept_def bufs_kept_def)
    have "spec (handle_recv_loop env i a b (off + ?len + ?k) (of_nat t) s2) F Q" if "answered m a i msgs s1 s2" for s2
      using Cons.prems(11) [of s2] answered_append [OF Cons.prems(1) r that] wl msg by (simp add: add.assoc)
    from Cons.IH [OF c _ _ _ s1(2) d' n' _ Cons.prems(10) this] show ?thesis
      using Cons.prems(3-5,9) n n' s1(1) by simp
  qed
  have "spec (handle env i a b off (of_nat ?len) (msgt_val MSGT_SET_USERNAME) seqid s) F (\<lambda>(r, s1).
      r = 0 \<and> answered m a i [(seqid, name)] s s1)"
    using Cons.prems(10) by (rule spec_mono [OF request_ok_step [OF Cons.prems(1-6) d len(2)]])
  then show ?case
    unfolding loop_request [OF Cons.prems(6) d len(1) Cons.prems(9)]
    by (rule spec_bindI) (use step in \<open>auto simp del: of_nat_add\<close>)
qed

lemma loop_stream:
  assumes "cur m as a s" and "listening s" and "op_type (op_at s a) = OP_READ"
    and "op_buf_ref (op_at s a) = Some b" and "m (op_client_id (op_at s a)) = Some i"
    and "cells (sv_bufs s) b = Some buf" and "drop off (br_buf buf) = concat (map wire_set_username msgs) @ rest"
    and "unat n = length (concat (map wire_set_username msgs)) + t" and "unat n \<le> 2048" and "t < 11"
  shows "spec (handle_recv_loop env i a b off n s) is_exit (\<lambda>(left, s'). left = Some (of_nat t) \<and> answered m a i msgs s s')"
proof (rule loop_requests [OF assms(1-9)])
  fix s1 assume "answered m a i msgs s s1"
  moreover have "\<not> PROT_HDR_LEN \<le> of_nat t"
    using assms(10) unat_of_nat_64 [of t] by (simp add: PROT_HDR_LEN_def word_le_nat_alt)
  ultimately show "spec (handle_recv_loop env i a b (off + length (concat (map wire_set_username msgs))) (of_nat t) s1) is_exit
      (\<lambda>(left, s'). left = Some (of_nat t) \<and> answered m a i msgs s s')"
    by (subst handle_recv_loop.simps) simp
qed

section \<open>The handler\<close>

lemma resume_event:
  assumes c: "cur m as a s" and l: "listening s" and t: "op_type (op_at s a) = OP_READ" and cap: "op_buf_cap (op_at s a) = 2048"
    and b: "op_buf_ref (op_at s a) = Some b" and i: "m (op_client_id (op_at s a)) = Some i" and n: "n \<le> 2048"
  shows "spec (resume_recv env a (of_nat n) s) is_exit (\<lambda>s'. srv_inv s' \<and> kept s s' \<and> sv_bufs s' = sv_bufs s \<and> sv_infos s' = sv_infos s \<and>
    client_map_get (sv_clients s') (sv_infos s') (op_client_id (op_at s a)) = ret (Some i) \<and> sv_flight s' = sv_flight s \<and>
    sv_sq s' = sv_sq s @ [\<lparr>sqe_data = op_pool_id (op_at s a), sqe_req = Recv (op_client_fd (op_at s a)) b n (of_nat (2048 - n))\<rparr>])"
proof -
  have ok: "srv_ok m as s" "a \<in> busy s" "a \<notin> set as" using c by (auto simp: cur_def)
  have k: "unat (of_nat n :: 64 word) = n" using n by (intro unat_of_nat_64) simp
  have sub: "2048 - of_nat n = (of_nat (2048 - n) :: 64 word)" using n by (simp add: of_nat_diff)
  show ?thesis
  proof (rule spec_conseq [OF resume_recv_ok [OF ok, of "of_nat n" env]])
    fix s' assume s': "env_sqe env (length (sv_sq s)) \<and> srv_ok m (as @ [a]) s' \<and> (\<exists>b. op_buf_ref (op_at s a) = Some b \<and>
      armed a (op_at s a) (Recv (op_client_fd (op_at s a)) b (unat (of_nat n :: 64 word)) (2048 - of_nat n)) s s')"
    then have arm: "armed a (op_at s a) (Recv (op_client_fd (op_at s a)) b n (of_nat (2048 - n))) s s'"
      using b by (simp add: k sub del: of_nat_diff)
    then have "kept s s'" by (simp add: armed_def kept_def bufs_kept_def mem_only_eq)
    moreover have "client_map_get (sv_clients s') (sv_infos s') (op_client_id (op_at s a)) = ret (Some i)"
      using s' cm_get [OF srv_okD(2)] i by metis
    moreover have "srv_inv s'" using cur_armed [OF c l _ arm] s' by (simp add: moved_def)
    ultimately show "srv_inv s' \<and> kept s s' \<and> sv_bufs s' = sv_bufs s \<and> sv_infos s' = sv_infos s \<and>
        client_map_get (sv_clients s') (sv_infos s') (op_client_id (op_at s a)) = ret (Some i) \<and> sv_flight s' = sv_flight s \<and>
        sv_sq s' = sv_sq s @ [\<lparr>sqe_data = op_pool_id (op_at s a), sqe_req = Recv (op_client_fd (op_at s a)) b n (of_nat (2048 - n))\<rparr>]"
      using arm by (simp add: armed_def mem_only_eq)
  qed (use t cap k n in simp_all)
qed

lemma recv_stream_ok:
  assumes c: "cur m as a s" and l: "listening s" and t: "op_type (op_at s a) = OP_READ" and cap: "op_buf_cap (op_at s a) = 2048"
    and b: "op_buf_ref (op_at s a) = Some b" and i: "m (op_client_id (op_at s a)) = Some i"
    and buf: "cells (sv_bufs s) b = Some buf" "br_buf buf = concat (map wire_set_username msgs) @ rest"
    and n: "unat n = length (concat (map wire_set_username msgs)) + k" "unat n \<le> 2048" "k < 11" "0 < unat n"
  shows "spec (handle_recv env i a n s) is_exit (\<lambda>s'. srv_inv s' \<and>
    cells (sv_bufs s') b = Some buf \<and> username_of s' i = fold store_name msgs (username_of s i) \<and>
    client_map_get (sv_clients s') (sv_infos s') (op_client_id (op_at s a)) = ret (Some i) \<and> sv_closed s' = sv_closed s \<and>
    sv_flight s' = sv_flight s \<and> (\<exists>qs. sv_sq s' = sv_sq s @ qs @ [\<lparr>sqe_data = op_pool_id (op_at s a), sqe_req = Recv (op_client_fd (op_at s a)) b k (of_nat (2048 - k))\<rparr>] \<and>
      list_all2 (carries s' (op_client_fd (op_at s a)) (op_client_id (op_at s a))) qs (map answer_of msgs)))"
    (is "spec _ _ ?post")
proof -
  have a: "a \<in> busy s" and ok: "srv_ok m as s" using c by (simp_all add: cur_def)
  have resume: "spec (resume_recv env a (of_nat k) s1) is_exit ?post" if s1: "answered m a i msgs s s1" for s1
  proof -
    obtain as1 qs where c1: "cur m as1 a s1" and q: "sv_sq s1 = sv_sq s @ qs" and l1: "listening s1"
      and car: "\<And>s2. kept s1 s2 \<Longrightarrow> list_all2 (carries s2 (op_client_fd (op_at s a)) (op_client_id (op_at s a))) qs (map answer_of msgs)"
      using s1 by (auto simp: answered_def)
    have s1': "op_at s1 a = op_at s a" "cells (sv_bufs s1) b = Some buf" "username_of s1 i = fold store_name msgs (username_of s i)"
      "sv_closed s1 = sv_closed s" "sv_flight s1 = sv_flight s"
      using s1 a b buf(1) by (auto simp: answered_def kept_def bufs_kept_def same_run_def)
    show ?thesis
    proof (rule spec_conseq [OF resume_event [OF c1 l1, where b = b and i = i and n = k]])
      fix s' assume "srv_inv s' \<and> kept s1 s' \<and> sv_bufs s' = sv_bufs s1 \<and> sv_infos s' = sv_infos s1 \<and>
        client_map_get (sv_clients s') (sv_infos s') (op_client_id (op_at s1 a)) = ret (Some i) \<and> sv_flight s' = sv_flight s1 \<and>
        sv_sq s' = sv_sq s1 @ [\<lparr>sqe_data = op_pool_id (op_at s1 a), sqe_req = Recv (op_client_fd (op_at s1 a)) b k (of_nat (2048 - k))\<rparr>]"
      then show "?post s'" using car [of s'] q s1' by (auto simp: kept_def username_of_def)
    qed (use s1' t cap b i n in simp_all)
  qed
  have "spec (handle_recv_loop env i a b 0 n s) is_exit
      (\<lambda>(left, s'). spec (case left of None \<Rightarrow> ret s' | Some n' \<Rightarrow> resume_recv env a n' s') is_exit ?post)"
    by (rule spec_conseq [OF loop_stream [OF c l t b i buf(1) _ n(1-3)]]) (use buf(2) resume in \<open>auto split: option.splits\<close>)
  moreover have "n \<noteq> 0" using n(4) by auto
  ultimately show ?thesis
    using busy_op [OF ok a] b by (simp add: handle_recv_def get_op_def case_prod_unfold)
qed

end
