(* ===== verification/Server_Events.thy ===== *)
theory Server_Events
  imports Server_Props Server_Stream
begin

text \<open>
  Single events, seen from outside: the completion of an entry that is in flight in a state of the
  server's invariant. For each kind of event the properties say what the server does: requests are
  answered in order, a closed connection is forgotten, a partial send goes on where it stopped, a
  late completion only frees its operation; and where the code fails: a failed accept, a request
  of length 0, the copy of an incomplete request, the rest of a request that is shorter than a header.
\<close>

section \<open>Entries in flight\<close>

text \<open>The entry \<open>q\<close> is in flight and belongs to the operation \<open>a\<close>; the ClientInfo of the operation's client.\<close>

definition waiting :: "server \<Rightarrow> sqe \<Rightarrow> nat \<Rightarrow> bool" where
  "waiting s q a \<longleftrightarrow> q \<in> set (sv_flight s) \<and> op_pool_get (sv_pool s) (sqe_data q) = ret (Some a)"

definition client_of :: "server \<Rightarrow> nat \<Rightarrow> nat option comp" where
  "client_of s a = bindC (get_op s a) (\<lambda>op. client_map_get (sv_clients s) (sv_infos s) (op_client_id op))"

definition taken :: "sqe \<Rightarrow> server \<Rightarrow> server" where
  "taken q s = s\<lparr>sv_flight := remove1 q (sv_flight s)\<rparr>"

lemma taken_fields [simp]:
  "sv_pool (taken q s) = sv_pool s" "sv_ops (taken q s) = sv_ops s" "sv_bufs (taken q s) = sv_bufs s"
  "sv_clients (taken q s) = sv_clients s" "sv_infos (taken q s) = sv_infos s" "sv_sq (taken q s) = sv_sq s"
  "sv_closed (taken q s) = sv_closed s" "sv_log (taken q s) = sv_log s" "sv_server_fd (taken q s) = sv_server_fd s"
  "sv_next_client_id (taken q s) = sv_next_client_id s" "sv_flight (taken q s) = remove1 q (sv_flight s)"
  "op_at (taken q s) = op_at s" "busy (taken q s) = busy s"
  by (simp_all add: taken_def op_at_def busy_def fun_eq_iff)

lemma find_key: "distinct (map f xs) \<Longrightarrow> q \<in> set xs \<Longrightarrow> find (\<lambda>x. f x = f q) xs = Some q"
  by (induction xs) (auto simp: image_iff)

lemma waiting_cur:
  assumes inv: "srv_inv s" and w: "waiting s q a"
  obtains m as where "cur m as a (taken q s)" "listening (taken q s)" "sqe_data q = op_pool_id (op_at s a)"
    "request_ok (sv_server_fd s) m (op_at s a) (sqe_req q)" "client_of s a = ret (m (op_client_id (op_at s a)))"
    "find (\<lambda>q'. sqe_data q' = sqe_data q) (sv_flight s) = Some q"
proof -
  have q: "q \<in> set (sv_flight s)" and g: "op_pool_get (sv_pool s) (sqe_data q) = ret (Some a)"
    using w by (simp_all add: waiting_def)
  obtain m as x where x: "cur m as x (taken q s)" "listening (taken q s)" "sqe_data q = op_pool_id (op_at s x)"
    "request_ok (sv_server_fd s) m (op_at s x) (sqe_req q)"
    using cur_entry [OF inv q, folded taken_def] by auto
  have ok: "srv_ok m as (taken q s)" "x \<in> busy (taken q s)" using x(1) by (auto simp: cur_def)
  have "x = a" using busy_get [OF ok] x(3) g by simp
  have "client_of s x = ret (m (op_client_id (op_at s x)))"
    using busy_op [OF ok] cm_get [OF srv_okD(2) [OF ok(1)]] by (simp add: client_of_def get_op_def hget_def)
  moreover have "find (\<lambda>q'. sqe_data q' = sqe_data q) (sv_flight s) = Some q"
    using srv_inv_ring(1) [OF inv] q by (intro find_key) (simp_all add: pend_def)
  ultimately show thesis using x \<open>x = a\<close> that by simp
qed

lemma busy_waits:
  assumes "srv_inv s" and "a \<in> busy s"
  shows "op_pool_get (sv_pool s) (op_pool_id (op_at s a)) = ret (Some a)" and "get_op s a = ret (op_at s a)"
proof -
  obtain m as where ok: "srv_ok m as s" using assms(1) by (auto simp: srv_inv_def)
  show "op_pool_get (sv_pool s) (op_pool_id (op_at s a)) = ret (Some a)" by (rule busy_get [OF ok assms(2)])
  show "get_op s a = ret (op_at s a)" using busy_op [OF ok assms(2)] by (simp add: get_op_def hget_def)
qed

text \<open>A failed entry, a send and a receive of nothing are handled without a change of the memory.\<close>

lemma taken_cqe:
  assumes inv: "srv_inv s" and w: "waiting s q a" and d: "cqe_data c = sqe_data q"
    and res: "cqe_res c < 0 \<or> (case sqe_req q of Send fd b off len \<Rightarrow> True | Recv fd b off len \<Rightarrow> cqe_bytes c = [] | _ \<Rightarrow> False)"
  shows "take_cqes env [c] s = handle_cqe env c (taken q s)"
proof -
  obtain m as where m: "cur m as a (taken q s)" "request_ok (sv_server_fd s) m (op_at s a) (sqe_req q)"
    "find (\<lambda>q'. sqe_data q' = sqe_data q) (sv_flight s) = Some q" using waiting_cur [OF inv w] by metis
  have "deliver c s = ret (taken q s)"
  proof (cases "\<exists>fd b off len. sqe_req q = Recv fd b off len \<and> \<not> cqe_res c < 0")
    case False
    then show ?thesis using m(3) d res by (auto simp: deliver_def Let_def taken_def split: request.splits)
  next
    case True
    then obtain fd b off len where r: "sqe_req q = Recv fd b off len" "\<not> cqe_res c < 0" by blast
    have ok: "srv_ok m as (taken q s)" "a \<in> busy (taken q s)" using m(1) by (auto simp: cur_def)
    have op: "op_buf_ref (op_at s a) = Some b" "op_buf_cap (op_at s a) = 2048" "off \<le> 2048" using m(2) r(1) by auto
    obtain buf where buf: "cells (sv_bufs s) b = Some buf" "length (br_buf buf) = 2048"
      by (rule busy_buf [OF ok]) (use op in auto)
    have "(cells (sv_bufs s))(b \<mapsto> buf\<lparr>br_buf := br_buf buf\<rparr>) = cells (sv_bufs s)" using buf(1) by (auto simp: fun_eq_iff)
    then have "put_buf b (br_buf buf) (taken q s) = ret (taken q s)"
      using srv_ok_put_buf(1) [OF ok(1), of b buf "br_buf buf"] buf(1) by (simp del: fun_upd_apply)
    moreover have "bwrite (br_buf buf) off [] = ret (br_buf buf)" using op(3) buf(2) by (simp add: bwrite_def)
    ultimately show ?thesis
      using m(3) d res r buf(1) by (simp add: deliver_def Let_def get_buf_def hget_def flip: taken_def)
  qed
  then show ?thesis by (simp add: take_cqes_def handle_cqe_batch_def)
qed

text \<open>The state in which a receive of \<open>bytes\<close> is handled.\<close>

definition received :: "sqe \<Rightarrow> nat \<Rightarrow> nat \<Rightarrow> 8 word list \<Rightarrow> server \<Rightarrow> server" where
  "received q b off bytes s = (taken q s)\<lparr>sv_bufs := (sv_bufs s)\<lparr>cells := (cells (sv_bufs s))(b \<mapsto>
     (the (cells (sv_bufs s) b))\<lparr>br_buf :=
       take off (br_buf (the (cells (sv_bufs s) b))) @ bytes @ drop (off + length bytes) (br_buf (the (cells (sv_bufs s) b)))\<rparr>)\<rparr>\<rparr>"

lemma received_fields [simp]:
  "sv_clients (received q b off bytes s) = sv_clients s" "sv_infos (received q b off bytes s) = sv_infos s" "sv_sq (received q b off bytes s) = sv_sq s"
  "sv_closed (received q b off bytes s) = sv_closed s" "sv_server_fd (received q b off bytes s) = sv_server_fd s"
  "sv_flight (received q b off bytes s) = remove1 q (sv_flight s)" "op_at (received q b off bytes s) = op_at s" "username_of (received q b off bytes s) i = username_of s i"
  "cells (sv_bufs (received q b off bytes s)) b = Some ((the (cells (sv_bufs s) b))\<lparr>br_buf :=
     take off (br_buf (the (cells (sv_bufs s) b))) @ bytes @ drop (off + length bytes) (br_buf (the (cells (sv_bufs s) b)))\<rparr>)"
  by (simp_all add: received_def op_at_def username_of_def fun_eq_iff)

lemma recv_event_at:
  assumes inv: "srv_inv s" and w: "waiting s q a" and q: "sqe_req q = Recv fd b off len" and i: "client_of s a = ret (Some i)"
    and c: "cqe_data c = sqe_data q" "cqe_res c = int (length (cqe_bytes c))" "length (cqe_bytes c) \<le> unat len"
  obtains m as where "cur m as a (received q b off (cqe_bytes c) s)" "listening (received q b off (cqe_bytes c) s)"
    "op_type (op_at s a) = OP_READ" "op_buf_cap (op_at s a) = 2048" "op_buf_ref (op_at s a) = Some b"
    "m (op_client_id (op_at s a)) = Some i" "op_client_fd (op_at s a) = fd" "op_pool_id (op_at s a) = sqe_data q"
    "take_cqes env [c] s = handle_recv env i a (of_nat (length (cqe_bytes c))) (received q b off (cqe_bytes c) s)"
proof -
  obtain m as where m: "cur m as a (taken q s)" "listening (taken q s)" "sqe_data q = op_pool_id (op_at s a)"
    "request_ok (sv_server_fd s) m (op_at s a) (sqe_req q)" "client_of s a = ret (m (op_client_id (op_at s a)))"
    "find (\<lambda>q'. sqe_data q' = sqe_data q) (sv_flight s) = Some q" by (rule waiting_cur [OF inv w])
  have ok: "srv_ok m as (taken q s)" "a \<in> busy (taken q s)" using m(1) by (auto simp: cur_def)
  have op: "op_type (op_at s a) = OP_READ" "op_buf_cap (op_at s a) = 2048" "op_buf_ref (op_at s a) = Some b"
    "op_client_fd (op_at s a) = fd" "m (op_client_id (op_at s a)) = Some i" "off + unat len = 2048" using m(4,5) q i by simp_all
  obtain buf where buf: "cells (sv_bufs s) b = Some buf" "length (br_buf buf) = 2048"
    by (rule busy_buf [OF ok]) (use op in auto)
  let ?bytes = "take off (br_buf buf) @ cqe_bytes c @ drop (off + length (cqe_bytes c)) (br_buf buf)" and ?s = "received q b off (cqe_bytes c) s"
  have len: "length ?bytes = length (br_buf buf)" using c(3) op(6) buf(2) by simp
  have s: "?s = (taken q s)\<lparr>sv_bufs := (sv_bufs s)\<lparr>cells := (cells (sv_bufs s))(b \<mapsto> buf\<lparr>br_buf := ?bytes\<rparr>)\<rparr>\<rparr>"
    using buf(1) by (simp add: received_def)
  note pb = srv_ok_put_buf [OF ok(1), of b buf ?bytes, unfolded taken_fields, folded s, OF buf(1) len]
  have cs: "cur m as a ?s" "listening ?s" using cur_same [OF m(1,2), of ?s] pb by (simp_all add: mem_only_eq)
  have "bwrite (br_buf buf) off (cqe_bytes c) = ret ?bytes" using c(3) op(6) buf(2) by (simp add: bwrite_def)
  then have "deliver c s = ret ?s"
    using m(6) c q buf(1) pb(1) by (simp add: deliver_def Let_def get_buf_def hget_def flip: taken_def)
  moreover have "handle_cqe env c ?s = handle_recv env i a (of_nat (length (cqe_bytes c))) ?s"
    using handle_cqe_eq [OF cs(1), of c env] c m(3) op by simp
  ultimately have "take_cqes env [c] s = handle_recv env i a (of_nat (length (cqe_bytes c))) ?s"
    by (simp add: take_cqes_def handle_cqe_batch_def)
  then show thesis by (intro that [OF cs op(1-3,5,4)]) (use m(3) in simp_all)
qed

lemma recv_event:
  assumes "srv_inv s" and "waiting s q a" and "sqe_req q = Recv fd b 0 2048" and "client_of s a = ret (Some i)"
    and "cqe_data c = sqe_data q" "cqe_res c = int (length (cqe_bytes c))" "length (cqe_bytes c) \<le> 2048"
  obtains m as where "cur m as a (received q b 0 (cqe_bytes c) s)" "listening (received q b 0 (cqe_bytes c) s)"
    "op_type (op_at s a) = OP_READ" "op_buf_cap (op_at s a) = 2048" "op_buf_ref (op_at s a) = Some b"
    "m (op_client_id (op_at s a)) = Some i" "op_client_fd (op_at s a) = fd" "op_pool_id (op_at s a) = sqe_data q"
    "take_cqes env [c] s = handle_recv env i a (of_nat (length (cqe_bytes c))) (received q b 0 (cqe_bytes c) s)"
  by (rule recv_event_at [OF assms(1-6)]) (use assms(7) that in simp_all)

definition bytes_of :: "server \<Rightarrow> nat \<Rightarrow> 8 word list" where
  "bytes_of s b = br_buf (the (cells (sv_bufs s) b))"

section \<open>The example, continued\<close>

text \<open>
  The client of the example asks for the name \<open>bob\<close> and is answered (\<open>demo_ans\<close>); then it closes the
  connection while the answer is still being sent (\<open>demo_gone\<close>).
\<close>

definition demo_recv :: sqe where
  "demo_recv = \<lparr>sqe_data = 0, sqe_req = Recv 7 0 0 2048\<rparr>"

definition demo_got :: "8 word list \<Rightarrow> cqe" where
  "demo_got bytes = \<lparr>cqe_data = 0, cqe_res = int (length bytes), cqe_bytes = bytes\<rparr>"

lemmas handle_defs = handle_recv_def handle_def deser_set_username_def
  send_server_error_def send_set_username_response_def send_with_def acquire_small_buf_def get_buf_def put_buf_def
  add_send_def resume_recv_def bwrite_def
  deser_header_def

lemma demo_recv_req: "sqe_req demo_recv = Recv 7 0 0 2048"
  by (simp add: demo_recv_def)

lemma demo_waiting: "waiting demo_conn demo_recv 0"
  by (simp add: waiting_def demo_recv_def demo_conn_def run_defs demo_defs)

lemma demo_client: "client_of demo_conn 0 = ret (Some 0)"
  by (simp add: client_of_def demo_conn_def run_defs demo_defs)


lemma demo_accept_waiting: "waiting demo_conn \<lparr>sqe_data = 1, sqe_req = Accept 3 1\<rparr> 1"
  by (simp add: waiting_def demo_conn_def run_defs demo_defs)

lemma demo_conn_op: "op_client_id (op_at demo_conn 0) = 1" "sv_closed demo_conn = []"
  by (simp_all add: op_at_def demo_conn_def run_defs demo_defs)

lemma demo_conn_map: "client_map_get (sv_clients demo_conn) (sv_infos demo_conn) 2 = ret (Some 1)"
  by (simp add: demo_conn_def run_defs demo_defs)

definition demo_hello :: cqe where
  "demo_hello = demo_got (wire_set_username (1, [98, 111, 98]))"

definition demo_ans :: server where
  "demo_ans = (case server_round demo_env (Waited demo_hello, Peek_again) demo_conn of Some (Inr s) \<Rightarrow> s | _ \<Rightarrow> demo_conn)"

lemma loop_short: "\<not> PROT_HDR_LEN \<le> n \<Longrightarrow> handle_recv_loop env i a b off n s = ret (Some n, s)"
  by (subst handle_recv_loop.simps) simp

lemma demo_hello_bytes: "demo_hello = \<lparr>cqe_data = 0, cqe_res = 14, cqe_bytes = [0, 14, 1, 0, 0, 0, 0, 0, 0, 0, 1, 98, 111, 98]\<rparr>"
  by (simp add: demo_hello_def demo_got_def wire_set_username_def wire_header_def be_bytes_def upt_rec)

lemmas eval_defs = demo_conn_def run_defs demo_defs handle_defs handle_recv_loop.simps [of _ _ _ _ 0] loop_short layout be_word_def
  PROT_HDR_LEN_def BUFFER_SIZE_2KB_def MIN_UNAME_LEN_def MAX_UNAME_LEN_def username_valid_iff isalnum_def ser_set_username_response_wire

lemma demo_ans: "server_round demo_env (Waited demo_hello, Peek_again) demo_conn = ret demo_ans"
  by (simp add: demo_ans_def demo_hello_bytes eval_defs)

definition demo_send :: sqe where
  "demo_send = \<lparr>sqe_data = 2, sqe_req = Send 7 2 0 11\<rparr>"

lemma demo_send_req: "sqe_req demo_send = Send 7 2 0 11"
  by (simp add: demo_send_def)

lemma demo_ans_waiting: "waiting demo_ans demo_send 2" "client_of demo_ans 2 = ret (Some 0)"
  by (simp_all add: waiting_def client_of_def demo_send_def demo_ans_def demo_hello_bytes eval_defs)

definition demo_gone :: server where
  "demo_gone = (case server_round demo_env (Waited (demo_got []), Peek_again) demo_ans of Some (Inr s) \<Rightarrow> s | _ \<Rightarrow> demo_ans)"

lemmas close_defs = disconnect_and_free_op_def must_close_def client_map_delete_def client_map_add_free_def free_op_def srv_release_def slab_release_def
  srv_return_op_def op_pool_return_def chain_search.simps

lemma demo_gone: "server_round demo_env (Waited (demo_got []), Peek_again) demo_ans = ret demo_gone"
  by (simp add: demo_gone_def demo_got_def demo_ans_def demo_hello_bytes eval_defs close_defs)

lemma demo_gone_waiting: "waiting demo_gone demo_send 2" "client_of demo_gone 2 = ret None"
  by (simp_all add: waiting_def client_of_def demo_send_def demo_gone_def demo_got_def demo_ans_def demo_hello_bytes eval_defs close_defs)

lemma demo_ans_inv: "srv_inv demo_ans"
  using server_round_ok [OF demo_env_ok demo_inv, of "(Waited demo_hello, Peek_again)" 0] demo_ans demo_flight
  by (simp add: legal_cqe_def demo_hello_bytes)

lemma demo_gone_inv: "srv_inv demo_gone"
  using server_round_ok [OF demo_env_ok demo_ans_inv, of "(Waited (demo_got []), Peek_again)" 0] demo_gone
  by (simp add: legal_cqe_def demo_got_def demo_ans_def demo_hello_bytes eval_defs)

text \<open>The first seven bytes of the request have arrived.\<close>

definition demo_part :: server where
  "demo_part = (case server_round demo_env (Waited (demo_got [0, 14, 1, 0, 0, 0, 0]), Peek_again) demo_conn of Some (Inr s) \<Rightarrow> s | _ \<Rightarrow> demo_conn)"

lemma demo_part: "server_round demo_env (Waited (demo_got [0, 14, 1, 0, 0, 0, 0]), Peek_again) demo_conn = ret demo_part"
  by (simp add: demo_part_def demo_got_def eval_defs)

lemma demo_part_waiting: "waiting demo_part \<lparr>sqe_data = 0, sqe_req = Recv 7 0 7 2041\<rparr> 0" "client_of demo_part 0 = ret (Some 0)"
  by (simp_all add: waiting_def client_of_def demo_part_def demo_got_def eval_defs)

lemma demo_part_bytes: "take 7 (bytes_of demo_part 0) = [0, 14, 1, 0, 0, 0, 0]"
  by (simp add: bytes_of_def demo_part_def demo_got_def eval_defs)

lemma demo_part_inv: "srv_inv demo_part"
  using server_round_ok [OF demo_env_ok demo_inv, of "(Waited (demo_got [0, 14, 1, 0, 0, 0, 0]), Peek_again)" 0] demo_part demo_flight
  by (simp add: legal_cqe_def demo_got_def)

lemma demo_overrun:
  "take_cqes demo_env [demo_got (wire_set_username (1, [98, 111, 98]) @ wire_header 14 MSGT_SET_USERNAME 2 @ [98])] demo_conn = fail Memmove_overrun"
proof -
  have "wire_set_username (1, [98, 111, 98]) @ wire_header 14 MSGT_SET_USERNAME 2 @ [98] =
      [0, 14, 1, 0, 0, 0, 0, 0, 0, 0, 1, 98, 111, 98, 0, 14, 1, 0, 0, 0, 0, 0, 0, 0, 2, 98]"
    by (simp add: wire_set_username_def wire_header_def be_bytes_def upt_rec)
  then show ?thesis
    by (simp only:) (simp add: demo_got_def memmove_down_def eval_defs handle_recv_loop.simps [of _ _ _ _ 14])
qed

section \<open>Receiving\<close>

lemma wire_nonempty: "msgs \<noteq> [] \<Longrightarrow> 0 < length (concat (map wire_set_username msgs))"
  by (cases msgs) (simp_all add: wire_set_username_def case_prod_unfold)

lemma zero_loop:
  assumes bounded: "\<forall>k\<ge>N. \<not> env_sqe env k"
    and "cur m as a s" and "listening s" and "op_type (op_at s a) = OP_READ"
    and "op_buf_ref (op_at s a) = Some b" and "m (op_client_id (op_at s a)) = Some i"
    and "cells (sv_bufs s) b = Some buf" and "br_buf buf = wire_header 0 MSGT_SET_USERNAME seqid @ rest" and "PROT_HDR_LEN \<le> n"
  shows "spec (handle_recv_loop env i a b 0 n s) is_exit (\<lambda>_. False)"
  using assms(2-7)
proof (induction "N - length (sv_sq s)" arbitrary: as s rule: less_induct)
  case less
  have ok: "srv_ok m as s" and a: "a \<in> busy s" using less.prems(1) by (auto simp: cur_def)
  obtain ci where ci: "cells (sv_infos s) i = Some ci" using cm_rep_live [OF srv_okD(2) [OF ok] less.prems(5)] by metis
  define h where "h = \<lparr>hd_len = 0, hd_msgt = msgt_val MSGT_SET_USERNAME, hd_seqid = seqid\<rparr>"
  have dh: "deser_header (env_endian env) (drop 0 (br_buf buf)) = ret h"
    unfolding h_def assms(8) drop_0 by (rule deser_header_wire)
  have turn: "handle_recv_loop env i a b 0 n s = bindC (handle env i a b 0 0 (msgt_val MSGT_SET_USERNAME) seqid s) (\<lambda>(r, s).
      if r = - 1 then bindC (disconnect_and_free_op env (Some i) a s) (\<lambda>s. ret (None, s))
      else handle_recv_loop env i a b 0 n s)"
    using recv_loop_turn(3) [OF less.prems(6) dh assms(9)] by (simp add: h_def cong: if_cong)
  have hd: "spec (handle env i a b 0 0 (msgt_val MSGT_SET_USERNAME) seqid s) is_exit (\<lambda>(r, s'). r = 0 \<and>
      env_sqe env (length (sv_sq s)) \<and> (\<exists>x msg. srv_ok m (as @ [x]) s' \<and> sent x (op_client_fd (op_at s a)) (op_client_id (op_at s a)) msg s s'))"
    by (rule spec_conseq [OF handle_ok [OF ok a ci less.prems(6), of 0 0 env "msgt_val MSGT_SET_USERNAME" seqid]])
      (auto simp: name_ok_def)
  have next_turn: "spec (handle_recv_loop env i a b 0 n s') is_exit (\<lambda>_. False)"
    if sqe: "env_sqe env (length (sv_sq s))" and x: "srv_ok m (as @ [x]) s'"
      "sent x (op_client_fd (op_at s a)) (op_client_id (op_at s a)) msg s s'" for s' x msg
  proof -
    note c' = cur_sent [OF less.prems(1-3) refl refl refl x]
    have "length (sv_sq s) < N" using bounded sqe by (meson not_le)
    then have "N - length (sv_sq s') < N - length (sv_sq s)" using c'(5) by simp
    moreover have "cells (sv_bufs s') b = Some buf"
      using x(2) a less.prems(4,6) by (simp add: sent_def op_added_def bufs_kept_def)
    ultimately show ?thesis using less.hyps [OF _ c'(1,2)] c'(3) less.prems(3-5) by simp
  qed
  show ?case unfolding turn by (rule spec_bindI [OF hd]) (use next_turn in auto)
qed

text \<open>Whole requests and after them fewer than a header's bytes, in one receive.\<close>

lemma recv_stream_event:
  assumes ev: "srv_inv s" "waiting s q a" "sqe_req q = Recv fd b 0 2048" "client_of s a = ret (Some i)"
      "cqe_data c = sqe_data q" "cqe_res c = int (length (cqe_bytes c))" "length (cqe_bytes c) \<le> 2048"
    and c: "cqe_bytes c = concat (map wire_set_username msgs) @ tail" and m: "msgs \<noteq> []" and t: "length tail < 11"
  shows "spec (take_cqes env [c] s) is_exit (\<lambda>s'. srv_inv s' \<and>
    username_of s' i = fold store_name msgs (username_of s i) \<and>
    client_map_get (sv_clients s') (sv_infos s') (op_client_id (op_at s a)) = ret (Some i) \<and> sv_closed s' = sv_closed s \<and>
    bytes_of s' b = cqe_bytes c @ drop (length (cqe_bytes c)) (bytes_of s b) \<and> sv_flight s' = remove1 q (sv_flight s) \<and>
    (\<exists>qs. sv_sq s' = sv_sq s @ qs @ [\<lparr>sqe_data = sqe_data q, sqe_req = Recv fd b (length tail) (of_nat (2048 - length tail))\<rparr>] \<and>
      list_all2 (carries s' fd (op_client_id (op_at s a))) qs (map answer_of msgs)))"
proof -
  let ?s = "received q b 0 (cqe_bytes c) s"
  obtain m as where r: "cur m as a ?s" "listening ?s" "op_type (op_at s a) = OP_READ" "op_buf_cap (op_at s a) = 2048"
    "op_buf_ref (op_at s a) = Some b" "m (op_client_id (op_at s a)) = Some i" "op_client_fd (op_at s a) = fd"
    "op_pool_id (op_at s a) = sqe_data q"
    "take_cqes env [c] s = handle_recv env i a (of_nat (length (cqe_bytes c))) ?s"
    by (rule recv_event [OF ev])
  have n: "unat (of_nat (length (cqe_bytes c)) :: 64 word) = length (cqe_bytes c)" using ev(7) by (intro unat_of_nat_64) simp
  let ?buf = "the (cells (sv_bufs s) b)" and ?rest = "drop (length (cqe_bytes c)) (br_buf (the (cells (sv_bufs s) b)))"
  have buf: "cells (sv_bufs ?s) b = Some (?buf\<lparr>br_buf := cqe_bytes c @ ?rest\<rparr>)"
    "br_buf (?buf\<lparr>br_buf := cqe_bytes c @ ?rest\<rparr>) = concat (map wire_set_username msgs) @ tail @ ?rest" using c by simp_all
  have len: "unat (of_nat (length (cqe_bytes c)) :: 64 word) = length (concat (map wire_set_username msgs)) + length tail"
    "unat (of_nat (length (cqe_bytes c)) :: 64 word) \<le> 2048" "0 < unat (of_nat (length (cqe_bytes c)) :: 64 word)"
    unfolding n using c ev(7) wire_nonempty [OF m] by simp_all
  have "spec (handle_recv env i a (of_nat (length (cqe_bytes c))) ?s) is_exit (\<lambda>s'. srv_inv s' \<and>
    cells (sv_bufs s') b = Some (?buf\<lparr>br_buf := cqe_bytes c @ ?rest\<rparr>) \<and>
    username_of s' i = fold store_name msgs (username_of ?s i) \<and>
    client_map_get (sv_clients s') (sv_infos s') (op_client_id (op_at ?s a)) = ret (Some i) \<and> sv_closed s' = sv_closed ?s \<and>
    sv_flight s' = sv_flight ?s \<and> (\<exists>qs. sv_sq s' = sv_sq ?s @ qs @ [\<lparr>sqe_data = op_pool_id (op_at ?s a),
        sqe_req = Recv (op_client_fd (op_at ?s a)) b (length tail) (of_nat (2048 - length tail))\<rparr>] \<and>
      list_all2 (carries s' (op_client_fd (op_at ?s a)) (op_client_id (op_at ?s a))) qs (map answer_of msgs)))"
    by (rule recv_stream_ok [OF r(1,2) _ _ _ _ buf len(1,2) t len(3)]) (use r in simp_all)
  then show ?thesis unfolding r(9) by (rule spec_conseq) (use r(7,8) in \<open>auto simp: bytes_of_def\<close>)
qed

text \<open>
  C8. Every completion is handled in finitely many steps: whatever bytes a client has sent, the loop
  of \<open>handle_recv\<close> ends, because each of its turns takes an entry of the finite submission queue.
\<close>

theorem completion_terminates:
  assumes "env_ok N env" and "srv_inv s" and "legal_cqe (sv_flight s) c" and "sv_next_client_id s \<noteq> - 1"
  shows "\<exists>r. take_cqes env [c] s = Some r"
  using take_cqe_ok [OF assms] by (auto simp: take_cqes_def spec_def split: option.splits)

theorem completion_terminates_witness:
  "\<exists>r. take_cqes demo_env [demo_got (replicate 100 0)] demo_conn = Some r"
  by (rule completion_terminates [OF demo_env_ok demo_inv]) (simp_all add: demo_flight legal_cqe_def demo_got_def)

text \<open>
  C5. Requests that arrive in one receive are answered: the server exits for lack of memory or of room
  in the submission queue, or it has prepared, in the order of the requests, one send of the right
  answer each (from a buffer of its own, on the client's descriptor), has stored the last valid
  username, keeps the client connected and receives again into the whole buffer.
\<close>

theorem recv_answers:
  assumes "srv_inv s" and "waiting s q a" and "sqe_req q = Recv fd b 0 2048" and "client_of s a = ret (Some i)"
    and "cqe_data c = sqe_data q" and "cqe_res c = int (length (cqe_bytes c))" and "length (cqe_bytes c) \<le> 2048"
    and "cqe_bytes c = concat (map wire_set_username msgs)" and "msgs \<noteq> []"
  shows "spec (take_cqes env [c] s) is_exit (\<lambda>s'. srv_inv s' \<and>
    username_of s' i = fold store_name msgs (username_of s i) \<and>
    client_map_get (sv_clients s') (sv_infos s') (op_client_id (op_at s a)) = ret (Some i) \<and> sv_closed s' = sv_closed s \<and>
    (\<exists>qs. sv_sq s' = sv_sq s @ qs @ [\<lparr>sqe_data = sqe_data q, sqe_req = Recv fd b 0 2048\<rparr>] \<and>
      list_all2 (carries s' fd (op_client_id (op_at s a))) qs (map answer_of msgs)))"
  by (rule spec_conseq [OF recv_stream_event [OF assms(1-7), of msgs "[]"]]) (use assms(8,9) in auto)

theorem recv_answers_witness:
  "spec (take_cqes demo_env [demo_hello] demo_conn) is_exit (\<lambda>s'. srv_inv s' \<and>
    username_of s' 0 = fold store_name [(1, [98, 111, 98])] (username_of demo_conn 0) \<and>
    client_map_get (sv_clients s') (sv_infos s') 1 = ret (Some 0) \<and> sv_closed s' = [] \<and>
    (\<exists>qs. sv_sq s' = sv_sq demo_conn @ qs @ [\<lparr>sqe_data = sqe_data demo_recv, sqe_req = Recv 7 0 0 2048\<rparr>] \<and>
      list_all2 (carries s' 7 1) qs (map answer_of [(1, [98, 111, 98])]))) \<and>
   server_round demo_env (Waited demo_hello, Peek_again) demo_conn = ret demo_ans"
  using recv_answers [OF demo_inv demo_waiting demo_recv_req demo_client, of demo_hello "[(1, [98, 111, 98])]" demo_env] demo_ans
  by (simp add: demo_hello_def demo_got_def demo_recv_def demo_conn_op)

text \<open>
  C16. A rest shorter than a header is lost: when after whole requests 1 to 10 bytes of the next one
  have arrived, the server goes on receiving at an offset of as many bytes, but these bytes are
  still at their old place, and the buffer begins with the first bytes of the first request.
\<close>

theorem recv_tail_lost:
  assumes "srv_inv s" and "waiting s q a" and "sqe_req q = Recv fd b 0 2048" and "client_of s a = ret (Some i)"
    and "cqe_data c = sqe_data q" and "cqe_res c = int (length (cqe_bytes c))" and "length (cqe_bytes c) \<le> 2048"
    and "cqe_bytes c = concat (map wire_set_username (msg # msgs)) @ tail" and "tail \<noteq> []" and "length tail < 11"
  shows "spec (take_cqes env [c] s) is_exit (\<lambda>s'. sqe_req (last (sv_sq s')) = Recv fd b (length tail) (of_nat (2048 - length tail)) \<and>
    take (length tail) (bytes_of s' b) = take (length tail) (wire_set_username msg))"
proof (rule spec_conseq [OF recv_stream_event [OF assms(1-8) list.distinct(2) assms(10)]], elim conjE exE)
  fix s' qs
  assume "bytes_of s' b = cqe_bytes c @ drop (length (cqe_bytes c)) (bytes_of s b)"
    and "sv_sq s' = sv_sq s @ qs @ [\<lparr>sqe_data = sqe_data q, sqe_req = Recv fd b (length tail) (of_nat (2048 - length tail))\<rparr>]"
  moreover have "length tail \<le> length (wire_set_username msg)"
    using assms(10) by (simp add: wire_set_username_def case_prod_unfold)
  ultimately show "sqe_req (last (sv_sq s')) = Recv fd b (length tail) (of_nat (2048 - length tail)) \<and>
    take (length tail) (bytes_of s' b) = take (length tail) (wire_set_username msg)" using assms(8) by simp
qed

theorem recv_tail_lost_witness:
  "spec (take_cqes demo_env [demo_got (wire_set_username (1, [98, 111, 98]) @ [0, 14])] demo_conn) is_exit (\<lambda>s'.
    sqe_req (last (sv_sq s')) = Recv 7 0 2 2046 \<and>
    take 2 (bytes_of s' 0) = take 2 (wire_set_username (1, [98, 111, 98])))"
  using recv_tail_lost [OF demo_inv demo_waiting demo_recv_req demo_client,
      of "demo_got (wire_set_username (1, [98, 111, 98]) @ [0, 14])" "(1, [98, 111, 98])" "[]" "[0, 14]" demo_env]
  by (simp add: demo_got_def demo_recv_def wire_set_username_def numeral_2_eq_2)

text \<open>
  C17. What was received before is forgotten: a receive that continues at an offset and delivers fewer
  bytes than a header has answers nothing, even if the request is complete with the bytes before
  the offset, and the next receive starts at as many bytes as this one delivered, over the earlier ones.
\<close>

theorem recv_prefix_forgotten:
  assumes "srv_inv s" and "waiting s q a" and "sqe_req q = Recv fd b off len" and "client_of s a = ret (Some i)"
    and "cqe_data c = sqe_data q" and "cqe_res c = int (length (cqe_bytes c))" and "length (cqe_bytes c) \<le> unat len"
    and "cqe_bytes c \<noteq> []" and "length (cqe_bytes c) < 11"
  shows "spec (take_cqes env [c] s) is_exit (\<lambda>s'. srv_inv s' \<and>
    bytes_of s' b = take off (bytes_of s b) @ cqe_bytes c @ drop (off + length (cqe_bytes c)) (bytes_of s b) \<and>
    sv_sq s' = sv_sq s @ [\<lparr>sqe_data = sqe_data q, sqe_req = Recv fd b (length (cqe_bytes c)) (2048 - of_nat (length (cqe_bytes c)))\<rparr>])"
proof -
  let ?n = "of_nat (length (cqe_bytes c)) :: 64 word" and ?s = "received q b off (cqe_bytes c) s"
  obtain m as where r: "cur m as a ?s" "listening ?s" "op_type (op_at s a) = OP_READ" "op_buf_cap (op_at s a) = 2048"
    "op_buf_ref (op_at s a) = Some b" "op_client_fd (op_at s a) = fd" "op_pool_id (op_at s a) = sqe_data q"
    "take_cqes env [c] s = handle_recv env i a ?n ?s"
    by (rule recv_event_at [OF assms(1-7)])
  have ok: "srv_ok m as ?s" and a: "a \<in> busy ?s" "a \<notin> set as" using r(1) by (auto simp: cur_def)
  have n: "unat ?n = length (cqe_bytes c)" using assms(9) by (intro unat_of_nat_64) simp
  then have short: "?n \<noteq> 0" "\<not> PROT_HDR_LEN \<le> ?n" using assms(8,9) by (auto simp: PROT_HDR_LEN_def word_le_nat_alt simp flip: unat_eq_0)
  have op: "op_buf_cap (op_at ?s a) = 2048" "op_type (op_at ?s a) = OP_READ" "unat ?n \<le> 2048" using r(3,4) n assms(9) by simp_all
  have "handle_recv env i a ?n ?s = resume_recv env a ?n ?s"
    using short busy_op [OF ok a(1)] r(5) loop_short [OF short(2)] by (simp add: handle_recv_def get_op_def hget_def ptr_def)
  moreover have "spec (resume_recv env a ?n ?s) is_exit (\<lambda>s'. moved ?s s' \<and> sv_bufs s' = sv_bufs ?s \<and>
      sv_sq s' = sv_sq s @ [\<lparr>sqe_data = sqe_data q, sqe_req = Recv fd b (length (cqe_bytes c)) (2048 - ?n)\<rparr>])"
  proof (rule spec_conseq [OF resume_recv_ok [OF ok a op]], elim conjE exE)
    fix s' b' assume s': "srv_ok m (as @ [a]) s'" "op_buf_ref (op_at ?s a) = Some b'"
      and arm: "armed a (op_at ?s a) (Recv (op_client_fd (op_at ?s a)) b' (unat ?n) (2048 - ?n)) ?s s'"
    have "moved ?s s'" using cur_armed [OF r(1,2) s'(1) arm] by simp
    then show "moved ?s s' \<and> sv_bufs s' = sv_bufs ?s \<and>
        sv_sq s' = sv_sq s @ [\<lparr>sqe_data = sqe_data q, sqe_req = Recv fd b (length (cqe_bytes c)) (2048 - ?n)\<rparr>]"
      using arm s'(2) r(5-7) n by (simp add: armed_def)
  qed
  ultimately show ?thesis
    unfolding r(8) by (auto simp: moved_def bytes_of_def elim!: spec_conseq)
qed

theorem recv_prefix_forgotten_witness:
  "spec (take_cqes demo_env [demo_got [0, 0, 0, 1, 98, 111, 98]] demo_part) is_exit (\<lambda>s'.
    take 14 (bytes_of s' 0) = wire_set_username (1, [98, 111, 98]) \<and>
    sv_sq s' = sv_sq demo_part @ [\<lparr>sqe_data = 0, sqe_req = Recv 7 0 7 2041\<rparr>])"
proof -
  let ?q = "\<lparr>sqe_data = 0, sqe_req = Recv 7 0 7 2041\<rparr>" and ?c = "demo_got [0, 0, 0, 1, 98, 111, 98]"
  have c: "sqe_req ?q = Recv 7 0 7 2041" "cqe_data ?c = sqe_data ?q" "cqe_res ?c = int (length (cqe_bytes ?c))" "length (cqe_bytes ?c) \<le> unat (2041 :: 64 word)"
    "cqe_bytes ?c \<noteq> []" "length (cqe_bytes ?c) < 11"
    by (simp_all add: demo_got_def)
  have "length (cqe_bytes ?c) = 7" "2048 - word_of_nat 7 = (2041 :: 64 word)" by (simp_all add: demo_got_def)
  moreover have "take 7 (bytes_of demo_part 0) @ cqe_bytes ?c = wire_set_username (1, [98, 111, 98])"
    by (simp add: demo_part_bytes demo_got_def wire_set_username_def wire_header_def be_bytes_def upt_rec)
  moreover have "length (wire_set_username (1, [98, 111, 98])) = 14" by (simp add: wire_set_username_def)
  ultimately show ?thesis
    by (intro spec_conseq [OF recv_prefix_forgotten [OF demo_part_inv demo_part_waiting(1) c(1) demo_part_waiting(2) c(2-)]])
      (simp flip: append_assoc)
qed

text \<open>
  C15. The copy of an incomplete request runs out of the buffer: when after whole requests the
  beginning of another one has arrived, header included, that is shorter than what was answered,
  the server exits or copies beyond the end of the receive buffer; it never gets past the copy.
\<close>

theorem recv_overrun:
  assumes "srv_inv s" and "waiting s q a" and "sqe_req q = Recv fd b 0 2048" and "client_of s a = ret (Some i)"
    and "cqe_data c = sqe_data q" and "cqe_res c = int (length (cqe_bytes c))" and "length (cqe_bytes c) \<le> 2048"
    and "cqe_bytes c = concat (map wire_set_username msgs) @ wire_header len msgt seqid @ part"
    and "11 + length part < unat len" and "unat len \<le> 2048" and "11 + length part < length (concat (map wire_set_username msgs))"
  shows "spec (take_cqes env [c] s) (\<lambda>f. is_exit f \<or> f = Memmove_overrun) (\<lambda>_. False)"
proof -
  let ?s = "received q b 0 (cqe_bytes c) s" and ?off = "length (concat (map wire_set_username msgs))" and ?n = "11 + length part"
  obtain m as where r: "cur m as a ?s" "listening ?s" "op_type (op_at s a) = OP_READ" "op_buf_cap (op_at s a) = 2048"
    "op_buf_ref (op_at s a) = Some b" "m (op_client_id (op_at s a)) = Some i" "op_client_fd (op_at s a) = fd"
    "op_pool_id (op_at s a) = sqe_data q"
    "take_cqes env [c] s = handle_recv env i a (of_nat (length (cqe_bytes c))) ?s"
    by (rule recv_event [OF assms(1-7)])
  have ok: "srv_ok m as ?s" and a: "a \<in> busy ?s" using r(1) by (simp_all add: cur_def)
  let ?rest = "drop (length (cqe_bytes c)) (br_buf (the (cells (sv_bufs s) b)))"
  define buf where "buf = (the (cells (sv_bufs s) b))\<lparr>br_buf := cqe_bytes c @ ?rest\<rparr>"
  have buf: "cells (sv_bufs ?s) b = Some buf" "drop 0 (br_buf buf) = concat (map wire_set_username msgs) @ (wire_header len msgt seqid @ part @ ?rest)"
    using assms(8) by (simp_all add: buf_def)
  have n: "unat (of_nat (length (cqe_bytes c)) :: 64 word) = length (cqe_bytes c)" "unat (of_nat ?n :: 64 word) = ?n"
    using assms(7,9,10) by (intro unat_of_nat_64; simp)+
  have tot: "length (cqe_bytes c) = ?off + ?n" using assms(8) by simp
  have stop: "spec (handle_recv_loop env i a b (0 + ?off) (of_nat ?n) s1) (\<lambda>f. is_exit f \<or> f = Memmove_overrun) (\<lambda>_. False)"
    if ans: "answered m a i msgs ?s s1" for s1
  proof -
    obtain as1 where c1: "cur m as1 a s1" and k: "kept ?s s1" using ans by (auto simp: answered_def)
    then have s1: "op_at s1 a = op_at s a" "cells (sv_bufs s1) b = Some buf" "srv_ok m as1 s1" "a \<in> busy s1"
      using a r(5) buf(1) by (auto simp: kept_def bufs_kept_def cur_def)
    have len: "length (br_buf buf) = 2048" by (rule busy_buf [OF s1(3,4)]) (use s1 r in auto)
    define h where "h = \<lparr>hd_len = len, hd_msgt = msgt_val msgt, hd_seqid = seqid\<rparr>"
    have dh: "deser_header (env_endian env) (drop (0 + ?off) (br_buf buf)) = ret h"
      using buf(2) by (simp add: h_def)
    have hl: "\<not> ucast (hd_len h) > BUFFER_SIZE_2KB" "of_nat ?n < (ucast (hd_len h) :: 64 word)" "PROT_HDR_LEN \<le> of_nat ?n"
      using assms(9,10) n(2) by (simp_all add: h_def BUFFER_SIZE_2KB_def PROT_HDR_LEN_def word_less_nat_alt word_le_nat_alt unsigned_ucast_eq take_bit_eq_mod del: of_nat_add)
    have "memmove_down b ?off (unat (2048 - of_nat ?n :: 64 word)) s1 = fail Memmove_overrun"
      using memmove_down_ok [OF s1(3,2) len, of "of_nat ?n" ?off] n(2) assms(7,11) tot by (simp del: of_nat_add)
    moreover have "?off \<noteq> 0" using assms(11) by linarith
    ultimately show ?thesis
      using recv_loop_turn(2) [OF s1(2) dh hl(3,1,2)] busy_op [OF s1(3,4)] s1(1) r(4)
      by (simp add: get_op_def del: of_nat_add)
  qed
  have "spec (handle_recv_loop env i a b 0 (of_nat (length (cqe_bytes c))) ?s) (\<lambda>f. is_exit f \<or> f = Memmove_overrun) (\<lambda>_. False)"
    by (rule loop_requests [OF r(1,2) _ _ _ buf, where t = ?n]) (use r n(1) tot assms(7) stop in simp_all)
  moreover have "of_nat (length (cqe_bytes c)) \<noteq> (0 :: 64 word)" using n(1) tot by auto
  ultimately show ?thesis
    unfolding r(9) using busy_op [OF ok a] r(5) by (auto simp: handle_recv_def get_op_def elim: spec_conseq)
qed

theorem recv_overrun_witness:
  "spec (take_cqes demo_env [demo_got (wire_set_username (1, [98, 111, 98]) @ wire_header 14 MSGT_SET_USERNAME 2 @ [98])] demo_conn)
     (\<lambda>f. is_exit f \<or> f = Memmove_overrun) (\<lambda>_. False) \<and>
   take_cqes demo_env [demo_got (wire_set_username (1, [98, 111, 98]) @ wire_header 14 MSGT_SET_USERNAME 2 @ [98])] demo_conn = fail Memmove_overrun"
  using recv_overrun [OF demo_inv demo_waiting demo_recv_req demo_client,
      of "demo_got (wire_set_username (1, [98, 111, 98]) @ wire_header 14 MSGT_SET_USERNAME 2 @ [98])" "[(1, [98, 111, 98])]"
        14 MSGT_SET_USERNAME 2 "[98]" demo_env] demo_overrun
  by (simp add: demo_got_def demo_recv_def wire_set_username_def)

lemma zero_length_event:
  assumes "env_ok N env"
    and "srv_inv s" and "waiting s q a" and "sqe_req q = Recv fd b 0 2048" and "client_of s a = ret (Some i)"
    and "cqe_data c = sqe_data q" and "cqe_res c = int (length (cqe_bytes c))" and "length (cqe_bytes c) \<le> 2048"
    and "cqe_bytes c = wire_header 0 MSGT_SET_USERNAME seqid @ rest"
  shows "spec (take_cqes env [c] s) is_exit (\<lambda>_. False)"
proof -
  let ?s = "received q b 0 (cqe_bytes c) s" and ?n = "of_nat (length (cqe_bytes c)) :: 64 word"
  obtain m as where r: "cur m as a ?s" "listening ?s" "op_type (op_at s a) = OP_READ" "op_buf_cap (op_at s a) = 2048"
    "op_buf_ref (op_at s a) = Some b" "m (op_client_id (op_at s a)) = Some i" "op_client_fd (op_at s a) = fd"
    "op_pool_id (op_at s a) = sqe_data q"
    "take_cqes env [c] s = handle_recv env i a ?n ?s"
    by (rule recv_event [OF assms(2-8)])
  have ok: "srv_ok m as ?s" and a: "a \<in> busy ?s" using r(1) by (simp_all add: cur_def)
  have n: "unat ?n = length (cqe_bytes c)" using assms(8) by (intro unat_of_nat_64) simp
  then have n11: "PROT_HDR_LEN \<le> ?n" "?n \<noteq> 0" using assms(9) by (auto simp: PROT_HDR_LEN_def word_le_nat_alt)
  have "spec (handle_recv_loop env i a b 0 ?n ?s) is_exit (\<lambda>_. False)"
    by (rule zero_loop [OF _ r(1,2), where N = N and seqid = seqid and
          rest = "rest @ drop (length (cqe_bytes c)) (br_buf (the (cells (sv_bufs s) b)))"])
      (use assms(1,9) r n11 in \<open>auto simp: env_ok_def\<close>)
  then show ?thesis
    unfolding r(9) using busy_op [OF ok a] r(5) n11(2) by (auto simp: handle_recv_def get_op_def elim: spec_conseq)
qed

text \<open>
  C14. A request of length 0 ends the server: a client that sends the 11 bytes of a SET_USERNAME header
  with length 0 (and anything after it) makes the loop of \<open>handle_recv\<close> answer it again and again
  without going forward, until the process exits; the completion is never handled to its end.
\<close>

theorem zero_length_request_exits:
  assumes "env_ok N env"
    and "srv_inv s" and "waiting s q a" and "sqe_req q = Recv fd b 0 2048" and "client_of s a = ret (Some i)"
    and "cqe_data c = sqe_data q" and "cqe_res c = int (length (cqe_bytes c))" and "length (cqe_bytes c) \<le> 2048"
    and "cqe_bytes c = wire_header 0 MSGT_SET_USERNAME seqid @ rest"
  shows "spec (take_cqes env [c] s) is_exit (\<lambda>_. False)"
  using assms by (rule zero_length_event)

theorem zero_length_request_exits_witness:
  "spec (take_cqes demo_env [demo_got (wire_header 0 MSGT_SET_USERNAME 1)] demo_conn) is_exit (\<lambda>_. False)"
  using zero_length_request_exits [OF demo_env_ok demo_inv demo_waiting demo_recv_req demo_client,
      of "demo_got (wire_header 0 MSGT_SET_USERNAME 1)" 1 "[]"]
  by (simp add: demo_got_def demo_recv_def)

section \<open>Accepting, sending, disconnecting\<close>

text \<open>
  C18. A failed accept ends the server: the completion of the accept with an error is treated like
  one of a connected client, and closing the descriptor -1 that the operation still has exits.
\<close>

theorem failed_accept_exits:
  assumes "env_ok N env" and "srv_inv s" and "waiting s q a" and "sqe_req q = Accept fd i"
    and "cqe_data c = sqe_data q" and "cqe_res c < 0"
  shows "\<exists>f. take_cqes env [c] s = fail f \<and> is_exit f"
proof -
  obtain m as where m: "cur m as a (taken q s)" "sqe_data q = op_pool_id (op_at s a)"
    "request_ok (sv_server_fd s) m (op_at s a) (sqe_req q)" using waiting_cur [OF assms(2,3)] by metis
  have ok: "srv_ok m as (taken q s)" "a \<in> busy (taken q s)" using m(1) by (auto simp: cur_def)
  have op: "op_client_fd (op_at s a) = - 1" "m (op_client_id (op_at s a)) = Some i" using m(3) assms(4) by auto
  obtain ci where ci: "cells (sv_infos (taken q s)) i = Some ci" using cm_rep_live [OF srv_okD(2) [OF ok(1)] op(2)] by metis
  have "take_cqes env [c] s = disconnect_and_free_op env (Some i) a (taken q s)"
    using taken_cqe [OF assms(2,3,5)] handle_cqe_eq [OF m(1), of c] assms(5,6) m(2) op(2) by simp
  then show ?thesis
    using assms(1) log_ok [OF ok(1) ci] busy_op [OF ok] op(1)
    by (simp add: disconnect_and_free_op_def get_op_def hget_def must_close_def fatal_error_def env_ok_def)
qed

theorem failed_accept_exits_witness:
  "\<exists>f. take_cqes demo_env [\<lparr>cqe_data = 1, cqe_res = - 24, cqe_bytes = []\<rparr>] demo_conn = fail f \<and> is_exit f"
  by (rule failed_accept_exits [OF demo_env_ok demo_inv demo_accept_waiting]) simp_all

text \<open>The client of the current operation is disconnected.\<close>

lemma disconnect_event:
  assumes c: "cur m as a s" and l: "listening s" and t: "op_type (op_at s a) = OP_READ" and i: "m (op_client_id (op_at s a)) = Some i"
  shows "spec (disconnect_and_free_op env (Some i) a s) is_exit (\<lambda>s'. srv_inv s' \<and>
    sv_closed s' = sv_closed s @ [op_client_fd (op_at s a)] \<and> sv_flight s' = sv_flight s \<and> sv_sq s' = sv_sq s \<and> busy s' = busy s - {a} \<and>
    (\<forall>k. client_map_get (sv_clients s') (sv_infos s') k =
      (if k = op_client_id (op_at s a) then ret None else client_map_get (sv_clients s) (sv_infos s) k)))"
proof -
  have ok: "srv_ok m as s" and a: "a \<in> busy s" "a \<notin> set as" and sub: "set as \<subseteq> busy s" and ids: "ids_ok m s"
    using c by (auto simp: cur_def)
  have acc: "op_client_id (op_at s x) \<noteq> op_client_id (op_at s a)" if "x \<in> set as" "op_type (op_at s x) = OP_ACCEPT" for x
    using ids that sub a unfolding ids_ok_def by (metis subsetD)
  have inv: "spec (disconnect_and_free_op env (Some i) a s) is_exit (moved s)"
    using cur_disconnect [OF c l _ i, of env] t by (auto simp: served_def elim!: spec_conseq)
  show ?thesis
  proof (rule spec_mono [OF spec_conj [OF inv disconnect_ok [OF ok a i acc]]])
    let ?m = "m(op_client_id (op_at s a) := None)"
    fix s' assume s': "moved s s' \<and> srv_ok ?m as s' \<and> busy s' = busy s - {a} \<and> (\<forall>x. x \<noteq> a \<longrightarrow> op_at s' x = op_at s x) \<and>
      sv_closed s' = sv_closed s @ [op_client_fd (op_at s a)] \<and> sv_sq s' = sv_sq s \<and> sv_flight s' = sv_flight s \<and>
      sv_next_client_id s' = sv_next_client_id s \<and> sv_server_fd s' = sv_server_fd s \<and> peers m (op_client_id (op_at s a)) s s'"
    then have "client_map_get (sv_clients s') (sv_infos s') k = ret (?m k)" for k
      by (intro cm_get srv_okD(2) [of _ as]) (simp del: fun_upd_apply)
    moreover have "client_map_get (sv_clients s) (sv_infos s) k = ret (m k)" for k
      using cm_get [OF srv_okD(2) [OF ok]] by simp
    ultimately show "srv_inv s' \<and> sv_closed s' = sv_closed s @ [op_client_fd (op_at s a)] \<and> sv_flight s' = sv_flight s \<and>
        sv_sq s' = sv_sq s \<and> busy s' = busy s - {a} \<and> (\<forall>k. client_map_get (sv_clients s') (sv_infos s') k =
          (if k = op_client_id (op_at s a) then ret None else client_map_get (sv_clients s) (sv_infos s) k))"
      using s' by (simp add: moved_def)
  qed simp_all
qed

text \<open>
  C11. A client that is gone is forgotten: when a receive fails or delivers nothing, the server exits
  (a failed close or no memory), or it has closed the client's descriptor once, no longer finds the
  client's id and finds every other one as before, and has no new entry in the ring.
\<close>

theorem recv_closed:
  assumes "srv_inv s" and "waiting s q a" and "sqe_req q = Recv fd b off len" and "client_of s a = ret (Some i)"
    and "cqe_data c = sqe_data q" and "cqe_res c < 0 \<or> cqe_res c = 0 \<and> cqe_bytes c = []"
  shows "spec (take_cqes env [c] s) is_exit (\<lambda>s'. srv_inv s' \<and> sv_closed s' = sv_closed s @ [fd] \<and>
    sv_flight s' = remove1 q (sv_flight s) \<and> sv_sq s' = sv_sq s \<and> busy s' = busy s - {a} \<and>
    (\<forall>k. client_map_get (sv_clients s') (sv_infos s') k =
      (if k = op_client_id (op_at s a) then ret None else client_map_get (sv_clients s) (sv_infos s) k)))"
proof -
  obtain m as where m: "cur m as a (taken q s)" "listening (taken q s)" "sqe_data q = op_pool_id (op_at s a)"
    "request_ok (sv_server_fd s) m (op_at s a) (sqe_req q)" "client_of s a = ret (m (op_client_id (op_at s a)))"
    using waiting_cur [OF assms(1,2)] by metis
  have op: "op_type (op_at s a) = OP_READ" "op_client_fd (op_at s a) = fd" "m (op_client_id (op_at s a)) = Some i"
    using m(4,5) assms(3,4) by auto
  have "take_cqes env [c] s = disconnect_and_free_op env (Some i) a (taken q s)"
    using taken_cqe [OF assms(1,2,5)] handle_cqe_eq [OF m(1), of c] assms(3,5,6) m(3) op by (auto simp: handle_recv_def)
  then show ?thesis using disconnect_event [OF m(1,2), of i env, unfolded taken_fields] op by simp
qed

theorem recv_closed_witness:
  "spec (take_cqes demo_env [demo_got []] demo_conn) is_exit (\<lambda>s'. sv_closed s' = [7] \<and>
    client_map_get (sv_clients s') (sv_infos s') 1 = ret None \<and> client_map_get (sv_clients s') (sv_infos s') 2 = ret (Some 1))"
  by (rule spec_conseq [OF recv_closed [OF demo_inv demo_waiting demo_recv_req demo_client]])
    (simp_all add: demo_got_def demo_recv_def demo_conn_op demo_conn_map)

text \<open>
  C13. A late completion closes nothing: when a send of a client that has been disconnected completes,
  with success or not, the server frees its operation and touches neither a descriptor nor the
  client map nor the ring.
\<close>

theorem late_completion_frees:
  assumes "srv_inv s" and "waiting s q a" and "sqe_req q = Send fd b off len" and "client_of s a = ret None"
    and "cqe_data c = sqe_data q"
  shows "spec (take_cqes env [c] s) is_exit (\<lambda>s'. srv_inv s' \<and> sv_closed s' = sv_closed s \<and> sv_log s' = sv_log s \<and>
    sv_clients s' = sv_clients s \<and> sv_infos s' = sv_infos s \<and> busy s' = busy s - {a} \<and>
    sv_flight s' = remove1 q (sv_flight s) \<and> sv_sq s' = sv_sq s)"
proof -
  obtain m as where m: "cur m as a (taken q s)" "listening (taken q s)" "sqe_data q = op_pool_id (op_at s a)"
    "request_ok (sv_server_fd s) m (op_at s a) (sqe_req q)" "client_of s a = ret (m (op_client_id (op_at s a)))"
    using waiting_cur [OF assms(1,2)] by metis
  have ok: "srv_ok m as (taken q s)" and a: "a \<in> busy (taken q s)" "a \<notin> set as" using m(1) by (auto simp: cur_def)
  have op: "op_type (op_at s a) = OP_WRITE" "m (op_client_id (op_at s a)) = None" using m(4,5) assms(3,4) by auto
  have "take_cqes env [c] s = free_op a (taken q s)"
    using taken_cqe [OF assms(1,2,5)] handle_cqe_eq [OF m(1), of c] assms(3,5) m(3) op by (simp add: disconnect_and_free_op_def)
  moreover have "spec (free_op a (taken q s)) is_exit (\<lambda>s'. moved (taken q s) s' \<and> busy s' = busy s - {a} \<and>
      mem_only (taken q s) s' \<and> sv_sq s' = sv_sq s)"
    by (rule spec_conseq [OF free_op_ok [OF ok a]])
      (use op in \<open>auto simp: mem_only_eq same_run_def intro!: cur_freed [OF m(1,2)]\<close>)
  ultimately show ?thesis by (auto simp: mem_only_eq moved_def elim: spec_conseq)
qed

theorem late_completion_frees_witness:
  "spec (take_cqes demo_env [\<lparr>cqe_data = 2, cqe_res = 11, cqe_bytes = []\<rparr>] demo_gone) is_exit (\<lambda>s'. srv_inv s' \<and> sv_closed s' = sv_closed demo_gone)"
  by (rule spec_conseq [OF late_completion_frees [OF demo_gone_inv demo_gone_waiting(1) demo_send_req demo_gone_waiting(2)]])
    (simp_all add: demo_send_def)

text \<open>
  The completion of a send that has written \<open>n\<close> bytes; the operation of a partial one waits again for
  the same client.
\<close>

lemma send_event:
  assumes "srv_inv s" and "waiting s q a" and "sqe_req q = Send fd b off len" and "client_of s a = ret (Some i)"
    and "cqe_data c = sqe_data q" and "cqe_res c = int n" and "n \<le> unat len"
  shows "spec (take_cqes env [c] s) is_exit (\<lambda>s'. srv_inv s' \<and> sv_closed s' = sv_closed s \<and> sv_flight s' = remove1 q (sv_flight s) \<and>
    (if n < unat len then bytes_of s' b = bytes_of s b \<and> a \<in> busy s' \<and>
      sv_sq s' = sv_sq s @ [\<lparr>sqe_data = sqe_data q, sqe_req = Send fd b (off + n) (len - of_nat n)\<rparr>] \<and>
      op_pool_get (sv_pool s') (sqe_data q) = ret (Some a) \<and> client_of s' a = ret (Some i)
    else a \<notin> busy s' \<and> sv_sq s' = sv_sq s))"
    (is "spec _ _ ?post")
proof -
  obtain m as where m: "cur m as a (taken q s)" "listening (taken q s)" "sqe_data q = op_pool_id (op_at s a)"
    "request_ok (sv_server_fd s) m (op_at s a) (sqe_req q)" "client_of s a = ret (m (op_client_id (op_at s a)))"
    using waiting_cur [OF assms(1,2)] by metis
  have op: "op_type (op_at s a) = OP_WRITE" "op_client_fd (op_at s a) = fd" "op_buf_ref (op_at s a) = Some b"
    "op_buf_cap (op_at s a) = 64" "m (op_client_id (op_at s a)) = Some i" "unat (op_processed (op_at s a)) = off"
    "unat (op_buf_len (op_at s a)) = off + unat len" "off + unat len \<le> 64"
    using m(4,5) assms(3,4) by auto
  have n: "unat (of_nat n :: 64 word) = n" using op(8) assms(7) by (intro unat_of_nat_64) simp
  have "take_cqes env [c] s = handle_send env i a (of_nat n) (taken q s)"
    using taken_cqe [OF assms(1,2,5)] handle_cqe_eq [OF m(1), of c] assms(3,5,6) m(3) op by simp
  moreover have "?post s'" if s': "moved (taken q s) s'" "sv_closed s' = sv_closed (taken q s)" "send_step a n (taken q s) s'" for s'
  proof (cases "n < unat len")
    case True
    then obtain len' where *: "a \<in> busy s'" "sv_bufs s' = sv_bufs s" "unat len' = unat len - n"
      "sv_sq s' = sv_sq s @ [\<lparr>sqe_data = sqe_data q, sqe_req = Send fd b (off + n) len'\<rparr>]"
      "sv_clients s' = sv_clients s" "sv_infos s' = sv_infos s" "op_pool_id (op_at s' a) = sqe_data q" "op_client_id (op_at s' a) = op_client_id (op_at s a)"
      using s'(3) op m(3) by (auto simp: send_step_def Let_def)
    have "op_pool_get (sv_pool s') (sqe_data q) = ret (Some a)" "client_of s' a = ret (Some i)"
      using busy_waits [of s' a] s'(1) * op(5) cm_get [OF srv_okD(2) [of m as "taken q s"]] m(1)
      by (auto simp: moved_def client_of_def cur_def)
    moreover note *
    moreover have "of_nat n \<le> len" using n assms(7) by (simp add: word_le_nat_alt)
    then have "unat (len - of_nat n) = unat len - n" using n by (simp add: unat_sub)
    ultimately show ?thesis using True s' by (simp add: moved_def bytes_of_def word_unat_eq_iff)
  next
    case False
    then show ?thesis using s' op assms(7) by (auto simp: send_step_def Let_def moved_def)
  qed
  ultimately show ?thesis
    using op n assms(7) handle_send_ok [OF m(1,2), of i "of_nat n" env] by (auto simp: served_def elim!: spec_conseq)
qed

end
