(* ===== verification/Server_Live.thy ===== *)
theory Server_Live
  imports Server_Steps Server_Events
begin

text \<open>
  What the server gets done: a message whose sending has begun is sent to its end, however small the
  pieces are that the kernel takes, and its operation is freed. And what the types of the C program
  promise of every state: which operation has which kind of buffer, and how large every object is.
\<close>

section \<open>Bytes on the wire\<close>

text \<open>The bytes that a completion reports as sent, and those of a sequence of events.\<close>

definition sent_by :: "cqe \<Rightarrow> server \<Rightarrow> 8 word list" where
  "sent_by c s = (case find (\<lambda>q. sqe_data q = cqe_data c) (sv_flight s) of
       Some q \<Rightarrow> (case sqe_req q of Send fd b off len \<Rightarrow> take (nat (cqe_res c)) (drop off (bytes_of s b)) | _ \<Rightarrow> [])
     | None \<Rightarrow> [])"

fun sent_bytes :: "env \<Rightarrow> event list \<Rightarrow> server \<Rightarrow> 8 word list" where
  "sent_bytes env [] s = []"
| "sent_bytes env (e # es) s = (case e of Completion c \<Rightarrow> sent_by c s | Submission \<Rightarrow> []) @
     (case server_step env e s of Some (Inr s') \<Rightarrow> sent_bytes env es s' | _ \<Rightarrow> [])"

text \<open>
  A kernel that takes \<open>w k\<close> bytes of the \<open>k\<close>-th piece, at least one and at most what is left.
\<close>

function pieces :: "(nat \<Rightarrow> nat) \<Rightarrow> nat \<Rightarrow> nat \<Rightarrow> nat list" where
  "pieces w k left = (if left = 0 then [] else let n = max 1 (min left (w k)) in n # pieces w (Suc k) (left - n))"
  by pat_completeness auto
termination
  by (relation "measure (\<lambda>(w, k, left). left)") auto

declare pieces.simps [simp del]

definition written :: "nat \<Rightarrow> nat \<Rightarrow> cqe" where
  "written d n = \<lparr>cqe_data = d, cqe_res = int n, cqe_bytes = []\<rparr>"

definition send_events :: "nat \<Rightarrow> nat list \<Rightarrow> event list" where
  "send_events d ns = concat (map (\<lambda>n. [Completion (written d n), Submission]) ns)"

lemma pieces_sum: "sum_list (pieces w k left) = left" and pieces_pos: "0 \<notin> set (pieces w k left)" and pieces_length: "length (pieces w k left) \<le> left"
proof (induction w k left rule: pieces.induct)
  case (1 w k left)
  {
    case 1
    then show ?case using "1.IH"(1) by (subst pieces.simps) (auto simp: Let_def max_def min_def)
  next
    case 2
    then show ?case using "1.IH"(2) by (subst pieces.simps) (auto simp: Let_def)
  next
    case 3
    then show ?case using "1.IH"(3) by (subst pieces.simps) (auto simp: Let_def max_def min_def)
  }
qed

section \<open>A message is sent to its end\<close>

lemma sent_by_waiting:
  assumes "srv_inv s" and "waiting s q a" and "sqe_req q = Send fd b off len"
  shows "sent_by (written (sqe_data q) n) s = take n (drop off (bytes_of s b))"
proof -
  have "find (\<lambda>q'. sqe_data q' = sqe_data q) (sv_flight s) = Some q" using waiting_cur [OF assms(1,2)] by metis
  then show ?thesis using assms(3) by (simp add: sent_by_def written_def)
qed

lemma submit_exact:
  assumes "srv_inv s"
  shows "spec (submit env s) is_exit (\<lambda>s'. s' = s\<lparr>sv_flight := sv_flight s @ sv_sq s, sv_sq := []\<rparr> \<and> srv_inv s')"
  using submit_ok [OF assms, of env] by (auto simp: submit_def)

lemma submit_waiting:
  assumes "op_pool_get (sv_pool s) d = ret (Some a)" and "client_of s a = ret (Some i)" and "sv_sq s = qs @ [\<lparr>sqe_data = d, sqe_req = rq\<rparr>]"
    and "srv_inv s"
  shows "spec (submit env s) is_exit (\<lambda>s'. srv_inv s' \<and> waiting s' \<lparr>sqe_data = d, sqe_req = rq\<rparr> a \<and> client_of s' a = ret (Some i) \<and>
    sv_closed s' = sv_closed s \<and> bytes_of s' = bytes_of s \<and> sv_flight s' = sv_flight s @ sv_sq s \<and> sv_sq s' = [])"
  by (rule spec_conseq [OF submit_exact [OF assms(4)]])
    (use assms in \<open>auto simp: waiting_def client_of_def bytes_of_def get_op_def fun_eq_iff\<close>)

text \<open>One piece: the completion and the submission that follows it.\<close>

definition send_round :: "env \<Rightarrow> nat \<Rightarrow> nat \<Rightarrow> server \<Rightarrow> server comp" where
  "send_round env d n s = bindC (take_cqes env [written d n] s) (submit env)"

lemma send_events_Cons:
  "foldC (server_step env) (send_events d (n # ns)) s = bindC (send_round env d n s) (foldC (server_step env) (send_events d ns))"
  "send_round env d n s = ret s' \<Longrightarrow> sent_bytes env (send_events d (n # ns)) s = sent_by (written d n) s @ sent_bytes env (send_events d ns) s'"
  by (auto simp: send_events_def send_round_def bindC_assoc bindC_eq_ret_iff intro!: arg_cong [where f = "bindC m" for m] ext)

lemma ring_rest:
  assumes "srv_inv s" and "q \<in> set (sv_flight s)" and "q' \<in> set (remove1 q (sv_flight s) @ sv_sq s)"
  shows "sqe_data q' \<noteq> sqe_data q"
proof -
  have d: "distinct (map sqe_data (sv_flight s @ sv_sq s))" using srv_inv_ring(1) [OF assms(1)] by (simp add: pend_def)
  obtain xs ys where "sv_flight s = xs @ q # ys" "q \<notin> set xs" using split_list_first [OF assms(2)] by blast
  then show ?thesis using d assms(3) by (auto simp: remove1_append rev_image_eqI)
qed

lemma send_piece:
  assumes "srv_inv s" and "waiting s q a" and "sqe_req q = Send fd b off len" and "client_of s a = ret (Some i)" and "n \<le> unat len"
  shows "spec (send_round env (sqe_data q) n s) is_exit (\<lambda>s'. srv_inv s' \<and> sv_closed s' = sv_closed s \<and> sv_sq s' = [] \<and>
    sv_flight s' = remove1 q (sv_flight s) @ sv_sq s @
      (if n < unat len then [\<lparr>sqe_data = sqe_data q, sqe_req = Send fd b (off + n) (len - of_nat n)\<rparr>] else []) \<and>
    (if n < unat len then waiting s' \<lparr>sqe_data = sqe_data q, sqe_req = Send fd b (off + n) (len - of_nat n)\<rparr> a \<and>
       client_of s' a = ret (Some i) \<and> bytes_of s' b = bytes_of s b
     else a \<notin> busy s'))"
    (is "spec _ _ ?post")
proof -
  have c: "cqe_data (written (sqe_data q) n) = sqe_data q" "cqe_res (written (sqe_data q) n) = int n" by (simp_all add: written_def)
  show ?thesis
    unfolding send_round_def
  proof (rule spec_bindI [OF send_event [OF assms(1-4) c assms(5)]], elim conjE)
    fix s1 assume s1: "srv_inv s1" "sv_closed s1 = sv_closed s" "sv_flight s1 = remove1 q (sv_flight s)" and p: "if n < unat len then bytes_of s1 b = bytes_of s b \<and> a \<in> busy s1 \<and>
        sv_sq s1 = sv_sq s @ [\<lparr>sqe_data = sqe_data q, sqe_req = Send fd b (off + n) (len - of_nat n)\<rparr>] \<and>
        op_pool_get (sv_pool s1) (sqe_data q) = ret (Some a) \<and> client_of s1 a = ret (Some i)
      else a \<notin> busy s1 \<and> sv_sq s1 = sv_sq s"
    show "spec (submit env s1) is_exit ?post"
    proof (cases "n < unat len")
      case True
      with p s1 have "spec (submit env s1) is_exit (\<lambda>s'. srv_inv s' \<and> waiting s' \<lparr>sqe_data = sqe_data q, sqe_req = Send fd b (off + n) (len - of_nat n)\<rparr> a \<and>
          client_of s' a = ret (Some i) \<and> sv_closed s' = sv_closed s1 \<and> bytes_of s' = bytes_of s1 \<and>
          sv_flight s' = sv_flight s1 @ sv_sq s1 \<and> sv_sq s' = [])"
        by (intro submit_waiting [where qs = "sv_sq s"]) simp_all
      then show ?thesis using True p s1(2,3) by (auto elim!: spec_conseq)
    next
      case False
      then show ?thesis by (intro spec_conseq [OF submit_exact [OF s1(1)]]) (use p s1(2,3) in \<open>auto simp: busy_def\<close>)
    qed
  qed
qed

lemma send_to_end:
  assumes "srv_inv s" and "waiting s q a" and "sqe_req q = Send fd b off len" and "client_of s a = ret (Some i)"
    and "sum_list ns = unat len" and "0 \<notin> set ns" and "ns \<noteq> []"
  shows "spec (foldC (server_step env) (send_events (sqe_data q) ns) s) is_exit (\<lambda>s'. srv_inv s' \<and> a \<notin> busy s' \<and> sv_closed s' = sv_closed s \<and>
    pend s' = remove1 q (sv_flight s) @ sv_sq s \<and> sent_bytes env (send_events (sqe_data q) ns) s = take (unat len) (drop off (bytes_of s b)))"
  using assms
proof (induction ns arbitrary: s q off len)
  case (Cons n ns)
  have n: "n \<le> unat len" "0 < n" using Cons.prems(5,6) by auto
  have out: "sent_by (written (sqe_data q) n) s = take n (drop off (bytes_of s b))" by (rule sent_by_waiting [OF Cons.prems(1-3)])
  show ?case
  proof (rule spec_cases [OF send_piece [OF Cons.prems(1-4) n(1), of env]])
    fix f assume "send_round env (sqe_data q) n s = fail f" "is_exit f"
    then show ?thesis by (simp add: send_events_Cons(1))
  next
    let ?q = "\<lparr>sqe_data = sqe_data q, sqe_req = Send fd b (off + n) (len - of_nat n)\<rparr>"
    fix s1 assume s1: "send_round env (sqe_data q) n s = ret s1" and p: "srv_inv s1 \<and> sv_closed s1 = sv_closed s \<and> sv_sq s1 = [] \<and>
      sv_flight s1 = remove1 q (sv_flight s) @ sv_sq s @ (if n < unat len then [?q] else []) \<and>
      (if n < unat len then waiting s1 ?q a \<and> client_of s1 a = ret (Some i) \<and> bytes_of s1 b = bytes_of s b else a \<notin> busy s1)"
    note run = send_events_Cons(1) [of env "sqe_data q" n ns s, unfolded s1] send_events_Cons(2) [OF s1, of ns]
    show ?thesis
    proof (cases "n < unat len")
      case True
      have len: "unat (len - of_nat n) = unat len - n" using n unat_lt_64 [of len] by (simp add: unat_sub word_le_nat_alt unat_of_nat_64)
      then have "sum_list ns = unat (len - of_nat n)" "0 \<notin> set ns" "ns \<noteq> []" using Cons.prems(5,6) True by auto
      moreover have "take (unat len) (drop off (bytes_of s b)) = take n (drop off (bytes_of s b)) @ take (unat len - n) (drop (off + n) (bytes_of s b))"
        using take_add [of n "unat len - n" "drop off (bytes_of s b)"] n by (simp add: add.commute)
      moreover have "?q \<notin> set (remove1 q (sv_flight s) @ sv_sq s)"
        using ring_rest [OF Cons.prems(1), of q ?q] Cons.prems(2) by (auto simp: waiting_def)
      then have "remove1 ?q (sv_flight s1) = remove1 q (sv_flight s) @ sv_sq s" using p True by (simp add: remove1_append)
      ultimately show ?thesis
        using Cons.IH [of s1 ?q] p True out len by (auto simp: run elim!: spec_conseq)
    next
      case False
      then have "n = unat len" "ns = []" using n Cons.prems(5,6) by (simp, cases ns) auto
      then show ?thesis unfolding run using p out by (simp add: send_events_def pend_def)
    qed
  qed
qed simp

section \<open>Types\<close>

fun request_type :: "request \<Rightarrow> op_type" where
  "request_type (Accept fd i) = OP_ACCEPT"
| "request_type (Recv fd b off len) = OP_READ"
| "request_type (Send fd b off len) = OP_WRITE"

definition op_typed :: "server \<Rightarrow> nat \<Rightarrow> bool" where
  "op_typed s a \<longleftrightarrow> (\<exists>op b buf q. cells (sv_ops s) a = Some op \<and> op_buf_ref op = Some b \<and> cells (sv_bufs s) b = Some buf \<and>
     br_ref buf = 1 \<and> length (br_buf buf) = unat (op_buf_cap op) \<and> op_buf_cap op = (if op_type op = OP_WRITE then 64 else 2048) \<and>
     q \<in> set (pend s) \<and> sqe_data q = op_pool_id op \<and> request_type (sqe_req q) = op_type op)"

lemma request_ok_type:
  "request_ok fd m op rq \<Longrightarrow> request_type rq = op_type op \<and> op_buf_cap op = (if op_type op = OP_WRITE then 64 else 2048)"
  by (cases rq) auto

lemma srv_inv_typed:
  assumes "srv_inv s"
  shows "\<forall>a\<in>busy s. op_typed s a"
    and "cells (sv_infos s) i = Some c \<Longrightarrow> info_sized c"
proof -
  from assms obtain m as where ok: "srv_ok m as s" and bz: "busy s = set as" by (auto simp: srv_inv_def)
  show "cells (sv_infos s) i = Some c \<Longrightarrow> info_sized c" using srv_okD(3) [OF ok] by (simp add: infos_ok_def)
  show "\<forall>a\<in>busy s. op_typed s a"
  proof
    fix a assume a: "a \<in> busy s"
    then obtain q where q: "q \<in> set (pend s)" "entry_ok s m a q"
      using srv_okD(6) [OF ok] bz by (metis in_set_conv_nth list_all2_conv_all_nth)
    have "op_holds s a" using srv_okD(1) [OF ok] a by (simp add: srv_mem_def)
    then obtain op b buf large where op: "cells (sv_ops s) a = Some op" "op_buf_ref op = Some b" "cells (sv_bufs s) b = Some buf"
      "br_ref buf = 1" "op_buf_cap op = of_nat (size_of large)" "length (br_buf buf) = size_of large" by (meson op_holdsE)
    moreover have "unat (of_nat (size_of large) :: 64 word) = size_of large" by (simp add: size_of_def)
    moreover have "sqe_data q = op_pool_id op" "request_type (sqe_req q) = op_type op" "op_buf_cap op = (if op_type op = OP_WRITE then 64 else 2048)"
      using q(2) op(1) request_ok_type by (auto simp: entry_ok_def op_at_def)
    ultimately show "op_typed s a"
      unfolding op_typed_def using q(1) by (intro exI [of _ op] exI [of _ b] exI [of _ buf] exI [of _ q]) simp
  qed
qed

section \<open>Properties\<close>

text \<open>
  C9. Answers are delivered: once the sending of a message to a connected client has begun, it goes on
  to the end whatever sizes of pieces the kernel takes, at least one byte at a time. After at most as many
  completions as there are bytes left the operation is free again, and what has been sent is
  exactly the rest of the message, in order.
\<close>

theorem send_delivers:
  assumes "srv_inv s" and "waiting s q a" and "sqe_req q = Send fd b off len" and "client_of s a = ret (Some i)" and "0 < len"
  shows "\<exists>k \<le> unat len. length (pieces w 0 (unat len)) = k \<and>
    spec (foldC (server_step env) (send_events (sqe_data q) (pieces w 0 (unat len))) s) is_exit (\<lambda>s'. srv_inv s' \<and> a \<notin> busy s' \<and>
      sv_closed s' = sv_closed s \<and>
      sent_bytes env (send_events (sqe_data q) (pieces w 0 (unat len))) s = take (unat len) (drop off (bytes_of s b)))"
proof -
  have "pieces w 0 (unat len) \<noteq> []" using assms(5) by (subst pieces.simps) (simp add: Let_def word_less_nat_alt)
  then show ?thesis
    using pieces_length by (auto intro: spec_conseq [OF send_to_end [OF assms(1-4) pieces_sum pieces_pos]])
qed

theorem send_delivers_witness:
  "spec (foldC (server_step demo_env) (send_events 2 (pieces (\<lambda>k. 4) 0 11)) demo_ans) is_exit (\<lambda>s'. 2 \<notin> busy s')"
  using send_delivers [OF demo_ans_inv demo_ans_waiting(1) demo_send_req demo_ans_waiting(2), of "\<lambda>k. 4" demo_env]
  by (auto simp: demo_send_def elim!: spec_conseq)

text \<open>
  C10. Every state is well typed: however completions and submissions follow each other, each operation
  in use has a live buffer of its own, of the capacity it records, large for accepts and receives
  and small for sends, an entry of the ring asks for what its type says, and every ClientInfo has an address and a
  name of the declared sizes.
\<close>

theorem server_typed:
  assumes "env_ok N env" and "srv_fresh s" and "server_boot env s = ret s0"
    and "runs (server_step env) event_legal s0 es s'"
  shows "(\<forall>a\<in>busy s'. op_typed s' a) \<and>
    (\<forall>i c. cells (sv_infos s') i = Some c \<longrightarrow> info_sized c)"
proof -
  have "srv_inv s0" using server_boot_ok [OF assms(2), of env] assms(3) by simp
  then have "srv_inv s'" using server_machine.runs_inv [OF assms(4)] assms(1) by blast
  then show ?thesis using srv_inv_typed by simp
qed

theorem server_typed_witness:
  "\<exists>op. cells (sv_ops demo_conn) 0 = Some op \<and> op_type op = OP_READ \<and> op_buf_cap op = 2048"
proof -
  obtain s0 where s0: "server_boot demo_env demo_srv = ret s0" "runs (server_step demo_env) event_legal s0 (run_events demo_rounds) demo_conn"
    by (rule demo_runs)
  have "op_type (op_at demo_conn 0) = OP_READ" by (simp add: op_at_def demo_conn_def run_defs demo_defs)
  moreover have "0 \<in> busy demo_conn" using waiting_cur [OF demo_inv demo_waiting] by (metis cur_def insertI1 taken_fields(13))
  ultimately show ?thesis
    using server_typed [OF demo_env_ok demo_srv_fresh s0] by (fastforce simp: op_at_def op_typed_def)
qed

text \<open>
  C27. The end of \<open>main\<close>: in any state of the server the deinitialisers free every operation, every
  ClientInfo of a connected client and every idle buffer exactly once and touch nothing that is not live. The buffer
  of an operation in use is not freed: it is lost.
\<close>

theorem main_teardown_frees:
  assumes "srv_inv s"
  shows "spec (main_teardown sys env s) is_exit (\<lambda>(infos, bufs, opers).
    cells opers = cells (sv_ops s) |` (- pool_known (sv_pool s, sv_ops s)) \<and>
    cells bufs = cells (sv_bufs s) |` (- idle_bufs s) \<and>
    (\<forall>k i. client_map_get (sv_clients s) (sv_infos s) k = ret (Some i) \<longrightarrow> cells infos i = None) \<and>
    (\<forall>a\<in>busy s. \<exists>b. op_buf_ref (op_at s a) = Some b \<and> cells bufs b \<noteq> None))"
proof -
  from assms obtain m as where ok: "srv_ok m as s" by (auto simp: srv_inv_def)
  have mem: "pool_inv (sv_pool s, sv_ops s)" "slab_inv (sv_slab64 s, sv_bufs s)" "slab_inv (sv_slab2k s, sv_bufs s)"
    "slab_buf_cap (sv_slab64 s) = 64" "slab_buf_cap (sv_slab2k s) = 2048"
    using srv_okD(1) [OF ok] by (auto simp: srv_mem_def pool_clean_def slabs_ok_def BUFFER_SIZE_64B_def BUFFER_SIZE_2KB_def)
  let ?bufs = "(sv_bufs s)\<lparr>cells := cells (sv_bufs s) |` (- set (slab_idle (sv_slab64 s, sv_bufs s)))\<rparr>"
  have idle: "slab_idle (sv_slab2k s, ?bufs) = slab_idle (sv_slab2k s, sv_bufs s)" by (simp add: slab_idle_def)
  have "a \<notin> set (slab_idle (sv_slab64 s, sv_bufs s))" if "a \<in> set (slab_idle (sv_slab2k s, sv_bufs s))" for a
  proof
    assume "a \<in> set (slab_idle (sv_slab64 s, sv_bufs s))"
    then have "a \<in> slab_known (sv_slab64 s, sv_bufs s)" "a \<in> slab_known (sv_slab2k s, sv_bufs s)"
      using mem(2,3) that by (auto simp: slab_inv_def)
    then show False using mem(4,5) by (auto simp: slab_known_def slab_buf_cap_def)
  qed
  then have "slab_inv (sv_slab2k s, ?bufs)"
    using mem(3) idle by (auto simp: slab_inv_def slab_known_def heap_wf_def restrict_map_def subset_iff)
  note d2 = slab_deinit_frees_idle [OF this, unfolded idle]
  have get: "client_map_get (sv_clients s) (sv_infos s) k = ret (m k)" for k by (rule cm_get [OF srv_okD(2) [OF ok]])
  have lost: "\<exists>b. op_buf_ref (op_at s a) = Some b \<and> b \<notin> idle_bufs s \<and> cells (sv_bufs s) b \<noteq> None" if "a \<in> busy s" for a
    by (rule busy_buf [OF ok that]) auto
  have all: "- set (slab_idle (sv_slab64 s, sv_bufs s)) \<inter> - set (slab_idle (sv_slab2k s, sv_bufs s)) = - idle_bufs s"
    by (auto simp: idle_bufs_def)
  have "\<forall>a\<in>busy s. \<exists>b. op_buf_ref (op_at s a) = Some b \<and> (cells (sv_bufs s) |` (- idle_bufs s)) b \<noteq> None"
    using lost by (fastforce simp: restrict_map_def)
  moreover have "\<forall>k i. client_map_get (sv_clients s) (sv_infos s) k = ret (Some i) \<longrightarrow> (cells (sv_infos s) |` (- (ran m \<union> set (cm_idle (sv_clients s))))) i = None"
    by (auto simp: get restrict_map_def ranI)
  ultimately show ?thesis
    using op_pool_deinit_frees_all [OF mem(1)] cm_deinit [OF srv_okD(2) [OF ok]] slab_deinit_frees_idle [OF mem(2)] d2
    by (simp add: main_teardown_def must_shutdown_def must_close_def fatal_error_def all)
qed

theorem main_teardown_frees_witness:
  "spec (main_teardown \<lparr>sys_queue_init = \<lambda>n. 0, sys_socket = 3, sys_setsockopt = \<lambda>fd. 0, sys_getfl = \<lambda>fd. 2, sys_setfl = \<lambda>fd fl. 0,
      sys_o_nonblock = 2048, sys_bind = \<lambda>fd addr. 0, sys_listen = \<lambda>fd n. 0, sys_shutdown = \<lambda>fd. 0\<rparr> demo_env demo_conn) is_exit
    (\<lambda>(infos, bufs, opers). cells infos 1 = None \<and> cells bufs 0 \<noteq> None)"
proof -
  have "0 \<in> busy demo_conn" using waiting_cur [OF demo_inv demo_waiting] by (metis cur_def insertI1 taken_fields(13))
  moreover have "op_buf_ref (op_at demo_conn 0) = Some 0" by (simp add: op_at_def demo_conn_def run_defs demo_defs)
  ultimately show ?thesis
    by (intro spec_conseq [OF main_teardown_frees [OF demo_inv]]) (use demo_conn_map in fastforce)
qed

end
