(* ===== verification/Parse_Int.thy ===== *)
theory Parse_Int
  imports Utils
begin

text \<open>
  \<open>parse_int\<close> of client.c and the library function \<open>strtol\<close> it is built on, in base 10: leading white
  space and one sign are skipped, the value of the digits that follow is clamped to the range of a
  64-bit \<open>long\<close>, and the rest of the string is returned; without digits the whole string is the rest.
\<close>

section \<open>Definitions\<close>

definition is_space :: "char \<Rightarrow> bool" where
  "is_space c \<longleftrightarrow> of_char c = (32 :: nat) \<or> 9 \<le> (of_char c :: nat) \<and> (of_char c :: nat) \<le> 13"

definition is_digit :: "char \<Rightarrow> bool" where
  "is_digit c \<longleftrightarrow> 48 \<le> (of_char c :: nat) \<and> (of_char c :: nat) \<le> 57"

definition digit_val :: "char \<Rightarrow> nat" where
  "digit_val c = of_char c - 48"

definition digits_val :: "string \<Rightarrow> nat" where
  "digits_val ds = foldl (\<lambda>n c. 10 * n + digit_val c) 0 ds"

definition LONG_MAX :: int where
  "LONG_MAX = 9223372036854775807"

definition clamp_long :: "int \<Rightarrow> int" where
  "clamp_long v = max (- LONG_MAX - 1) (min LONG_MAX v)"

fun strtol_sign :: "string \<Rightarrow> bool \<times> string" where
  "strtol_sign (c # cs) = (if c = CHR ''-'' then (True, cs) else if c = CHR ''+'' then (False, cs) else (False, c # cs))"
| "strtol_sign [] = (False, [])"

definition strtol :: "string \<Rightarrow> int \<times> string" where
  "strtol str = (case strtol_sign (dropWhile is_space str) of (neg, cs) \<Rightarrow>
     let ds = takeWhile is_digit cs; v = int (digits_val ds) in
     if ds = [] then (0, str) else (clamp_long (if neg then - v else v), dropWhile is_digit cs))"

text \<open>The result is stored in an \<open>int\<close>: the low 32 bits of the \<open>long\<close>, as a signed number.\<close>

definition parse_int :: "string \<Rightarrow> int comp" where
  "parse_int str = (case strtol str of (v, end_ptr) \<Rightarrow>
     if end_ptr \<noteq> [] then fail (Exit_failure ''Invalid num messages'')
     else ret (signed_take_bit 31 v))"

section \<open>Printing\<close>

text \<open>The decimal numeral of an integer, to state what \<open>parse_int\<close> reads.\<close>

fun show_nat :: "nat \<Rightarrow> string" where
  "show_nat n = (if n < 10 then [char_of (48 + n)] else show_nat (n div 10) @ [char_of (48 + n mod 10)])"

declare show_nat.simps [simp del]

definition show_int :: "int \<Rightarrow> string" where
  "show_int v = (if v < 0 then CHR ''-'' # show_nat (nat (- v)) else show_nat (nat v))"

section \<open>Lemmas\<close>

lemma of_char_digit: "(d :: nat) < 10 \<Longrightarrow> of_char (char_of (48 + d) :: char) = 48 + d"
  by (simp add: of_char_of)

lemma digit_char [simp]: "d < 10 \<Longrightarrow> is_digit (char_of (48 + d))" "d < 10 \<Longrightarrow> digit_val (char_of (48 + d)) = d"
  by (simp_all add: is_digit_def digit_val_def of_char_digit)

lemma digits_val_snoc [simp]: "digits_val (ds @ [c]) = 10 * digits_val ds + digit_val c"
  by (simp add: digits_val_def)

lemma show_nat_digits: "list_all is_digit (show_nat n)"
  by (induction n rule: show_nat.induct) (subst show_nat.simps, simp)

lemma show_nat_nonempty [simp]: "show_nat n \<noteq> []"
  by (subst show_nat.simps) simp

lemma digits_val_show [simp]: "digits_val (show_nat n) = n"
proof (induction n rule: show_nat.induct)
  case (1 n)
  show ?case
  proof (cases "n < 10")
    case True
    then show ?thesis by (simp add: show_nat.simps [of n] digits_val_def)
  next
    case False
    then show ?thesis using 1 by (simp add: show_nat.simps [of n])
  qed
qed

lemma digit_not_special: "is_digit c \<Longrightarrow> \<not> is_space c \<and> c \<noteq> CHR ''-'' \<and> c \<noteq> CHR ''+''"
  by (auto simp: is_digit_def is_space_def)

lemma take_digits:
  assumes "list_all is_digit ds" and "rest = [] \<or> \<not> is_digit (hd rest)"
  shows "takeWhile is_digit (ds @ rest) = ds" and "dropWhile is_digit (ds @ rest) = rest"
  using assms by (induction ds) (auto simp: neq_Nil_conv, (cases rest; simp)+)

lemma sign_digits:
  assumes "list_all is_digit ds" and "ds \<noteq> []"
  shows "strtol_sign (dropWhile is_space (ds @ rest)) = (False, ds @ rest)"
    and "strtol_sign (dropWhile is_space (CHR ''-'' # ds @ rest)) = (True, ds @ rest)"
  using assms by (cases ds; simp add: digit_not_special; simp add: is_space_def)+

lemma strtol_show:
  assumes "rest = [] \<or> \<not> is_digit (hd rest)"
  shows "strtol (show_int v @ rest) = (clamp_long v, rest)"
  using take_digits [OF show_nat_digits assms] sign_digits [OF show_nat_digits]
  by (auto simp: strtol_def show_int_def)

section \<open>Properties\<close>

text \<open>
  \<open>parse_int\<close> reads decimal numerals: the numeral of any \<open>long\<close> is accepted and cut to its low 32
  bits, so it is read back exactly when it is in the range of an \<open>int\<close>; the empty string is read as 0;
  a numeral with anything after it ends the process.
\<close>

lemma parse_int_decimal:
  "parse_int (show_int v) = ret (signed_take_bit 31 (clamp_long v)) \<and>
   (parse_int (show_int v) = ret v \<longleftrightarrow> - 2147483648 \<le> v \<and> v < 2147483648) \<and>
   parse_int '''' = ret 0 \<and>
   (is_digit c \<or> (\<exists>f. parse_int (show_int v @ c # rest) = fail f \<and> is_exit f))"
proof -
  have p: "parse_int (show_int v) = ret (signed_take_bit 31 (clamp_long v))"
    using strtol_show [of "[]" v] by (simp add: parse_int_def)
  have "signed_take_bit 31 (clamp_long v) = v \<longleftrightarrow> - 2147483648 \<le> v \<and> v < 2147483648"
    using signed_take_bit_int_eq_self_iff [of 31 "clamp_long v"] signed_take_bit_int_greater_eq_minus_exp [of 31 "clamp_long v"]
      signed_take_bit_int_less_exp [of 31 "clamp_long v"]
    by (auto simp: clamp_long_def LONG_MAX_def)
  moreover have "parse_int '''' = ret 0" by (simp add: parse_int_def strtol_def)
  moreover have "is_digit c \<or> (\<exists>f. parse_int (show_int v @ c # rest) = fail f \<and> is_exit f)"
    using strtol_show [of "c # rest" v] by (auto simp: parse_int_def)
  ultimately show ?thesis using p by simp
qed

end
