(* ===== verification/Protocol_Test.thy ===== *)
theory Protocol_Test
  imports Protocol Parse_Int Slab
begin

text \<open>
  test_protocol.c: a client that checks two exchanges with a running server. It asks for the username
  \<open>jojo\<close> and asserts the answer; then it sends a header and asserts that the server closes the
  connection. Each operation is a block of its own with its type, the size of its buffer and the
  buffer; the user data of an entry of the ring is the pointer to that block.

  liburing and the system calls are the parameter \<open>test_env\<close>; what \<open>io_uring_wait_cqe\<close> delivers may depend
  on the entries in flight and on the number of calls so far.
\<close>

section \<open>Definitions\<close>

definition TEST_QUEUE_SIZE :: nat where
  "TEST_QUEUE_SIZE = 256"

definition TEST_BUFFER_SIZE :: "64 word" where
  "TEST_BUFFER_SIZE = 2048"

datatype operation_type = OP_TYPE_SEND | OP_TYPE_RECV

record client_operation =
  co_type :: operation_type
  co_buf_len :: "64 word"
  co_buf :: "8 word list"

text \<open>The requests: descriptor, operation whose buffer is used from its start, number of bytes.\<close>

datatype test_request =
    Test_connect int "8 word list"
  | Test_send int nat "64 word"
  | Test_recv int nat "64 word"

record test_sqe =
  ts_data :: "nat option"
  ts_req :: test_request

record test_cqe =
  tc_data :: "nat option"
  tc_res :: int
  tc_bytes :: "8 word list"

record test_env =
  te_endian :: endian
  te_queue_init :: "nat \<Rightarrow> int"
  te_sqe :: "nat \<Rightarrow> bool"
  te_submit :: "test_sqe list \<Rightarrow> int"
  te_wait :: "nat \<Rightarrow> test_sqe list \<Rightarrow> test_cqe option"
  te_socket :: int
  te_getfl :: "int \<Rightarrow> 32 word"
  te_setfl :: "int \<Rightarrow> 32 word \<Rightarrow> int"
  te_o_nonblock :: "32 word"
  te_shutdown :: "int \<Rightarrow> int"
  te_close :: "int \<Rightarrow> int"
  te_pton :: "string \<Rightarrow> 8 word list option"

text \<open>What is printed: a fixed text, or the type and the length of a received header.\<close>

datatype test_line = Said string | Said_header "8 word" "16 word"

record tester =
  tt_ops :: "client_operation heap"
  tt_sq :: "test_sqe list"
  tt_flight :: "test_sqe list"
  tt_calls :: nat
  tt_out :: "test_line list"

definition test_say :: "test_line \<Rightarrow> tester \<Rightarrow> tester" where
  "test_say l s = s\<lparr>tt_out := tt_out s @ [l]\<rparr>"

subsection \<open>The ring\<close>

definition test_get_sqe :: "test_env \<Rightarrow> tester \<Rightarrow> unit comp" where
  "test_get_sqe env s = (if te_sqe env (length (tt_sq s)) then ret () else fail (Exit_failure ''SQ is full''))"

definition test_push :: "nat option \<Rightarrow> test_request \<Rightarrow> tester \<Rightarrow> tester" where
  "test_push data rq s = s\<lparr>tt_sq := tt_sq s @ [\<lparr>ts_data = data, ts_req = rq\<rparr>]\<rparr>"

definition test_submit :: "test_env \<Rightarrow> tester \<Rightarrow> tester comp" where
  "test_submit env s = (if te_submit env (tt_sq s) < 0 then fail (Exit_failure ''io_uring_submit'')
     else ret (s\<lparr>tt_flight := tt_flight s @ tt_sq s, tt_sq := []\<rparr>))"

text \<open>
  \<open>io_uring_wait_cqe\<close>: the completion, after the kernel has taken its entry out of the ring and has put
  received bytes into the buffer.
\<close>

definition test_deliver :: "test_cqe \<Rightarrow> tester \<Rightarrow> tester comp" where
  "test_deliver c s = (case find (\<lambda>q. ts_data q = tc_data c) (tt_flight s) of
       None \<Rightarrow> ret s
     | Some q \<Rightarrow>
         let s = s\<lparr>tt_flight := remove1 q (tt_flight s)\<rparr> in
         (case ts_req q of
            Test_recv fd a n \<Rightarrow>
              if tc_res c < 0 then ret s
              else bindC (hget (tt_ops s) a) (\<lambda>op. bindC (bwrite (co_buf op) 0 (tc_bytes c)) (\<lambda>bytes.
                bindC (hput (tt_ops s) a (op\<lparr>co_buf := bytes\<rparr>)) (\<lambda>h. ret (s\<lparr>tt_ops := h\<rparr>))))
          | _ \<Rightarrow> ret s))"

definition test_wait :: "test_env \<Rightarrow> tester \<Rightarrow> (test_cqe \<times> tester) comp" where
  "test_wait env s = (case te_wait env (tt_calls s) (tt_flight s) of
       None \<Rightarrow> fail (Exit_failure ''io_uring_wait_cqe'')
     | Some c \<Rightarrow> bindC (test_deliver c (s\<lparr>tt_calls := Suc (tt_calls s)\<rparr>)) (\<lambda>s. ret (c, s)))"

definition test_connect_server :: "test_env \<Rightarrow> 8 word list \<Rightarrow> int \<Rightarrow> tester \<Rightarrow> tester comp" where
  "test_connect_server env server_addr client_fd s =
     bindC (test_get_sqe env s) (\<lambda>_.
     bindC (test_submit env (test_push None (Test_connect client_fd server_addr) s)) (\<lambda>s.
     bindC (test_wait env s) (\<lambda>(cqe, s).
     if tc_res cqe < 0 then fail (Exit_failure ''connect'')
     else ret (test_say (Said ''Connected to server'') s))))"

text \<open>The allocation of an operation, the same in all three functions that start one.\<close>

definition test_new_op :: "operation_type \<Rightarrow> tester \<Rightarrow> (nat \<times> tester) comp" where
  "test_new_op t s =
     bindC (must_malloc (\<lambda>op. op\<lparr>co_buf := fit (unat TEST_BUFFER_SIZE) (co_buf op)\<rparr>) (tt_ops s) ''malloc send operation'') (\<lambda>(a, h).
     bindC (hget h a) (\<lambda>op.
     bindC (hput h a (op\<lparr>co_type := t, co_buf_len := TEST_BUFFER_SIZE\<rparr>)) (\<lambda>h.
     ret (a, s\<lparr>tt_ops := h\<rparr>))))"

text \<open>The fields of the header are never assigned: what is sent is what malloc left in the block.\<close>

definition test_send_msg_wrong_len :: "test_env \<Rightarrow> int \<Rightarrow> tester \<Rightarrow> tester comp" where
  "test_send_msg_wrong_len env client_fd s =
     bindC (test_get_sqe env s) (\<lambda>_.
     bindC (test_new_op OP_TYPE_SEND s) (\<lambda>(a, s).
     test_submit env (test_push (Some a) (Test_send client_fd a (of_nat sizeof_Header)) s)))"

definition test_send_set_username :: "test_env \<Rightarrow> int \<Rightarrow> 64 word \<Rightarrow> 8 word list \<Rightarrow> tester \<Rightarrow> tester comp" where
  "test_send_set_username env client_fd seqid uname s =
     bindC (test_get_sqe env s) (\<lambda>_.
     bindC (test_new_op OP_TYPE_SEND s) (\<lambda>(a, s).
     bindC (hget (tt_ops s) a) (\<lambda>op.
     bindC (ser_set_username (te_endian env) TEST_BUFFER_SIZE (co_buf op) seqid (of_nat (length uname)) uname) (\<lambda>(req_len, bytes).
     bindC (hput (tt_ops s) a (op\<lparr>co_buf := bytes\<rparr>)) (\<lambda>h.
     test_submit env (test_push (Some a) (Test_send client_fd a req_len) (s\<lparr>tt_ops := h\<rparr>)))))))"

definition test_prep_recv :: "test_env \<Rightarrow> int \<Rightarrow> tester \<Rightarrow> tester comp" where
  "test_prep_recv env client_fd s =
     bindC (test_get_sqe env s) (\<lambda>_.
     bindC (test_new_op OP_TYPE_RECV s) (\<lambda>(a, s).
     bindC (hget (tt_ops s) a) (\<lambda>op.
     test_submit env (test_push (Some a) (Test_recv client_fd a (co_buf_len op)) s))))"

subsection \<open>The two tests\<close>

definition jojo :: "8 word list" where
  "jojo = [106, 111, 106, 111]"

text \<open>
  One turn of the loop of \<open>set_username\<close>. An operation whose completion failed is not freed.
\<close>

definition test_set_username_turn :: "test_env \<Rightarrow> 64 word \<Rightarrow> tester \<Rightarrow> tester comp" where
  "test_set_username_turn env seqid s =
     bindC (test_wait env s) (\<lambda>(cqe, s).
     if tc_res cqe < 0 then ret (test_say (Said ''operation failed'') s)
     else bindC (ptr (tc_data cqe)) (\<lambda>a.
       bindC (hget (tt_ops s) a) (\<lambda>op.
       bindC (case co_type op of
           OP_TYPE_SEND \<Rightarrow> ret (test_say (Said ''sent set_username.'') s)
         | OP_TYPE_RECV \<Rightarrow>
             bindC (deser_header (te_endian env) (co_buf op)) (\<lambda>h.
             let s = test_say (Said_header (hd_msgt h) (hd_len h)) s in
             bindC (assertC (hd_msgt h = msgt_val MSGT_SET_USERNAME_RESPONSE) ''msgt == MSGT_SET_USERNAME_RESPONSE'') (\<lambda>_.
             bindC (assertC (seqid = hd_seqid h) ''seqid == ack_seqid'') (\<lambda>_.
             ret s)))) (\<lambda>s.
       bindC (hfree (tt_ops s) (Some a)) (\<lambda>h.
       ret (s\<lparr>tt_ops := h\<rparr>))))))"

definition test_set_username :: "test_env \<Rightarrow> int \<Rightarrow> tester \<Rightarrow> tester comp" where
  "test_set_username env client_fd s =
     (let seqid = 1; uname = jojo in
      bindC (test_send_set_username env client_fd seqid uname s) (\<lambda>s.
      bindC (test_prep_recv env client_fd s) (\<lambda>s.
      foldC (\<lambda>_. test_set_username_turn env seqid) [0..<2] s)))"

text \<open>
  One turn of the loop of \<open>wrong_message_len_disconnect\<close>. The call of \<open>free\<close> stands after the last case of
  the switch, where it is never reached.
\<close>

definition test_wrong_len_turn :: "test_env \<Rightarrow> tester \<Rightarrow> tester comp" where
  "test_wrong_len_turn env s =
     bindC (test_wait env s) (\<lambda>(cqe, s).
     if tc_res cqe < 0 then ret (test_say (Said ''operation failed'') s)
     else bindC (ptr (tc_data cqe)) (\<lambda>a.
       bindC (hget (tt_ops s) a) (\<lambda>op.
       case co_type op of
         OP_TYPE_SEND \<Rightarrow> ret (test_say (Said ''sent message with wrong len.'') s)
       | OP_TYPE_RECV \<Rightarrow>
           bindC (assertC (tc_res cqe = 0) ''cqe_res == 0'') (\<lambda>_.
           ret (test_say (Said ''server disconnected us.'') s)))))"

definition test_wrong_message_len_disconnect :: "test_env \<Rightarrow> int \<Rightarrow> tester \<Rightarrow> tester comp" where
  "test_wrong_message_len_disconnect env client_fd s =
     bindC (test_send_msg_wrong_len env client_fd s) (\<lambda>s.
     bindC (test_prep_recv env client_fd s) (\<lambda>s.
     foldC (\<lambda>_. test_wrong_len_turn env) [0..<2] s))"

definition test_run_client :: "test_env \<Rightarrow> int \<Rightarrow> tester \<Rightarrow> tester comp" where
  "test_run_client env client_fd s =
     bindC (test_set_username env client_fd s) (\<lambda>s. test_wrong_message_len_disconnect env client_fd s)"

subsection \<open>The program\<close>

definition test_args :: "test_env \<Rightarrow> string list \<Rightarrow> (8 word list \<times> int) comp" where
  "test_args env argv =
     (let (ip_str, port_str) = (if length argv = 3 then (argv ! 1, argv ! 2) else (''127.0.0.1'', ''8080'')) in
      case te_pton env ip_str of
        None \<Rightarrow> fail (Exit_failure ''Invalid server ip'')
      | Some server_ip \<Rightarrow>
          bindC (parse_int port_str) (\<lambda>server_port.
          if server_port < 0 \<or> server_port > 65535 then fail (Exit_failure ''Invalid server port'')
          else ret (server_ip, server_port)))"

definition test_sockaddr :: "test_env \<Rightarrow> 8 word list \<Rightarrow> int \<Rightarrow> 8 word list" where
  "test_sockaddr env server_ip server_port =
     mem_bytes (te_endian env) 2 (2 :: 16 word) @ mem_bytes (te_endian env) 2 (htons (te_endian env) (of_int server_port)) @
     server_ip @ replicate 8 0"

text \<open>The final state, or \<open>Inl\<close> of the exit code when the ring cannot be set up.\<close>

definition test_main :: "test_env \<Rightarrow> string list \<Rightarrow> client_operation heap \<Rightarrow> (int + tester) comp" where
  "test_main env argv ops =
     bindC (test_args env argv) (\<lambda>(server_ip, server_port).
     let server_addr = test_sockaddr env server_ip server_port;
         s = \<lparr>tt_ops = ops, tt_sq = [], tt_flight = [], tt_calls = 0, tt_out = []\<rparr> in
     if te_queue_init env TEST_QUEUE_SIZE < 0 then ret (Inl 1)
     else let client_fd = te_socket env in
       if client_fd < 0 then fail (Exit_failure ''socket()'')
       else bindC (set_nonblocking (te_getfl env) (te_setfl env) (te_o_nonblock env) client_fd) (\<lambda>_.
         bindC (test_connect_server env server_addr client_fd s) (\<lambda>s.
         bindC (test_run_client env client_fd s) (\<lambda>s.
         bindC (must_shutdown (te_shutdown env) client_fd ''client_fd shutdown'') (\<lambda>_.
         bindC (must_close (te_close env) client_fd ''client_fd close'') (\<lambda>_.
         ret (Inr s)))))))"

section \<open>Starting operations\<close>

text \<open>A ring with room, submissions that succeed, enough memory, and nothing under way.\<close>

definition test_ready :: "test_env \<Rightarrow> tester \<Rightarrow> bool" where
  "test_ready env s \<longleftrightarrow> te_sqe env 0 \<and> (\<forall>qs. 0 \<le> te_submit env qs) \<and> tt_sq s = [] \<and> tt_flight s = [] \<and>
     heap_wf (tt_ops s) \<and> (\<forall>n. fresh (tt_ops s) n \<noteq> None)"

text \<open>The next completions are \<open>cs\<close>.\<close>

definition hears :: "test_env \<Rightarrow> tester \<Rightarrow> test_cqe list \<Rightarrow> bool" where
  "hears env s cs \<longleftrightarrow> (\<forall>k < length cs. \<forall>fl. te_wait env (tt_calls s + k) fl = Some (cs ! k))"

text \<open>A new operation: its buffer is what malloc gives, cut to the size.\<close>

definition raw_op :: "operation_type \<Rightarrow> tester \<Rightarrow> nat \<Rightarrow> client_operation" where
  "raw_op t s a = (the (fresh (tt_ops s) a))\<lparr>co_buf := fit 2048 (co_buf (the (fresh (tt_ops s) a))), co_type := t, co_buf_len := 2048\<rparr>"

definition with_op :: "client_operation \<Rightarrow> test_sqe \<Rightarrow> tester \<Rightarrow> tester" where
  "with_op op q s = s\<lparr>tt_ops := (tt_ops s)\<lparr>brk := Suc (brk (tt_ops s)), cells := (cells (tt_ops s))(brk (tt_ops s) \<mapsto> op)\<rparr>,
     tt_flight := tt_flight s @ [q]\<rparr>"

lemma test_new_op_ret:
  assumes "fresh (tt_ops s) (brk (tt_ops s)) \<noteq> None"
  shows "test_new_op t s = ret (brk (tt_ops s), s\<lparr>tt_ops := (tt_ops s)\<lparr>
    brk := Suc (brk (tt_ops s)), cells := (cells (tt_ops s))(brk (tt_ops s) \<mapsto> raw_op t s (brk (tt_ops s)))\<rparr>\<rparr>)"
  using assms by (auto simp: test_new_op_def must_malloc_def malloc_def hget_def hput_def raw_op_def TEST_BUFFER_SIZE_def)

lemma started:
  assumes "te_sqe env 0" and "\<And>qs. 0 \<le> te_submit env qs" and "tt_sq s = []" and "fresh (tt_ops s) (brk (tt_ops s)) \<noteq> None"
  defines "a \<equiv> brk (tt_ops s)"
  shows "test_prep_recv env fd s = ret (with_op (raw_op OP_TYPE_RECV s a) \<lparr>ts_data = Some a, ts_req = Test_recv fd a 2048\<rparr> s)"
    and "test_send_msg_wrong_len env fd s = ret (with_op (raw_op OP_TYPE_SEND s a) \<lparr>ts_data = Some a, ts_req = Test_send fd a 11\<rparr> s)"
    and "length uname \<le> 2037 \<Longrightarrow> test_send_set_username env fd seqid uname s =
      ret (with_op ((raw_op OP_TYPE_SEND s a)\<lparr>co_buf := wire_set_username (seqid, uname) @ drop (11 + length uname) (co_buf (raw_op OP_TYPE_SEND s a))\<rparr>)
        \<lparr>ts_data = Some a, ts_req = Test_send fd a (of_nat (11 + length uname))\<rparr> s)"
proof -
  note new = test_new_op_ret [OF assms(4)]
  note defs = test_get_sqe_def test_submit_def test_push_def with_op_def a_def hget_def hput_def not_less
  show "test_prep_recv env fd s = ret (with_op (raw_op OP_TYPE_RECV s a) \<lparr>ts_data = Some a, ts_req = Test_recv fd a 2048\<rparr> s)"
    using assms(1-3) new by (simp add: test_prep_recv_def defs raw_op_def)
  show "test_send_msg_wrong_len env fd s = ret (with_op (raw_op OP_TYPE_SEND s a) \<lparr>ts_data = Some a, ts_req = Test_send fd a 11\<rparr> s)"
    using assms(1-3) new by (simp add: test_send_msg_wrong_len_def defs layout)
  assume u: "length uname \<le> 2037"
  have "length (co_buf (raw_op OP_TYPE_SEND s a)) = 2048" by (simp add: raw_op_def)
  then have "ser_set_username (te_endian env) 2048 (co_buf (raw_op OP_TYPE_SEND s a)) seqid (of_nat (length uname)) uname =
      ret (of_nat (11 + length uname), wire_set_username (seqid, uname) @ drop (11 + length uname) (co_buf (raw_op OP_TYPE_SEND s a)))"
    using u by (intro ser_set_username_wire) simp_all
  then show "test_send_set_username env fd seqid uname s =
      ret (with_op ((raw_op OP_TYPE_SEND s a)\<lparr>co_buf := wire_set_username (seqid, uname) @ drop (11 + length uname) (co_buf (raw_op OP_TYPE_SEND s a))\<rparr>)
        \<lparr>ts_data = Some a, ts_req = Test_send fd a (of_nat (11 + length uname))\<rparr> s)"
    using assms(1-3) new by (simp add: test_send_set_username_def defs TEST_BUFFER_SIZE_def del: of_nat_add)
qed

section \<open>What the tests decide\<close>

text \<open>The completions of a send of \<open>n\<close> bytes and of a receive of \<open>bytes\<close>, in either order.\<close>

definition test_sent :: "nat \<Rightarrow> nat \<Rightarrow> test_cqe" where
  "test_sent a n = \<lparr>tc_data = Some a, tc_res = int n, tc_bytes = []\<rparr>"

definition test_got :: "nat \<Rightarrow> 8 word list \<Rightarrow> test_cqe" where
  "test_got a bytes = \<lparr>tc_data = Some a, tc_res = int (length bytes), tc_bytes = bytes\<rparr>"

definition exchange :: "test_env \<Rightarrow> tester \<Rightarrow> nat \<Rightarrow> 8 word list \<Rightarrow> bool" where
  "exchange env s n bytes \<longleftrightarrow> (let a = brk (tt_ops s) in
     hears env s [test_sent a n, test_got (Suc a) bytes] \<or> hears env s [test_got (Suc a) bytes, test_sent a n])"

lemma twice: "foldC (\<lambda>_. f) [0..<2] s = bindC (f s) f"
  by (simp add: upt_rec) (rule arg_cong [of _ _ "bindC (f s)"], simp add: fun_eq_iff)

lemma hears_two: "hears env s [c, d] \<longleftrightarrow> (\<forall>fl. te_wait env (tt_calls s) fl = Some c \<and> te_wait env (Suc (tt_calls s)) fl = Some d)"
  by (auto simp: hears_def less_Suc_eq numeral_2_eq_2)

text \<open>
  Both operations are under way: the one whose buffer is sent, of type send, and after it the one that receives.
\<close>

definition opened :: "int \<Rightarrow> 64 word \<Rightarrow> tester \<Rightarrow> client_operation \<Rightarrow> client_operation \<Rightarrow> tester \<Rightarrow> bool" where
  "opened fd n s A B s' \<longleftrightarrow> (let a = brk (tt_ops s) in
     cells (tt_ops s') = (cells (tt_ops s))(a \<mapsto> A, Suc a \<mapsto> B) \<and> co_type A = OP_TYPE_SEND \<and> co_type B = OP_TYPE_RECV \<and> length (co_buf B) = 2048 \<and>
     tt_flight s' = [\<lparr>ts_data = Some a, ts_req = Test_send fd a n\<rparr>, \<lparr>ts_data = Some (Suc a), ts_req = Test_recv fd (Suc a) 2048\<rparr>] \<and>
     tt_sq s' = [] \<and> tt_calls s' = tt_calls s \<and> tt_out s' = tt_out s \<and> brk (tt_ops s') = a + 2 \<and> fresh (tt_ops s') = fresh (tt_ops s))"

lemma opened_recv:
  assumes "test_ready env s" and "s1 = with_op A \<lparr>ts_data = Some (brk (tt_ops s)), ts_req = Test_send fd (brk (tt_ops s)) n\<rparr> s" and "co_type A = OP_TYPE_SEND"
  obtains B s2 where "test_prep_recv env fd s1 = ret s2" "opened fd n s A B s2"
proof -
  have r: "te_sqe env 0" "\<And>qs. 0 \<le> te_submit env qs" "tt_sq s = []" "tt_flight s = []" "\<And>n. fresh (tt_ops s) n \<noteq> None"
    using assms(1) by (auto simp: test_ready_def)
  let ?s2 = "with_op (raw_op OP_TYPE_RECV s1 (brk (tt_ops s1))) \<lparr>ts_data = Some (brk (tt_ops s1)), ts_req = Test_recv fd (brk (tt_ops s1)) 2048\<rparr> s1"
  have "test_prep_recv env fd s1 = ret ?s2"
    by (rule started(1) [OF r(1,2)]) (use r(3,5) assms(2) in \<open>simp_all add: with_op_def\<close>)
  moreover have "opened fd n s A (raw_op OP_TYPE_RECV s1 (brk (tt_ops s1))) ?s2"
    using r(3,4) assms(2,3) by (simp add: opened_def with_op_def raw_op_def)
  ultimately show thesis by (rule that)
qed

lemma test_set_username_opens:
  assumes "test_ready env s"
  obtains A B s' where "test_set_username env fd s = bindC (test_set_username_turn env 1 s') (test_set_username_turn env 1)"
    "opened fd 15 s A B s'" "take 15 (co_buf A) = wire_set_username (1, jojo)"
proof -
  let ?a = "brk (tt_ops s)"
  let ?A = "(raw_op OP_TYPE_SEND s ?a)\<lparr>co_buf := wire_set_username (1, jojo) @ drop 15 (co_buf (raw_op OP_TYPE_SEND s ?a))\<rparr>"
  let ?s1 = "with_op ?A \<lparr>ts_data = Some ?a, ts_req = Test_send fd ?a 15\<rparr> s"
  obtain B s2 where "test_prep_recv env fd ?s1 = ret s2" "opened fd 15 s ?A B s2"
    by (rule opened_recv [OF assms refl, of ?A fd 15]) (simp add: raw_op_def)
  moreover have "test_send_set_username env fd 1 jojo s = ret ?s1"
    using started(3) [of env s jojo fd 1] assms by (simp add: jojo_def test_ready_def)
  moreover have "take 15 (co_buf ?A) = wire_set_username (1, jojo)" by (simp add: jojo_def)
  ultimately show thesis by (intro that [of s2 ?A B]) (simp_all add: test_set_username_def twice)
qed

lemma test_wrong_len_opens:
  assumes "test_ready env s"
  obtains A B s' where "test_wrong_message_len_disconnect env fd s = bindC (test_wrong_len_turn env s') (test_wrong_len_turn env)"
    "opened fd 11 s A B s'" "co_buf A = fit 2048 (co_buf (the (fresh (tt_ops s) (brk (tt_ops s)))))"
proof -
  let ?a = "brk (tt_ops s)"
  let ?A = "raw_op OP_TYPE_SEND s ?a"
  let ?s1 = "with_op ?A \<lparr>ts_data = Some ?a, ts_req = Test_send fd ?a 11\<rparr> s"
  obtain B s2 where "test_prep_recv env fd ?s1 = ret s2" "opened fd 11 s ?A B s2"
    by (rule opened_recv [OF assms refl, of ?A fd 11]) (simp add: raw_op_def)
  moreover have "test_send_msg_wrong_len env fd s = ret ?s1"
    using started(2) [of env s fd] assms by (simp add: test_ready_def)
  ultimately show thesis by (intro that [of s2 ?A B]) (simp_all add: test_wrong_message_len_disconnect_def twice raw_op_def)
qed

lemmas test_defs = test_wait_def test_deliver_def test_sent_def test_got_def test_say_def hget_def hput_def hfree_def ptr_def
  bwrite_def deser_header_reads assertC_def opened_def Let_def

lemma test_set_username_outcome:
  assumes "test_ready env s" and "exchange env s n bytes" and "11 \<le> length bytes" and "length bytes \<le> 2048"
  shows "if bytes ! 2 = msgt_val MSGT_SET_USERNAME_RESPONSE \<and> be_word (take 8 (drop 3 bytes)) = (1 :: 64 word)
    then \<exists>s'. test_set_username env fd s = ret s' \<and> cells (tt_ops s') = cells (tt_ops s) \<and> test_ready env s' \<and> tt_calls s' = tt_calls s + 2 \<and>
      set (tt_out s') = set (tt_out s) \<union> {Said ''sent set_username.'', Said_header 2 (be_word (take 2 bytes))}
    else \<exists>msg. test_set_username env fd s = fail (Assert_failed msg)"
proof -
  have wf: "cells (tt_ops s) (brk (tt_ops s)) = None" "cells (tt_ops s) (Suc (brk (tt_ops s))) = None"
    using assms(1) by (simp_all add: test_ready_def heap_wf_def)
  have again: "test_ready env s'" if "cells (tt_ops s') = cells (tt_ops s)" "brk (tt_ops s') = brk (tt_ops s) + 2"
      "fresh (tt_ops s') = fresh (tt_ops s)" "tt_sq s' = []" "tt_flight s' = []" for s'
    using assms(1) that by (simp add: test_ready_def heap_wf_def)
  obtain A B s2 where run: "test_set_username env fd s = bindC (test_set_username_turn env 1 s2) (test_set_username_turn env 1)"
    and s2: "opened fd 15 s A B s2" by (rule test_set_username_opens [OF assms(1)])
  show ?thesis
    using assms(2) unfolding run exchange_def Let_def hears_two
    using s2 wf assms(3,4) by (elim disjE) (auto simp: test_set_username_turn_def test_defs nth_append intro!: again)
qed

lemma test_wrong_len_outcome:
  assumes "test_ready env s" and "exchange env s n bytes" and "length bytes \<le> 2048"
  shows "if bytes = [] then \<exists>s'. test_wrong_message_len_disconnect env fd s = ret s' \<and>
      set (tt_out s') = set (tt_out s) \<union> {Said ''sent message with wrong len.'', Said ''server disconnected us.''}
    else test_wrong_message_len_disconnect env fd s = fail (Assert_failed ''cqe_res == 0'')"
proof -
  obtain A B s2 where run: "test_wrong_message_len_disconnect env fd s = bindC (test_wrong_len_turn env s2) (test_wrong_len_turn env)"
    and s2: "opened fd 11 s A B s2" by (rule test_wrong_len_opens [OF assms(1)])
  show ?thesis
    using assms(2) unfolding run exchange_def Let_def hears_two
    using s2 assms(3) by (elim disjE) (auto simp: test_wrong_len_turn_def test_defs)
qed

section \<open>The program\<close>

text \<open>System calls that succeed.\<close>

definition test_calm :: "test_env \<Rightarrow> bool" where
  "test_calm env \<longleftrightarrow> te_sqe env 0 \<and> (\<forall>qs. 0 \<le> te_submit env qs) \<and> 0 \<le> te_queue_init env TEST_QUEUE_SIZE \<and> 0 \<le> te_socket env \<and>
     te_getfl env (te_socket env) \<noteq> - 1 \<and> (\<forall>w. te_setfl env (te_socket env) w \<noteq> - 1) \<and>
     0 \<le> te_shutdown env (te_socket env) \<and> 0 \<le> te_close env (te_socket env)"

lemma test_connect_ret:
  assumes "te_sqe env 0" and "\<forall>qs. 0 \<le> te_submit env qs" and "tt_sq s = []" and "tt_flight s = []"
    and "te_wait env (tt_calls s) [\<lparr>ts_data = None, ts_req = Test_connect fd addr\<rparr>] = Some c" and "tc_data c = None" and "0 \<le> tc_res c"
  shows "test_connect_server env addr fd s = ret (s\<lparr>tt_calls := Suc (tt_calls s), tt_out := tt_out s @ [Said ''Connected to server'']\<rparr>)"
  using assms by (simp add: test_connect_server_def test_get_sqe_def test_submit_def test_push_def test_wait_def test_deliver_def test_say_def not_less)

text \<open>
  The whole program: connected, the first exchange answered with the right header, the second one with the end of the
  stream. \<open>s0\<close> is the state after the connection, \<open>s1\<close> the one after the first test.
\<close>

lemma test_main_passes:
  assumes "test_calm env" and "heap_wf ops" and "\<forall>n. fresh ops n \<noteq> None"
    and "test_args env argv = ret (ip, port)"
    and "\<And>fl. te_wait env 0 fl = Some \<lparr>tc_data = None, tc_res = 0, tc_bytes = []\<rparr>"
    and s0: "s0 = \<lparr>tt_ops = ops, tt_sq = [], tt_flight = [], tt_calls = 1, tt_out = [Said ''Connected to server'']\<rparr>"
    and "exchange env s0 n bytes" and "11 \<le> length bytes" and "length bytes \<le> 2048"
    and "bytes ! 2 = msgt_val MSGT_SET_USERNAME_RESPONSE" and "be_word (take 8 (drop 3 bytes)) = (1 :: 64 word)"
    and last: "\<And>s1. test_set_username env (te_socket env) s0 = ret s1 \<Longrightarrow> exchange env s1 n' []"
  shows "\<exists>s. test_main env argv ops = ret (Inr s) \<and> Said ''server disconnected us.'' \<in> set (tt_out s)"
proof -
  have "test_ready env s0" using assms(1-3) by (simp add: s0 test_ready_def test_calm_def)
  from test_set_username_outcome [OF this assms(7-9), of "te_socket env"] assms(10,11)
  obtain s1 where s1: "test_set_username env (te_socket env) s0 = ret s1" "test_ready env s1" by auto
  obtain s2 where s2: "test_wrong_message_len_disconnect env (te_socket env) s1 = ret s2" "Said ''server disconnected us.'' \<in> set (tt_out s2)"
    using test_wrong_len_outcome [OF s1(2) last [OF s1(1)], of "te_socket env"] by auto
  have "test_connect_server env (test_sockaddr env ip port) (te_socket env)
      \<lparr>tt_ops = ops, tt_sq = [], tt_flight = [], tt_calls = 0, tt_out = []\<rparr> = ret s0"
    using assms(1,5) by (subst test_connect_ret) (auto simp: test_calm_def s0)
  then show ?thesis
    using s1(1) s2 assms(1,4)
    by (auto simp: test_main_def test_run_client_def test_calm_def set_nonblocking_def must_shutdown_def must_close_def Let_def)
qed

end
