(* ===== verification/Server_Session.thy ===== *)
theory Server_Session
  imports Server_Live Protocol_Test
begin

text \<open>
  Client and server together: a request that a client has serialised, on a host of any byte order,
  travels to the server, is answered there, and the answer is sent back to its end, in whatever pieces the
  kernel takes. And what the two tests of test_protocol.c see when they run against this server.
\<close>

section \<open>A request and its answer\<close>

lemma length_answer: "length (answer_of m) = (if name_ok (of_nat (11 + length (snd m))) (snd m) then 11 else 12)"
  by (cases m) (simp add: answer_of_def answer_def name_ok_def)

lemma answer_len_word: "unat (of_nat (length (answer_of m)) :: 64 word) = length (answer_of m)"
  by (intro unat_of_nat_64) (simp add: length_answer)

text \<open>The receive of one whole request and the submission after it; the answer waits to be sent.\<close>

lemma recv_answer_waits:
  assumes "srv_inv s" and "waiting s q a" and "sqe_req q = Recv fd b 0 2048" and "client_of s a = ret (Some i)"
    and "cqe_data c = sqe_data q" and "cqe_res c = int (length (cqe_bytes c))" and "length (cqe_bytes c) \<le> 2048"
    and "cqe_bytes c = wire_set_username m"
  shows "spec (bindC (take_cqes env [c] s) (submit env)) is_exit (\<lambda>s1. srv_inv s1 \<and> sv_closed s1 = sv_closed s \<and>
    username_of s1 i = store_name m (username_of s i) \<and> sv_sq s1 = [] \<and> (\<exists>q' x b'.
      sv_flight s1 = remove1 q (sv_flight s) @ sv_sq s @ [q', \<lparr>sqe_data = sqe_data q, sqe_req = Recv fd b 0 2048\<rparr>] \<and> waiting s1 q' x \<and> client_of s1 x = ret (Some i) \<and>
      sqe_req q' = Send fd b' 0 (of_nat (length (answer_of m))) \<and> take (length (answer_of m)) (bytes_of s1 b') = answer_of m))"
proof (rule spec_bindI [OF recv_stream_event [OF assms(1-7), of "[m]" "[]" env]], goal_cases)
  case (4 s')
  then obtain qs where s': "srv_inv s'" "username_of s' i = store_name m (username_of s i)"
    "client_map_get (sv_clients s') (sv_infos s') (op_client_id (op_at s a)) = ret (Some i)" "sv_closed s' = sv_closed s" "sv_flight s' = remove1 q (sv_flight s)"
    and qs: "sv_sq s' = sv_sq s @ qs @ [\<lparr>sqe_data = sqe_data q, sqe_req = Recv fd b 0 2048\<rparr>]"
      "list_all2 (carries s' fd (op_client_id (op_at s a))) qs [answer_of m]" by auto
  from qs(2) obtain q' where q1: "qs = [q']" "carries s' fd (op_client_id (op_at s a)) q' (answer_of m)" by (auto simp: list_all2_Cons2)
  then have q': "q' \<in> set (sv_sq s')" "carries s' fd (op_client_id (op_at s a)) q' (answer_of m)" using qs(1) by simp_all
  then obtain x b' buf where x: "x \<in> busy s'" "sqe_data q' = op_pool_id (op_at s' x)" "op_client_id (op_at s' x) = op_client_id (op_at s a)"
    and b': "sqe_req q' = Send fd b' 0 (of_nat (length (answer_of m)))" "cells (sv_bufs s') b' = Some buf"
      "take (length (answer_of m)) (br_buf buf) = answer_of m" by (auto simp: carries_def)
  note w = busy_waits [OF s'(1) x(1)]
  let ?s1 = "s'\<lparr>sv_flight := sv_flight s' @ sv_sq s', sv_sq := []\<rparr>"
  have "waiting ?s1 q' x" "client_of ?s1 x = ret (Some i)" "take (length (answer_of m)) (bytes_of ?s1 b') = answer_of m"
    "username_of ?s1 i = username_of s' i" and fl: "sv_flight ?s1 = remove1 q (sv_flight s) @ sv_sq s @ [q', \<lparr>sqe_data = sqe_data q, sqe_req = Recv fd b 0 2048\<rparr>]"
    using qs(1) q1(1) s'(5) q'(1) w x(2,3) s'(3) b'(2,3)
    by (simp_all add: waiting_def client_of_def get_op_def bytes_of_def username_of_def)
  then have "\<exists>q' x b'. sv_flight ?s1 = remove1 q (sv_flight s) @ sv_sq s @ [q', \<lparr>sqe_data = sqe_data q, sqe_req = Recv fd b 0 2048\<rparr>] \<and>
      waiting ?s1 q' x \<and> client_of ?s1 x = ret (Some i) \<and>
      sqe_req q' = Send fd b' 0 (of_nat (length (answer_of m))) \<and> take (length (answer_of m)) (bytes_of ?s1 b') = answer_of m"
    "username_of ?s1 i = store_name m (username_of s i)" using b'(1) s'(2) fl by (blast, simp)
  then show ?case
    by (intro spec_conseq [OF submit_exact [OF s'(1), of env]]) (use s'(4) in auto)
qed (use assms(8) in simp_all)

lemma answer_to_end:
  assumes "srv_inv s" and "waiting s q x" and "sqe_req q = Send fd b 0 (of_nat (length (answer_of m)))" and "client_of s x = ret (Some i)"
    and "take (length (answer_of m)) (bytes_of s b) = answer_of m" and "sum_list ns = length (answer_of m)" and "0 \<notin> set ns"
  shows "spec (foldC (server_step env) (send_events (sqe_data q) ns) s) is_exit (\<lambda>s'. srv_inv s' \<and> x \<notin> busy s' \<and>
    sv_closed s' = sv_closed s \<and> pend s' = remove1 q (sv_flight s) @ sv_sq s \<and> sent_bytes env (send_events (sqe_data q) ns) s = answer_of m)"
proof -
  have "ns \<noteq> []" using assms(6) by (auto simp: length_answer split: if_splits)
  then show ?thesis
    using send_to_end [OF assms(1-4), of ns env] assms(5-7) by (simp add: answer_len_word)
qed

text \<open>The bytes that a host of byte order \<open>e\<close> has serialised are those on the wire.\<close>

lemma serialised_request:
  assumes "ser_set_username e cap buf seqid (of_nat (length name)) name = ret (n, msg)"
    and "length name \<le> 2037" and "11 + length name \<le> unat cap" and "unat cap \<le> length buf"
  shows "unat n = 11 + length name" and "take (unat n) msg = wire_set_username (seqid, name)"
proof -
  have eq: "ser_set_username e cap buf seqid (of_nat (length name)) name =
      ret (of_nat (11 + length name), wire_set_username (seqid, name) @ drop (11 + length name) buf)"
    using assms(2-4) by (intro ser_set_username_wire) simp_all
  then have n: "n = of_nat (11 + length name)" and msg: "msg = wire_set_username (seqid, name) @ drop (11 + length name) buf"
    using assms(1) by (simp_all del: of_nat_add)
  show u: "unat n = 11 + length name" unfolding n using assms(2) by (intro unat_of_nat_64) simp
  show "take (unat n) msg = wire_set_username (seqid, name)" unfolding u msg by simp
qed

text \<open>What a host of any byte order reads from an answer.\<close>

lemma answer_header:
  "deser_header e (answer_of (seqid, name) @ rest) = ret (if name_ok (of_nat (11 + length name)) name
    then \<lparr>hd_len = 11, hd_msgt = msgt_val MSGT_SET_USERNAME_RESPONSE, hd_seqid = seqid\<rparr>
    else \<lparr>hd_len = 12, hd_msgt = msgt_val MSGT_SERVER_ERROR, hd_seqid = seqid\<rparr>)"
  by (auto simp: answer_of_def answer_def name_ok_def wire_server_error_def simp del: msgt_val.simps)

section \<open>A header alone\<close>

text \<open>Any 11 bytes are the header of a length, a type and a seqid, which any host reads from them.\<close>

definition raw_header :: "16 word \<Rightarrow> 8 word \<Rightarrow> 64 word \<Rightarrow> 8 word list" where
  "raw_header len msgt seqid = be_bytes 2 len @ [msgt] @ be_bytes 8 seqid"

lemma length_raw_header [simp]: "length (raw_header len msgt seqid) = 11"
  by (simp add: raw_header_def)

lemma deser_raw_header:
  "deser_header e (raw_header len msgt seqid @ rest) = ret \<lparr>hd_len = len, hd_msgt = msgt, hd_seqid = seqid\<rparr>"
  by (simp add: deser_header_def raw_header_def bread_def aread_def layout nth_append)

lemma raw_header_cover:
  assumes "length hdr = 11"
  shows "hdr = raw_header (be_word (take 2 hdr)) (hdr ! 2) (be_word (take 8 (drop 3 hdr)))"
proof -
  have "be_bytes 2 (be_word (take 2 hdr) :: 16 word) = take 2 hdr" "be_bytes 8 (be_word (take 8 (drop 3 hdr)) :: 64 word) = take 8 (drop 3 hdr)"
    using be_bytes_be_word [where 'a = 16, of "take 2 hdr"] be_bytes_be_word [where 'a = 64, of "take 8 (drop 3 hdr)"] assms by simp_all
  then show ?thesis
    using assms append_take_drop_id [of 2 hdr] Cons_nth_drop_Suc [of 2 hdr] by (simp add: raw_header_def numeral_3_eq_3 numeral_2_eq_2)
qed

text \<open>The three ways of the loop with such a header at the front of the buffer.\<close>

lemma raw_header_turn:
  assumes "cells (sv_bufs s) b = Some buf" and "br_buf buf = raw_header len msgt seqid @ rest"
  shows "2048 < unat len \<Longrightarrow> handle_recv_loop env i a b 0 11 s = bindC (disconnect_and_free_op env (Some i) a s) (\<lambda>s. ret (None, s))"
    and "11 < unat len \<Longrightarrow> unat len \<le> 2048 \<Longrightarrow> handle_recv_loop env i a b 0 11 s = bindC (get_op s a) (\<lambda>op. ret (Some 11, s))"
    and "unat len \<le> 11 \<Longrightarrow> handle_recv_loop env i a b 0 11 s = bindC (handle env i a b 0 (ucast len) msgt seqid s) (\<lambda>(r, s).
        if r = - 1 then bindC (disconnect_and_free_op env (Some i) a s) (\<lambda>s. ret (None, s))
        else handle_recv_loop env i a b (unat len) (11 - ucast len) s)"
proof -
  define h where "h = \<lparr>hd_len = len, hd_msgt = msgt, hd_seqid = seqid\<rparr>"
  have dh: "deser_header (env_endian env) (drop 0 (br_buf buf)) = ret h"
    by (simp add: assms(2) h_def deser_raw_header)
  note turn = recv_loop_turn [OF assms(1) dh, of 11, unfolded h_def, simplified]
  have u: "unat (ucast len :: 64 word) = unat len" using unsigned_less [of len, where ?'a = nat] by (simp add: unsigned_ucast_eq take_bit_nat_eq_self)
  note w = PROT_HDR_LEN_def BUFFER_SIZE_2KB_def word_less_nat_alt u
  show "2048 < unat len \<Longrightarrow> handle_recv_loop env i a b 0 11 s = bindC (disconnect_and_free_op env (Some i) a s) (\<lambda>s. ret (None, s))"
    by (rule turn(1)) (simp_all add: w)
  show "11 < unat len \<Longrightarrow> unat len \<le> 2048 \<Longrightarrow> handle_recv_loop env i a b 0 11 s = bindC (get_op s a) (\<lambda>op. ret (Some 11, s))"
    by (rule turn(2)) (simp_all add: w)
  show "unat len \<le> 11 \<Longrightarrow> handle_recv_loop env i a b 0 11 s = bindC (handle env i a b 0 (ucast len) msgt seqid s) (\<lambda>(r, s).
        if r = - 1 then bindC (disconnect_and_free_op env (Some i) a s) (\<lambda>s. ret (None, s))
        else handle_recv_loop env i a b (unat len) (11 - ucast len) s)"
    using turn(3) by (simp add: w cong: if_cong)
qed

lemma header_alone_closes:
  assumes c: "cur m as a s" and l: "listening s" and op: "op_type (op_at s a) = OP_READ" "op_buf_ref (op_at s a) = Some b"
      "m (op_client_id (op_at s a)) = Some i"
    and buf: "cells (sv_bufs s) b = Some buf" "br_buf buf = raw_header len msgt seqid @ rest"
    and len: "2048 < unat len \<or> unat len \<le> 11 \<and> msgt \<noteq> msgt_val MSGT_SET_USERNAME"
  shows "handle_recv env i a 11 s = disconnect_and_free_op env (Some i) a s"
proof -
  have ok: "srv_ok m as s" and a: "a \<in> busy s" using c by (simp_all add: cur_def)
  have "handle env i a b 0 (ucast len) msgt seqid s = ret (- 1, s)" if "msgt \<noteq> msgt_val MSGT_SET_USERNAME"
    using that busy_op [OF ok a] by (simp add: handle_def get_op_def hget_def)
  then have "handle_recv_loop env i a b 0 11 s = bindC (disconnect_and_free_op env (Some i) a s) (\<lambda>s. ret (None, s))"
    using len raw_header_turn(1,3) [OF buf] by auto
  then show ?thesis
    using busy_op [OF ok a] op(2) by (simp add: handle_recv_def get_op_def hget_def ptr_def bindC_assoc)
qed

lemma header_alone_waits:
  assumes c: "cur m as a s" and op: "op_buf_ref (op_at s a) = Some b"
    and buf: "cells (sv_bufs s) b = Some buf" "br_buf buf = raw_header len msgt seqid @ rest"
    and len: "11 < unat len" "unat len \<le> 2048"
  shows "handle_recv env i a 11 s = resume_recv env a 11 s"
proof -
  have ok: "srv_ok m as s" and a: "a \<in> busy s" using c by (simp_all add: cur_def)
  show ?thesis
    using busy_op [OF ok a] op raw_header_turn(2) [OF buf len] by (simp add: handle_recv_def get_op_def hget_def ptr_def)
qed

lemma header_alone_errs:
  assumes c: "cur m as a s" and l: "listening s" and op: "op_type (op_at s a) = OP_READ" "op_buf_cap (op_at s a) = 2048"
      "op_buf_ref (op_at s a) = Some b" "m (op_client_id (op_at s a)) = Some i"
    and buf: "cells (sv_bufs s) b = Some buf" "br_buf buf = raw_header len (msgt_val MSGT_SET_USERNAME) seqid @ rest"
    and len: "0 < unat len" "unat len \<le> 11"
  shows "spec (handle_recv env i a 11 s) is_exit (\<lambda>s'. srv_inv s' \<and> sv_closed s' = sv_closed s \<and> sv_infos s' = sv_infos s \<and>
    (\<exists>q. sv_sq s' = sv_sq s @ [q, \<lparr>sqe_data = op_pool_id (op_at s a), sqe_req = Recv (op_client_fd (op_at s a)) b
        (11 - unat len) (of_nat (2048 - (11 - unat len)))\<rparr>] \<and>
      carries s' (op_client_fd (op_at s a)) (op_client_id (op_at s a)) q (wire_server_error (seqid, code_val CODE_INVALID_MSG_LEN))))"
    (is "spec _ _ ?post")
proof -
  let ?len = "ucast len :: 64 word" and ?fd = "op_client_fd (op_at s a)" and ?cid = "op_client_id (op_at s a)"
    and ?msg = "wire_server_error (seqid, code_val CODE_INVALID_MSG_LEN)"
  have ok: "srv_ok m as s" and a: "a \<in> busy s" using c by (simp_all add: cur_def)
  have u: "unat ?len = unat len" using unsigned_less [of len, where ?'a = nat] by (simp add: unsigned_ucast_eq take_bit_nat_eq_self)
  obtain ci where ci: "cells (sv_infos s) i = Some ci" using cm_rep_live [OF srv_okD(2) [OF ok] op(4)] by metis
  have left: "11 - ?len = of_nat (11 - unat len)" using ucast_word_of_nat [of len "unat len"] len(2) by (simp add: of_nat_diff)
  moreover have "unat (of_nat (11 - unat len) :: 64 word) = 11 - unat len" by (intro unat_of_nat_64) simp
  ultimately have short: "\<not> PROT_HDR_LEN \<le> 11 - ?len" using len by (simp add: PROT_HDR_LEN_def word_le_nat_alt)
  have hd: "spec (handle env i a b 0 ?len (msgt_val MSGT_SET_USERNAME) seqid s) is_exit (\<lambda>(r, s1). r = 0 \<and>
      (\<exists>x. srv_ok m (as @ [x]) s1 \<and> sent x ?fd ?cid ?msg s s1))"
    by (rule spec_conseq [OF handle_ok [OF ok a ci buf(1), of 0 ?len env "msgt_val MSGT_SET_USERNAME" seqid]])
      (use len u buf(2) in \<open>auto simp: name_ok_def answer_def word_le_nat_alt split: if_splits\<close>)
  have resume: "spec (resume_recv env a (of_nat (11 - unat len)) s1) is_exit ?post"
    if x: "srv_ok m (as @ [x]) s1" "sent x ?fd ?cid ?msg s s1" for x s1
  proof -
    note cs = cur_sent [OF c l op(1) refl refl refl x]
    have "sv_closed s1 = sv_closed s" "sv_infos s1 = sv_infos s" using x(2) by (simp_all add: sent_def op_added_def mem_only_eq)
    moreover obtain q where q: "sv_sq s1 = sv_sq s @ [q]" using x(2) by (auto simp: sent_def)
    moreover have "carries s2 ?fd ?cid q ?msg" if k: "kept s1 s2" for s2
      by (rule sent_carries [OF x k]) (use q in simp)
    ultimately show ?thesis
      by (intro spec_conseq [OF resume_event [OF cs(1,2)]]) (use cs(3) op in \<open>auto simp: kept_def\<close>)
  qed
  have "spec (handle_recv_loop env i a b 0 11 s) is_exit (\<lambda>(left, s1). left = Some (of_nat (11 - unat len)) \<and>
      (\<exists>x. srv_ok m (as @ [x]) s1 \<and> sent x ?fd ?cid ?msg s s1))"
    unfolding raw_header_turn(3) [OF buf len(2)]
    by (rule spec_bindI [OF hd]) (use left short in \<open>auto simp: loop_short\<close>)
  then have "spec (handle_recv_loop env i a b 0 11 s) is_exit
      (\<lambda>(left, s'). spec (case left of None \<Rightarrow> ret s' | Some n' \<Rightarrow> resume_recv env a n' s') is_exit ?post)"
    by (rule spec_conseq) (use resume in auto)
  then show ?thesis
    using busy_op [OF ok a] op(3) by (simp add: handle_recv_def get_op_def case_prod_unfold)
qed

lemma header_alone_event:
  assumes "env_ok N env" and "srv_inv s" and "waiting s q a" and "sqe_req q = Recv fd b 0 2048" and "client_of s a = ret (Some i)"
    and "cqe_data c = sqe_data q" and "cqe_res c = 11" and "cqe_bytes c = raw_header len msgt seqid"
  shows "spec (take_cqes env [c] s) is_exit (\<lambda>s'. srv_inv s' \<and>
    (if 2048 < unat len \<or> unat len \<le> 11 \<and> msgt \<noteq> msgt_val MSGT_SET_USERNAME
     then sv_closed s' = sv_closed s @ [fd] \<and> sv_sq s' = sv_sq s \<and>
       client_map_get (sv_clients s') (sv_infos s') (op_client_id (op_at s a)) = ret None
     else sv_closed s' = sv_closed s \<and> 0 < unat len \<and>
       (if 11 < unat len then sv_sq s' = sv_sq s @ [\<lparr>sqe_data = sqe_data q, sqe_req = Recv fd b 11 2037\<rparr>]
        else \<exists>q'. sv_sq s' = sv_sq s @ [q', \<lparr>sqe_data = sqe_data q, sqe_req = Recv fd b (11 - unat len) (of_nat (2037 + unat len))\<rparr>] \<and>
          carries s' fd (op_client_id (op_at s a)) q' (wire_server_error (seqid, code_val CODE_INVALID_MSG_LEN)))))"
    (is "spec _ _ ?post")
proof -
  let ?s = "received q b 0 (cqe_bytes c) s" and ?buf = "(the (cells (sv_bufs s) b))"
  have c: "cqe_res c = int (length (cqe_bytes c))" "length (cqe_bytes c) \<le> 2048" using assms(7,8) by simp_all
  obtain m as where r: "cur m as a ?s" "listening ?s" "op_type (op_at s a) = OP_READ" "op_buf_cap (op_at s a) = 2048"
    "op_buf_ref (op_at s a) = Some b" "m (op_client_id (op_at s a)) = Some i" "op_client_fd (op_at s a) = fd"
    "op_pool_id (op_at s a) = sqe_data q"
    "take_cqes env [c] s = handle_recv env i a (of_nat (length (cqe_bytes c))) ?s"
    by (rule recv_event [OF assms(2-6) c])
  note run = r(9) [unfolded assms(8) length_raw_header of_nat_numeral, folded assms(8)]
  note cells_b = received_fields(9) [of q b 0 "cqe_bytes c" s]
  have bytes: "br_buf (?buf\<lparr>br_buf := take 0 (br_buf ?buf) @ cqe_bytes c @ drop (0 + length (cqe_bytes c)) (br_buf ?buf)\<rparr>) =
      raw_header len msgt seqid @ drop 11 (br_buf ?buf)" using assms(8) by simp
  consider (close) "2048 < unat len \<or> unat len \<le> 11 \<and> msgt \<noteq> msgt_val MSGT_SET_USERNAME" | (wait) "11 < unat len" "unat len \<le> 2048"
    | (zero) "unat len = 0" "msgt = msgt_val MSGT_SET_USERNAME" | (err) "0 < unat len" "unat len \<le> 11" "msgt = msgt_val MSGT_SET_USERNAME"
    by linarith
  then show ?thesis
  proof cases
    case close
    note eq = header_alone_closes [OF r(1,2) _ _ _ cells_b bytes close]
    then show ?thesis using disconnect_event [OF r(1,2), of i env] r close
      by (auto simp: run elim!: spec_conseq)
  next
    case wait
    note eq = header_alone_waits [OF r(1) _ cells_b bytes wait]
    then show ?thesis using resume_event [OF r(1,2), of b i 11 env] r wait
      by (auto simp: run kept_def elim!: spec_conseq)
  next
    case zero
    then have "cqe_bytes c = wire_header 0 MSGT_SET_USERNAME seqid @ []"
      using assms(8) by (simp add: raw_header_def wire_header_def unat_eq_0)
    from zero_length_event [OF assms(1-6) c this] show ?thesis by (rule spec_conseq) simp
  next
    case err
    show ?thesis
      unfolding run by (rule spec_conseq [OF header_alone_errs [OF r(1,2) _ _ _ _ cells_b bytes [unfolded err(3)] err(1,2)]]) (use r(3-8) err in auto)
  qed
qed

section \<open>The tests\<close>

text \<open>The bytes of the operation whose send was submitted last.\<close>

definition test_sending :: "tester \<Rightarrow> 8 word list" where
  "test_sending t = (case ts_req (last (tt_flight t)) of
       Test_send fd a n \<Rightarrow> take (unat n) (co_buf (the (cells (tt_ops t) a)))
     | _ \<Rightarrow> [])"

lemma test_sending_request:
  assumes "test_ready env t" and "test_send_set_username env fd 1 jojo t = ret t1"
  shows "test_sending t1 = wire_set_username (1, jojo)"
  using started(3) [of env t jojo fd 1] assms by (auto simp: test_ready_def jojo_def test_sending_def with_op_def)

lemma test_sending_junk:
  assumes "test_ready env t" and "test_send_msg_wrong_len env fd t = ret t1"
  shows "test_sending t1 = take 11 (fit 2048 (co_buf (the (fresh (tt_ops t) (brk (tt_ops t))))))"
  using started(2) [of env t fd] assms by (auto simp: test_ready_def test_sending_def with_op_def raw_op_def)

text \<open>A test whose blocks hold \<open>mem\<close> before they are written and that receives \<open>bytes\<close>.\<close>

definition demo_test_env :: "8 word list \<Rightarrow> test_env" where
  "demo_test_env bytes = \<lparr>te_endian = BE, te_queue_init = (\<lambda>n. 0), te_sqe = (\<lambda>n. n < 256), te_submit = (\<lambda>qs. int (length qs)),
     te_wait = (\<lambda>k fl. Some (if k = 0 then test_sent 0 15 else test_got 1 bytes)), te_socket = 3, te_getfl = (\<lambda>fd. 2),
     te_setfl = (\<lambda>fd w. 0), te_o_nonblock = 2048, te_shutdown = (\<lambda>fd. 0), te_close = (\<lambda>fd. 0), te_pton = (\<lambda>ip. Some [127, 0, 0, 1])\<rparr>"

definition demo_tester :: "8 word list \<Rightarrow> tester" where
  "demo_tester mem = \<lparr>tt_ops = empty_heap \<lparr>co_type = OP_TYPE_SEND, co_buf_len = 0, co_buf = mem\<rparr>,
     tt_sq = [], tt_flight = [], tt_calls = 0, tt_out = []\<rparr>"

lemma demo_test_ready: "test_ready (demo_test_env bytes) (demo_tester mem)"
  by (simp add: test_ready_def demo_test_env_def demo_tester_def) (simp add: empty_heap_def)

lemma demo_exchange: "exchange (demo_test_env bytes) (demo_tester mem) 15 bytes"
  by (simp add: exchange_def hears_two demo_test_env_def demo_tester_def empty_heap_def)

section \<open>Properties\<close>

text \<open>
  C3. From the client's serialiser to the answer on the wire: a SET_USERNAME request that a client has
  serialised on a host of any byte order and that reaches the server in one receive makes the server exit, or store the
  name if it is valid, keep the connection, and prepare exactly two entries: one send, of the answer, and the
  next receive. However small the pieces are that the kernel then sends of it, the bytes sent are in the end exactly this
  answer, in which a host of any byte order reads the seqid of the request, and SET_USERNAME_RESPONSE if the
  name has 3 to 15 letters and digits and SERVER_ERROR otherwise; the ring then holds what it held before and the
  next receive, so that nothing else is sent.
\<close>

theorem request_served:
  assumes "srv_inv s" and "waiting s q a" and "sqe_req q = Recv fd b 0 2048" and "client_of s a = ret (Some i)"
    and "ser_set_username e cap buf seqid (of_nat (length name)) name = ret (n, msg)"
    and "length name \<le> 2037" and "11 + length name \<le> unat cap" and "unat cap \<le> length buf"
    and "cqe_data c = sqe_data q" and "cqe_res c = int (unat n)" and "cqe_bytes c = take (unat n) msg"
  shows "spec (bindC (take_cqes env [c] s) (submit env)) is_exit (\<lambda>s1. srv_inv s1 \<and> sv_closed s1 = sv_closed s \<and>
    username_of s1 i = store_name (seqid, name) (username_of s i) \<and> sv_sq s1 = [] \<and>
    (\<exists>q' x. sv_flight s1 = remove1 q (sv_flight s) @ sv_sq s @ [q', \<lparr>sqe_data = sqe_data q, sqe_req = Recv fd b 0 2048\<rparr>] \<and> waiting s1 q' x \<and> client_of s1 x = ret (Some i) \<and>
      (\<forall>ns. sum_list ns = (if name_ok (of_nat (11 + length name)) name then 11 else 12) \<and> 0 \<notin> set ns \<longrightarrow>
        spec (foldC (server_step env) (send_events (sqe_data q') ns) s1) is_exit (\<lambda>s2. srv_inv s2 \<and> x \<notin> busy s2 \<and>
          sv_closed s2 = sv_closed s \<and> pend s2 = remove1 q (sv_flight s) @ sv_sq s @ [\<lparr>sqe_data = sqe_data q, sqe_req = Recv fd b 0 2048\<rparr>] \<and>
          deser_header e' (sent_bytes env (send_events (sqe_data q') ns) s1) = ret (if name_ok (of_nat (11 + length name)) name
            then \<lparr>hd_len = 11, hd_msgt = msgt_val MSGT_SET_USERNAME_RESPONSE, hd_seqid = seqid\<rparr>
            else \<lparr>hd_len = 12, hd_msgt = msgt_val MSGT_SERVER_ERROR, hd_seqid = seqid\<rparr>) \<and>
          sent_bytes env (send_events (sqe_data q') ns) s1 = answer_of (seqid, name)))))"
    (is "spec _ _ (\<lambda>s1. _ \<and> _ \<and> _ \<and> _ \<and> (\<exists>q' x. _ \<and> _ \<and> _ \<and> (\<forall>ns. ?pieces ns \<longrightarrow> ?sent s1 q' x ns)))")
proof -
  let ?m = "(seqid, name)" and ?len = "length (answer_of (seqid, name))"
  note req = serialised_request [OF assms(5-8)]
  have c: "cqe_bytes c = wire_set_username ?m" "cqe_res c = int (length (cqe_bytes c))" "length (cqe_bytes c) \<le> 2048"
    using req assms(6,10,11) by simp_all
  have sent: "?sent s1 q' x ns" if s1: "srv_inv s1" "sv_closed s1 = sv_closed s" "waiting s1 q' x" "client_of s1 x = ret (Some i)"
      "sqe_req q' = Send fd b' 0 (of_nat ?len)" "take ?len (bytes_of s1 b') = answer_of ?m" and ns: "?pieces ns" and sq: "sv_sq s1 = []"
      and fl: "sv_flight s1 = remove1 q (sv_flight s) @ sv_sq s @ [q', \<lparr>sqe_data = sqe_data q, sqe_req = Recv fd b 0 2048\<rparr>]" for s1 q' x b' ns
  proof -
    have "distinct (sv_flight s1)" using srv_inv_ring(1) [OF s1(1)] by (simp add: pend_def distinct_map)
    then have "remove1 q' (sv_flight s1) = remove1 q (sv_flight s) @ sv_sq s @ [\<lparr>sqe_data = sqe_data q, sqe_req = Recv fd b 0 2048\<rparr>]" unfolding fl by (auto simp: remove1_append)
    then show ?thesis
      by (intro spec_conseq [OF answer_to_end [OF s1(1,3,5,4,6), of ns env]])
        (use ns sq s1(2) answer_header [of e' seqid name "[]"] in \<open>auto simp: length_answer\<close>)
  qed
  show ?thesis
    by (rule spec_conseq [OF recv_answer_waits [OF assms(1-4,9) c(2,3,1)]]) (use sent in blast)+
qed

theorem request_served_witness:
  "spec (bindC (take_cqes demo_env [demo_hello] demo_conn) (submit demo_env)) is_exit (\<lambda>s1. \<exists>q' x. waiting s1 q' x \<and>
     spec (foldC (server_step demo_env) (send_events (sqe_data q') [4, 7]) s1) is_exit (\<lambda>s2. x \<notin> busy s2 \<and>
       deser_header BE (sent_bytes demo_env (send_events (sqe_data q') [4, 7]) s1) =
         ret \<lparr>hd_len = 11, hd_msgt = msgt_val MSGT_SET_USERNAME_RESPONSE, hd_seqid = 1\<rparr>))"
proof -
  let ?bob = "[98, 111, 98] :: 8 word list"
  have ok: "name_ok 14 ?bob" by (simp add: name_ok_def isalnum_def)
  have ser: "ser_set_username LE 64 (replicate 64 0) 1 (of_nat (length ?bob)) ?bob =
      ret (14, wire_set_username (1, ?bob) @ drop 14 (replicate 64 0))"
    using ser_set_username_wire [of ?bob 64 "replicate 64 0" LE 1] by simp
  show ?thesis
    by (rule spec_conseq [OF request_served [OF demo_inv demo_waiting demo_recv_req demo_client ser, of demo_hello demo_env BE]])
      (use ok in \<open>auto simp: demo_hello_def demo_got_def demo_recv_def dest!: spec [where x = "[4, 7]"] elim!: spec_conseq\<close>)
qed

text \<open>
  C12. A header alone decides: when 11 bytes arrive, whatever they are, the server exits, or closes the connection and
  forgets the client if the length in them is over 2048 or is at most 11 and the type is not SET_USERNAME,
  or waits for the rest behind the header if the length is 12 to 2048, or, for a SET_USERNAME of length 1 to
  11, prepares a SERVER_ERROR with the code for a wrong length and keeps the bytes beyond that length. A SET_USERNAME
  of length 0 is never handled to its end.
\<close>

theorem header_alone_decides:
  assumes "env_ok N env" and "srv_inv s" and "waiting s q a" and "sqe_req q = Recv fd b 0 2048" and "client_of s a = ret (Some i)"
    and "cqe_data c = sqe_data q" and "cqe_res c = 11" and "cqe_bytes c = raw_header len msgt seqid"
  shows "spec (take_cqes env [c] s) is_exit (\<lambda>s'. srv_inv s' \<and>
    (if 2048 < unat len \<or> unat len \<le> 11 \<and> msgt \<noteq> msgt_val MSGT_SET_USERNAME
     then sv_closed s' = sv_closed s @ [fd] \<and> sv_sq s' = sv_sq s \<and>
       client_map_get (sv_clients s') (sv_infos s') (op_client_id (op_at s a)) = ret None
     else sv_closed s' = sv_closed s \<and> 0 < unat len \<and>
       (if 11 < unat len then sv_sq s' = sv_sq s @ [\<lparr>sqe_data = sqe_data q, sqe_req = Recv fd b 11 2037\<rparr>]
        else \<exists>q'. sv_sq s' = sv_sq s @ [q', \<lparr>sqe_data = sqe_data q, sqe_req = Recv fd b (11 - unat len) (of_nat (2037 + unat len))\<rparr>] \<and>
          carries s' fd (op_client_id (op_at s a)) q' (wire_server_error (seqid, code_val CODE_INVALID_MSG_LEN)))))"
  using assms by (rule header_alone_event)

theorem header_alone_decides_witness:
  "spec (take_cqes demo_env [demo_got (raw_header 4096 1 9)] demo_conn) is_exit (\<lambda>s'. sv_closed s' = [7])"
  by (rule spec_conseq [OF header_alone_decides [OF demo_env_ok demo_inv demo_waiting demo_recv_req demo_client,
        of "demo_got (raw_header 4096 1 9)" 4096 1 9]]) (simp_all add: demo_got_def demo_recv_def demo_conn_op)

text \<open>
  C20. The first test passes: whatever the byte orders of the two hosts, when the server receives the bytes that
  \<open>set_username\<close> of test_protocol.c sends, it exits, or its answer, sent in pieces of any sizes and
  delivered to the test in one receive, before or after the completion of the test's send, satisfies both
  assertions; the test then ends with its two operations freed.
\<close>

theorem set_username_test_served:
  assumes "srv_inv s" and "waiting s q a" and "sqe_req q = Recv fd b 0 2048" and "client_of s a = ret (Some i)"
    and "test_ready tenv t" and "test_send_set_username tenv tfd 1 jojo t = ret t1"
    and "cqe_data c = sqe_data q" and "cqe_res c = 15" and "cqe_bytes c = test_sending t1"
  shows "spec (bindC (take_cqes env [c] s) (submit env)) is_exit (\<lambda>s1.
    \<exists>q' x. waiting s1 q' x \<and> client_of s1 x = ret (Some i) \<and>
      (\<forall>ns. sum_list ns = 11 \<and> 0 \<notin> set ns \<longrightarrow>
        spec (foldC (server_step env) (send_events (sqe_data q') ns) s1) is_exit (\<lambda>s2. srv_inv s2 \<and>
          (exchange tenv t 15 (sent_bytes env (send_events (sqe_data q') ns) s1) \<longrightarrow>
            (\<exists>t'. test_set_username tenv tfd t = ret t' \<and> cells (tt_ops t') = cells (tt_ops t) \<and>
              set (tt_out t') = set (tt_out t) \<union> {Said ''sent set_username.'', Said_header 2 11})))))"
proof -
  have m: "cqe_bytes c = wire_set_username (1, jojo)" using test_sending_request [OF assms(5,6)] assms(9) by simp
  then have c: "cqe_res c = int (length (cqe_bytes c))" "length (cqe_bytes c) \<le> 2048" using assms(8) by (simp_all add: jojo_def)
  have "name_ok 15 jojo" by (simp add: name_ok_def jojo_def isalnum_def)
  then have ans: "answer_of (1, jojo) = wire_header 11 MSGT_SET_USERNAME_RESPONSE 1"
    by (simp add: answer_of_def answer_def name_ok_def jojo_def)
  have passes: "\<exists>t'. test_set_username tenv tfd t = ret t' \<and> cells (tt_ops t') = cells (tt_ops t) \<and>
      set (tt_out t') = set (tt_out t) \<union> {Said ''sent set_username.'', Said_header 2 11}" if "exchange tenv t 15 (answer_of (1, jojo))"
    using test_set_username_outcome [OF assms(5) that, of tfd] unfolding ans by (auto simp: wire_header_def nth_append)
  have sent: "spec (foldC (server_step env) (send_events (sqe_data q') ns) s1) is_exit (\<lambda>s2. srv_inv s2 \<and>
      (exchange tenv t 15 (sent_bytes env (send_events (sqe_data q') ns) s1) \<longrightarrow>
        (\<exists>t'. test_set_username tenv tfd t = ret t' \<and> cells (tt_ops t') = cells (tt_ops t) \<and>
          set (tt_out t') = set (tt_out t) \<union> {Said ''sent set_username.'', Said_header 2 11})))"
    if s1: "srv_inv s1" "waiting s1 q' x" "client_of s1 x = ret (Some i)" "sqe_req q' = Send fd b' 0 (of_nat (length (answer_of (1, jojo))))"
      "take (length (answer_of (1, jojo))) (bytes_of s1 b') = answer_of (1, jojo)" and ns: "sum_list ns = 11 \<and> 0 \<notin> set ns" for s1 q' x b' ns
    by (rule spec_conseq [OF answer_to_end [OF s1(1,2,4,3,5), of ns env]]) (use ns ans passes in auto)
  show ?thesis
    by (rule spec_conseq [OF recv_answer_waits [OF assms(1-4,7) c m]]) (use sent in blast)+
qed

theorem set_username_test_served_witness:
  "\<exists>t1. test_send_set_username (demo_test_env (wire_header 11 MSGT_SET_USERNAME_RESPONSE 1)) 3 1 jojo (demo_tester []) = ret t1 \<and>
   spec (bindC (take_cqes demo_env [demo_got (test_sending t1)] demo_conn) (submit demo_env)) is_exit (\<lambda>s1. \<exists>q' x. waiting s1 q' x \<and>
     spec (foldC (server_step demo_env) (send_events (sqe_data q') [5, 6]) s1) is_exit (\<lambda>s2.
       exchange (demo_test_env (wire_header 11 MSGT_SET_USERNAME_RESPONSE 1)) (demo_tester []) 15 (wire_header 11 MSGT_SET_USERNAME_RESPONSE 1) \<and>
       (exchange (demo_test_env (wire_header 11 MSGT_SET_USERNAME_RESPONSE 1)) (demo_tester []) 15
          (sent_bytes demo_env (send_events (sqe_data q') [5, 6]) s1) \<longrightarrow>
        (\<exists>t'. test_set_username (demo_test_env (wire_header 11 MSGT_SET_USERNAME_RESPONSE 1)) 3 (demo_tester []) = ret t'))))"
proof -
  let ?env = "demo_test_env (wire_header 11 MSGT_SET_USERNAME_RESPONSE 1)" and ?t = "demo_tester []"
  obtain t1 where t1: "test_send_set_username ?env 3 1 jojo ?t = ret t1"
    using started(3) [of ?env ?t jojo 3 1] demo_test_ready [of _ "[]"] by (auto simp: test_ready_def jojo_def)
  have "test_sending t1 = wire_set_username (1, jojo)" by (rule test_sending_request [OF demo_test_ready t1])
  then have c: "cqe_res (demo_got (test_sending t1)) = 15" by (simp add: demo_got_def jojo_def)
  have ex: "exchange ?env ?t 15 (wire_header 11 MSGT_SET_USERNAME_RESPONSE 1)" by (rule demo_exchange)
  have "spec (bindC (take_cqes demo_env [demo_got (test_sending t1)] demo_conn) (submit demo_env)) is_exit (\<lambda>s1. \<exists>q' x. waiting s1 q' x \<and>
     spec (foldC (server_step demo_env) (send_events (sqe_data q') [5, 6]) s1) is_exit (\<lambda>s2.
       exchange ?env ?t 15 (wire_header 11 MSGT_SET_USERNAME_RESPONSE 1) \<and>
       (exchange ?env ?t 15 (sent_bytes demo_env (send_events (sqe_data q') [5, 6]) s1) \<longrightarrow> (\<exists>t'. test_set_username ?env 3 ?t = ret t'))))"
    by (rule spec_conseq [OF set_username_test_served [OF demo_inv demo_waiting demo_recv_req demo_client demo_test_ready t1 _ c, of demo_env]])
      (use ex in \<open>auto simp: demo_got_def demo_recv_def dest!: spec [where x = "[5, 6]"] elim!: spec_conseq\<close>)
  then show ?thesis using t1 by blast
qed

text \<open>
  C21. The second test depends on what malloc leaves behind: \<open>wrong_message_len_disconnect\<close> sends the
  first 11 bytes of a block that was never written, and passes exactly if its receive delivers nothing. The
  server, if it does not exit, closes the connection exactly if these bytes happen to hold a length over 2048, or
  a length of at most 11 and a type other than SET_USERNAME. If the block is the one that held the request of the first test,
  the connection stays open and nothing is sent.
\<close>

theorem wrong_len_test_served:
  assumes "env_ok N env" and "srv_inv s" and "waiting s q a" and "sqe_req q = Recv fd b 0 2048" and "client_of s a = ret (Some i)"
    and "test_ready tenv t" and "test_send_msg_wrong_len tenv tfd t = ret t1"
    and "cqe_data c = sqe_data q" and "cqe_res c = 11" and "cqe_bytes c = test_sending t1"
  shows "let junk = take 11 (fit 2048 (co_buf (the (fresh (tt_ops t) (brk (tt_ops t)))))); len = unat (be_word (take 2 junk) :: 16 word) in
    cqe_bytes c = junk \<and>
    (\<forall>n bytes. exchange tenv t n bytes \<and> length bytes \<le> 2048 \<longrightarrow>
      ((\<exists>t'. test_wrong_message_len_disconnect tenv tfd t = ret t') \<longleftrightarrow> bytes = [])) \<and>
    spec (take_cqes env [c] s) is_exit (\<lambda>s'. srv_inv s' \<and>
      (sv_closed s' = sv_closed s @ [fd] \<longleftrightarrow> 2048 < len \<or> len \<le> 11 \<and> junk ! 2 \<noteq> msgt_val MSGT_SET_USERNAME) \<and>
      (junk = take 11 (wire_set_username (1, jojo)) \<longrightarrow>
        sv_closed s' = sv_closed s \<and> sv_sq s' = sv_sq s @ [\<lparr>sqe_data = sqe_data q, sqe_req = Recv fd b 11 2037\<rparr>]))"
proof -
  define junk where "junk = take 11 (fit 2048 (co_buf (the (fresh (tt_ops t) (brk (tt_ops t))))))"
  have j: "cqe_bytes c = junk" using test_sending_junk [OF assms(6,7)] assms(10) by (simp add: junk_def)
  have "length junk = 11" by (simp add: junk_def)
  then have raw: "cqe_bytes c = raw_header (be_word (take 2 junk)) (junk ! 2) (be_word (take 8 (drop 3 junk)))"
    unfolding j by (rule raw_header_cover)
  have stale: "unat (be_word (take 2 junk) :: 16 word) = 15" if "junk = take 11 (wire_set_username (1, jojo))"
    unfolding that by (simp add: wire_set_username_def wire_header_def jojo_def)
  have "(\<exists>t'. test_wrong_message_len_disconnect tenv tfd t = ret t') \<longleftrightarrow> bytes = []"
    if "exchange tenv t n bytes" "length bytes \<le> 2048" for n bytes
    using test_wrong_len_outcome [OF assms(6) that, of tfd] by (auto split: if_splits)
  moreover have "spec (take_cqes env [c] s) is_exit (\<lambda>s'. srv_inv s' \<and>
      (sv_closed s' = sv_closed s @ [fd] \<longleftrightarrow> 2048 < unat (be_word (take 2 junk) :: 16 word) \<or>
         unat (be_word (take 2 junk) :: 16 word) \<le> 11 \<and> junk ! 2 \<noteq> msgt_val MSGT_SET_USERNAME) \<and>
      (junk = take 11 (wire_set_username (1, jojo)) \<longrightarrow>
        sv_closed s' = sv_closed s \<and> sv_sq s' = sv_sq s @ [\<lparr>sqe_data = sqe_data q, sqe_req = Recv fd b 11 2037\<rparr>]))"
    by (rule spec_conseq [OF header_alone_event [OF assms(1-5,8,9) raw]]) (use stale in \<open>auto split: if_splits\<close>)
  ultimately show ?thesis using j unfolding Let_def junk_def by blast
qed

theorem wrong_len_test_served_witness:
  "\<exists>t1. test_send_msg_wrong_len (demo_test_env []) 3 (demo_tester (wire_set_username (1, jojo))) = ret t1 \<and>
   spec (take_cqes demo_env [demo_got (test_sending t1)] demo_conn) is_exit (\<lambda>s'. sv_closed s' = [])"
proof -
  let ?env = "demo_test_env []" and ?t = "demo_tester (wire_set_username (1, jojo))"
  obtain t1 where t1: "test_send_msg_wrong_len ?env 3 ?t = ret t1"
    using started(2) [of ?env ?t 3] demo_test_ready [of "[]" "wire_set_username (1, jojo)"] by (auto simp: test_ready_def)
  note sending = test_sending_junk [OF demo_test_ready t1]
  have junk: "take 11 (fit 2048 (co_buf (the (fresh (tt_ops ?t) (brk (tt_ops ?t)))))) = take 11 (wire_set_username (1, jojo))"
    by (simp add: demo_tester_def empty_heap_def fit_def jojo_def)
  have c: "cqe_res (demo_got (test_sending t1)) = 11" unfolding sending junk by (simp add: demo_got_def jojo_def)
  have "spec (take_cqes demo_env [demo_got (test_sending t1)] demo_conn) is_exit (\<lambda>s'. sv_closed s' = [])"
    using wrong_len_test_served [OF demo_env_ok demo_inv demo_waiting demo_recv_req demo_client demo_test_ready t1 _ c] junk
    by (auto simp: Let_def demo_got_def demo_recv_def demo_conn_op elim!: spec_conseq)
  then show ?thesis using t1 by blast
qed

end
