(* ===== verification/Server_Isolation.thy ===== *)
theory Server_Isolation
  imports Server_Steps Server_Events
begin

text \<open>
  Clients do not touch each other: the completions of a client's operations, with whatever bytes it sends, change
  neither the entry of another client in the map nor the data of its ClientInfo.
\<close>

section \<open>Single steps\<close>

text \<open>The event is the completion of an operation of the client \<open>j\<close>.\<close>

fun concerns :: "64 word \<Rightarrow> event \<Rightarrow> server \<Rightarrow> bool" where
  "concerns j (Completion c) s = (case op_pool_get (sv_pool s) (cqe_data c) of
     Some (Inr (Some a)) \<Rightarrow> op_client_id (op_at s a) = j | _ \<Rightarrow> False)"
| "concerns j Submission s = False"

text \<open>The client \<open>j\<close> is in the map with the ClientInfo \<open>i\<close>, whose data are \<open>p\<close>.\<close>

definition known_as :: "server \<Rightarrow> 64 word \<Rightarrow> nat \<Rightarrow> client_info option \<Rightarrow> bool" where
  "known_as s j i p \<longleftrightarrow> client_map_get (sv_clients s) (sv_infos s) j = ret (Some i) \<and> profile (sv_infos s) i = p"

lemma completion_isolated:
  assumes env: "env_ok N env" and inv: "srv_inv s" and legal: "legal_cqe (sv_flight s) c" and room: "sv_next_client_id s \<noteq> - 1"
    and other: "\<not> concerns j (Completion c) s" and j: "known_as s j i p"
  shows "spec (take_cqes env [c] s) stop_ok (\<lambda>s'. srv_inv s' \<and> known_as s' j i p)"
proof -
  obtain q m as a s1 where q: "find (\<lambda>q. sqe_data q = cqe_data c) (sv_flight s) = Some q" and s1: "deliver c s = ret s1"
    "cur m as a s1" "listening s1" "cqe_data c = op_pool_id (op_at s1 a)"
    "request_ok (sv_server_fd s1) m (op_at s1 a) (sqe_req q)"
    "sv_flight s1 = remove1 q (sv_flight s)" "sv_next_client_id s1 = sv_next_client_id s"
    "op_at s1 = op_at s" "peers m (op_client_id (op_at s a)) s s1" "\<And>j. client_map_get (sv_clients s) (sv_infos s) j = ret (m j)" "busy s1 = busy s"
    by (rule deliver_ok [OF inv legal]) blast
  have "cqe_res c < 0 \<or> (case sqe_req q of Accept fd i \<Rightarrow> True | Recv fd b off len \<Rightarrow> nat (cqe_res c) \<le> unat len
      | Send fd b off len \<Rightarrow> nat (cqe_res c) \<le> unat len)"
    using legal q by (auto simp: legal_cqe_def split: request.splits)
  from handle_cqe_cur [OF env s1(2-5) this] room s1(7) have h: "spec (handle_cqe env c s1) stop_ok (served m a s1)" by simp
  have "op_pool_get (sv_pool s) (cqe_data c) = ret (Some a)" using busy_waits(1) [OF inv, of a] s1(2,4,8,11) by (auto simp: cur_def)
  then have k: "j \<noteq> op_client_id (op_at s a)" using other by simp
  have mj: "m j = Some i" using j s1(10) by (simp add: known_as_def)
  have "known_as s' j i p" if "served m a s1 s'" for s'
    using that k mj j s1(8,9) by (simp add: served_def peers_def known_as_def)
  then show ?thesis using h s1(1) by (auto simp: take_cqes_def handle_cqe_batch_def served_def moved_def elim!: spec_conseq)
qed

section \<open>Runs\<close>

interpretation client_stays: guarded_machine "server_step env" "\<lambda>e s. event_legal e s \<and> \<not> concerns j e s"
  "\<lambda>s. (\<exists>N. env_ok N env) \<and> srv_inv s \<and> known_as s j i p" stop_ok
  for env :: env and j :: "64 word" and i :: nat and p :: "client_info option"
proof unfold_locales
  fix s e assume inv: "(\<exists>N. env_ok N env) \<and> srv_inv s \<and> known_as s j i p" and legal: "event_legal e s \<and> \<not> concerns j e s"
  show "spec (server_step env e s) stop_ok (\<lambda>s. (\<exists>N. env_ok N env) \<and> srv_inv s \<and> known_as s j i p)"
  proof (cases e)
    case (Completion c)
    from inv obtain N where N: "env_ok N env" by blast
    have "spec (take_cqes env [c] s) stop_ok (\<lambda>s'. srv_inv s' \<and> known_as s' j i p)"
      by (rule completion_isolated [OF N]) (use inv legal Completion in \<open>simp_all del: concerns.simps\<close>)
    then show ?thesis using N Completion by (auto elim: spec_conseq)
  next
    case Submission
    have "spec (submit env s) stop_ok (\<lambda>s'. s' = s\<lparr>sv_flight := sv_flight s @ sv_sq s, sv_sq := []\<rparr> \<and> srv_inv s')"
      using submit_ok [of s env] inv by (intro spec_stop) (auto simp: submit_def)
    then show ?thesis using inv Submission by (auto simp: known_as_def elim!: spec_conseq)
  qed
qed

section \<open>Properties\<close>

text \<open>
  C4. Clients are isolated: whatever the other clients send, in whatever order their operations complete and
  entries are submitted, new clients connect and others leave, as long as no completion is one of the
  client's own operations, the client stays in the map with the same ClientInfo, and its id, descriptor, address and name are
  unchanged; and the next event of another client that can occur is handled with the same result.
\<close>

theorem client_isolated:
  assumes "env_ok N env" and "srv_inv s" and "client_map_get (sv_clients s) (sv_infos s) j = ret (Some i)"
    and "runs (server_step env) (\<lambda>e s. event_legal e s \<and> \<not> concerns j e s) s es s'"
  shows "client_map_get (sv_clients s') (sv_infos s') j = ret (Some i) \<and> profile (sv_infos s') i = profile (sv_infos s) i \<and>
    (\<forall>e. event_legal e s' \<and> \<not> concerns j e s' \<longrightarrow> spec (server_step env e s') stop_ok (\<lambda>s2.
      client_map_get (sv_clients s2) (sv_infos s2) j = ret (Some i) \<and> profile (sv_infos s2) i = profile (sv_infos s) i))"
proof -
  have s: "(\<exists>N. env_ok N env) \<and> srv_inv s \<and> known_as s j i (profile (sv_infos s) i)" using assms(1-3) by (auto simp: known_as_def)
  have "spec (server_step env e s') stop_ok (\<lambda>s2. client_map_get (sv_clients s2) (sv_infos s2) j = ret (Some i) \<and>
      profile (sv_infos s2) i = profile (sv_infos s) i)" if "event_legal e s' \<and> \<not> concerns j e s'" for e
    by (rule spec_conseq [OF client_stays.runs_next [OF assms(4) s that]]) (simp_all add: known_as_def)
  then show ?thesis using client_stays.runs_inv [OF assms(4) s] by (simp add: known_as_def)
qed

lemma round_runs:
  assumes "server_round env (Waited c, Peek_again) s = ret s'" and "legal (Completion c) s" and "\<And>s. legal Submission s"
  shows "runs (server_step env) legal s [Completion c, Submission] s'"
  using assms by (auto simp: server_round_def bindC_eq_ret_iff intro!: runs.intros)

lemma demo_concerns:
  "event_legal (Completion demo_hello) demo_conn" "\<not> concerns 2 (Completion demo_hello) demo_conn"
  "event_legal (Completion (demo_got [])) demo_ans" "\<not> concerns 2 (Completion (demo_got [])) demo_ans"
  by (simp_all add: legal_cqe_def op_at_def demo_got_def demo_ans_def demo_hello_bytes eval_defs)

theorem client_isolated_witness:
  "client_map_get (sv_clients demo_gone) (sv_infos demo_gone) 2 = ret (Some 1) \<and>
   profile (sv_infos demo_gone) 1 = profile (sv_infos demo_conn) 1"
proof -
  have "runs (server_step demo_env) (\<lambda>e s. event_legal e s \<and> \<not> concerns 2 e s) demo_conn
      [Completion demo_hello, Submission, Completion (demo_got []), Submission] demo_gone"
    using runs_append [OF round_runs [OF demo_ans] round_runs [OF demo_gone], of "\<lambda>e s. event_legal e s \<and> \<not> concerns 2 e s"]
      demo_concerns by simp
  from client_isolated [OF demo_env_ok demo_inv demo_conn_map this] show ?thesis by blast
qed

end
