(* ===== verification/Load_Client.thy ===== *)
theory Load_Client
  imports Slab Parse_Int
begin

text \<open>
  client.c: a load generator of its own that connects to a server, sends numbered ints and counts
  what comes back, five times over. Its buffers are blocks of a heap of byte lists, because the ring
  and the user data of its entries keep pointers into them after they are freed: a pointer is a block
  and an offset.

  liburing and the system calls are the parameter \<open>client_env\<close>. What \<open>io_uring_wait_cqe\<close> and
  \<open>io_uring_peek_batch_cqe\<close> deliver may depend on the entries in flight and on the number of calls so far.
\<close>

section \<open>Definitions\<close>

definition CLIENT_QUEUE_SIZE :: nat where
  "CLIENT_QUEUE_SIZE = 256"

definition NUM_MSG :: int where
  "NUM_MSG = 1000"

definition CLIENT_BATCH_SIZE :: nat where
  "CLIENT_BATCH_SIZE = 10"

definition MAX_NUM_MSG :: int where
  "MAX_NUM_MSG = 10000000"

text \<open>
  The requests: descriptor, block and offset of the four bytes of data; a connect has the peer's address.
  \<open>cs_skip\<close> is the flag \<open>IOSQE_CQE_SKIP_SUCCESS\<close>: a success has no completion, and the model keeps
  such an entry among those in flight.
\<close>

datatype client_request =
    Connect_to int "8 word list"
  | Send_int int nat nat
  | Recv_int int nat nat

record client_sqe =
  cs_data :: "(nat \<times> nat) option"
  cs_skip :: bool
  cs_req :: client_request

record client_cqe =
  cc_data :: "(nat \<times> nat) option"
  cc_res :: int
  cc_bytes :: "8 word list"

datatype client_peek = CPeek_again | CPeek_error | CPeeked "client_cqe list"

record client_env =
  ce_endian :: endian
  ce_queue_init :: "nat \<Rightarrow> int"
  ce_sqe :: "nat \<Rightarrow> bool"
  ce_submit :: "client_sqe list \<Rightarrow> int"
  ce_wait :: "nat \<Rightarrow> client_sqe list \<Rightarrow> client_cqe option"
  ce_peek :: "nat \<Rightarrow> client_sqe list \<Rightarrow> client_peek"
  ce_socket :: "nat \<Rightarrow> int"
  ce_getfl :: "int \<Rightarrow> 32 word"
  ce_setfl :: "int \<Rightarrow> 32 word \<Rightarrow> int"
  ce_o_nonblock :: "32 word"
  ce_pton :: "string \<Rightarrow> 8 word list option"

text \<open>
  The state: the memory, the entries prepared and in flight, all entries ever submitted, the numbers
  of calls so far, the closed descriptors, the ints printed.
\<close>

record client =
  cl_mem :: "8 word list heap"
  cl_sq :: "client_sqe list"
  cl_flight :: "client_sqe list"
  cl_submitted :: "client_sqe list"
  cl_calls :: nat
  cl_sockets :: nat
  cl_closed :: "int list"
  cl_out :: "32 word list"

definition client_set_nonblocking :: "client_env \<Rightarrow> int \<Rightarrow> unit comp" where
  "client_set_nonblocking env fd =
     (let flags = ce_getfl env fd in
      if flags = - 1 then fail (Exit_failure ''fcntl(F_GETFL)'')
      else if ce_setfl env fd (flags OR ce_o_nonblock env) = - 1 then fail (Exit_failure ''fcntl(F_SETFL)'')
      else ret ())"

subsection \<open>The ring\<close>

definition client_get_sqe :: "client_env \<Rightarrow> client \<Rightarrow> unit comp" where
  "client_get_sqe env s = (if ce_sqe env (length (cl_sq s)) then ret () else fail (Exit_failure ''SQ is full''))"

definition client_push :: "(nat \<times> nat) option \<Rightarrow> bool \<Rightarrow> client_request \<Rightarrow> client \<Rightarrow> client" where
  "client_push data skip rq s = s\<lparr>cl_sq := cl_sq s @ [\<lparr>cs_data = data, cs_skip = skip, cs_req = rq\<rparr>]\<rparr>"

definition client_submit :: "client_env \<Rightarrow> client \<Rightarrow> client comp" where
  "client_submit env s = (if ce_submit env (cl_sq s) < 0 then fail (Exit_failure ''io_uring_submit'')
     else ret (s\<lparr>cl_flight := cl_flight s @ cl_sq s, cl_submitted := cl_submitted s @ cl_sq s, cl_sq := []\<rparr>))"

text \<open>
  The kernel's part of a completion: the entry leaves the ring, received bytes are in the buffer. When the kernel reads
  the buffer of a send is not an event of the model, only which sends are in flight is.
\<close>

definition client_deliver :: "client_cqe \<Rightarrow> client \<Rightarrow> client comp" where
  "client_deliver c s = (case find (\<lambda>q. cs_data q = cc_data c) (cl_flight s) of
       None \<Rightarrow> ret s
     | Some q \<Rightarrow>
         let s = s\<lparr>cl_flight := remove1 q (cl_flight s)\<rparr> in
         (case cs_req q of
            Recv_int fd b off \<Rightarrow>
              if cc_res c < 0 then ret s
              else bindC (hget (cl_mem s) b) (\<lambda>bytes. bindC (bwrite bytes off (cc_bytes c)) (\<lambda>bytes.
                bindC (hput (cl_mem s) b bytes) (\<lambda>h. ret (s\<lparr>cl_mem := h\<rparr>))))
          | _ \<Rightarrow> ret s))"

definition connect_server :: "client_env \<Rightarrow> 8 word list \<Rightarrow> int \<Rightarrow> client \<Rightarrow> client comp" where
  "connect_server env server_addr client_fd s =
     bindC (client_get_sqe env s) (\<lambda>_.
     bindC (client_submit env (client_push None False (Connect_to client_fd server_addr) s)) (\<lambda>s.
     case ce_wait env (cl_calls s) (cl_flight s) of
       None \<Rightarrow> fail (Exit_failure ''io_uring_wait_cqe'')
     | Some cqe \<Rightarrow>
         bindC (client_deliver cqe (s\<lparr>cl_calls := Suc (cl_calls s)\<rparr>)) (\<lambda>s.
         if cc_res cqe < 0 then fail (Exit_failure ''connect'') else ret s)))"

subsection \<open>One run\<close>

text \<open>
  One turn of the two loops that prepare entries: the slot \<open>i\<close> of a buffer is its type, as an int of
  the host, and four bytes of data.
\<close>

definition client_send :: "client_env \<Rightarrow> nat \<Rightarrow> int \<Rightarrow> nat \<Rightarrow> client \<Rightarrow> client comp" where
  "client_send env send_buf client_fd i s =
     (let op_type_buf = i * 4 * 2; op_data_buf = op_type_buf + 4 in
      bindC (hget (cl_mem s) send_buf) (\<lambda>bytes.
      bindC (bwrite bytes op_type_buf (mem_bytes (ce_endian env) 4 (1 :: 32 word))) (\<lambda>bytes.
      bindC (write_int_to_buffer (ce_endian env) (drop op_data_buf bytes) (of_nat i)) (\<lambda>tail.
      bindC (hput (cl_mem s) send_buf (take op_data_buf bytes @ tail)) (\<lambda>h.
      let s = s\<lparr>cl_mem := h\<rparr> in
      bindC (client_get_sqe env s) (\<lambda>_.
      ret (client_push (Some (send_buf, op_type_buf)) True (Send_int client_fd send_buf op_data_buf) s)))))))"

definition client_recv :: "client_env \<Rightarrow> nat \<Rightarrow> int \<Rightarrow> nat \<Rightarrow> client \<Rightarrow> client comp" where
  "client_recv env recv_buf client_fd i s =
     (let op_type_buf = i * 4 * 2; op_data_buf = op_type_buf + 4 in
      bindC (hget (cl_mem s) recv_buf) (\<lambda>bytes.
      bindC (bwrite bytes op_type_buf (mem_bytes (ce_endian env) 4 (2 :: 32 word))) (\<lambda>bytes.
      bindC (hput (cl_mem s) recv_buf bytes) (\<lambda>h.
      let s = s\<lparr>cl_mem := h\<rparr> in
      bindC (client_get_sqe env s) (\<lambda>_.
      ret (client_push (Some (recv_buf, op_type_buf)) False (Recv_int client_fd recv_buf op_data_buf) s))))))"

text \<open>
  One turn of the loop over the delivered completions; the number is \<open>num_ack\<close>. \<open>client_count\<close> is the
  part that looks at the slot the user data points to.
\<close>

definition client_count :: "client_env \<Rightarrow> (nat \<times> nat) option \<Rightarrow> nat \<Rightarrow> client \<Rightarrow> (nat \<times> client) comp" where
  "client_count env buf num_ack s =
     bindC (ptr buf) (\<lambda>(b, off).
     bindC (hget (cl_mem s) b) (\<lambda>bytes.
     bindC (bread bytes off 4) (\<lambda>t.
     let op_type = mem_word (ce_endian env) t :: 32 word in
     if op_type = 1 then ret (num_ack, s)
     else if op_type = 2
     then bindC (read_int_from_buffer (ce_endian env) (drop (off + 4) bytes)) (\<lambda>v.
       ret (Suc num_ack, s\<lparr>cl_out := cl_out s @ [v]\<rparr>))
     else ret (num_ack, s))))"

definition client_ack :: "client_env \<Rightarrow> client_cqe \<Rightarrow> nat \<times> client \<Rightarrow> (nat \<times> client) comp" where
  "client_ack env cqe = (\<lambda>(num_ack, s).
     bindC (client_deliver cqe s) (\<lambda>s.
     if cc_res cqe < 0 then ret (num_ack, s) else client_count env (cc_data cqe) num_ack s))"

definition client_peek_acks :: "client_env \<Rightarrow> nat \<Rightarrow> client \<Rightarrow> (nat \<times> client) comp" where
  "client_peek_acks env num_ack s =
     (let peeked = ce_peek env (cl_calls s) (cl_flight s); s = s\<lparr>cl_calls := Suc (cl_calls s)\<rparr> in
      case peeked of
        CPeek_again \<Rightarrow> ret (num_ack, s)
      | CPeek_error \<Rightarrow> fail (Exit_failure ''io_uring_peek_batch_cqe'')
      | CPeeked cqes \<Rightarrow> foldC (client_ack env) cqes (num_ack, s))"

text \<open>
  The loop of \<open>run_client\<close>. The counters are ints of the program; with at most \<open>MAX_NUM_MSG\<close> messages
  they do not overflow.
\<close>

function run_client_loop ::
  "client_env \<Rightarrow> nat \<Rightarrow> nat \<Rightarrow> int \<Rightarrow> nat \<Rightarrow> nat \<Rightarrow> nat \<Rightarrow> nat \<Rightarrow> client \<Rightarrow> (nat \<times> client) comp" where
  "run_client_loop env send_buf recv_buf client_fd num_messages num_sent num_recv num_ack s =
     (if num_ack < num_messages
      then bindC (foldC (client_send env send_buf client_fd) [num_sent..<min (num_sent + 100) num_messages] s) (\<lambda>s.
        bindC (client_submit env s) (\<lambda>s.
        if num_messages \<le> num_sent + 100 then ret (num_ack, s)
        else bindC (foldC (client_recv env recv_buf client_fd) [num_recv..<min (num_recv + 10) num_messages] s) (\<lambda>s.
          bindC (client_submit env s) (\<lambda>s.
          bindC (client_peek_acks env num_ack s) (\<lambda>(num_ack, s).
          run_client_loop env send_buf recv_buf client_fd num_messages (num_sent + 100) (num_recv + 10) num_ack s)))))
      else ret (num_ack, s))"
  by pat_completeness auto
termination
  by (relation "measure (\<lambda>(env, send_buf, recv_buf, client_fd, num_messages, num_sent, num_recv, num_ack, s).
      num_messages - num_sent)") auto

declare run_client_loop.simps [simp del]

definition run_client :: "client_env \<Rightarrow> nat \<Rightarrow> nat \<Rightarrow> int \<Rightarrow> nat \<Rightarrow> client \<Rightarrow> (nat \<times> client) comp" where
  "run_client env send_buf recv_buf client_fd num_messages s =
     run_client_loop env send_buf recv_buf client_fd num_messages 0 0 0 s"

definition malloc_buf :: "nat \<Rightarrow> client \<Rightarrow> (nat \<times> client) comp" where
  "malloc_buf num_msg s = (case malloc (fit (num_msg * 4 * 2)) (cl_mem s) of
       None \<Rightarrow> fail (Exit_failure ''malloc'')
     | Some (b, h) \<Rightarrow> ret (b, s\<lparr>cl_mem := h\<rparr>))"

subsection \<open>The program\<close>

definition client_socket :: "client_env \<Rightarrow> client \<Rightarrow> (int \<times> client) comp" where
  "client_socket env s =
     (let fd = ce_socket env (cl_sockets s) in
      if fd < 0 then fail (Exit_failure ''socket()'')
      else bindC (client_set_nonblocking env fd) (\<lambda>_. ret (fd, s\<lparr>cl_sockets := Suc (cl_sockets s)\<rparr>)))"

definition client_free :: "nat \<Rightarrow> client \<Rightarrow> client comp" where
  "client_free b s = bindC (hfree (cl_mem s) (Some b)) (\<lambda>h. ret (s\<lparr>cl_mem := h\<rparr>))"

text \<open>One turn of the loop of \<open>main\<close>: a run, a new connection, new buffers for the old ones.\<close>

definition client_renew :: "nat \<Rightarrow> nat \<Rightarrow> nat \<Rightarrow> client \<Rightarrow> (nat \<times> nat \<times> client) comp" where
  "client_renew num_messages send_buf recv_buf s =
     bindC (malloc_buf num_messages s) (\<lambda>(new_send_buf, s).
     bindC (malloc_buf num_messages s) (\<lambda>(new_recv_buf, s).
     bindC (client_free send_buf s) (\<lambda>s.
     bindC (client_free recv_buf s) (\<lambda>s.
     ret (new_send_buf, new_recv_buf, s)))))"

definition client_turn ::
  "client_env \<Rightarrow> 8 word list \<Rightarrow> nat \<Rightarrow> int \<times> nat \<times> nat \<times> client \<Rightarrow> (int \<times> nat \<times> nat \<times> client) comp" where
  "client_turn env server_addr num_messages = (\<lambda>(client_fd, send_buf, recv_buf, s).
     bindC (run_client env send_buf recv_buf client_fd num_messages s) (\<lambda>(_, s).
     bindC (client_socket env s) (\<lambda>(new_fd, s).
     bindC (connect_server env server_addr new_fd s) (\<lambda>s.
     bindC (client_renew num_messages send_buf recv_buf (s\<lparr>cl_closed := cl_closed s @ [client_fd]\<rparr>))
       (\<lambda>(new_send_buf, new_recv_buf, s). ret (new_fd, new_send_buf, new_recv_buf, s))))))"

definition num_messages_prefix :: string where
  "num_messages_prefix = ''--num_messages=''"

text \<open>The options after address and port; \<open>strncmp\<close> with the length of the prefix, or one less.\<close>

definition client_num_messages :: "string list \<Rightarrow> int comp" where
  "client_num_messages argv =
     (if length argv = 4
      then (if take (length num_messages_prefix) (argv ! 3) = num_messages_prefix
            then parse_int (drop (length num_messages_prefix) (argv ! 3)) else ret NUM_MSG)
      else if length argv = 5
      then (if take (length num_messages_prefix - 1) (argv ! 3) = take (length num_messages_prefix - 1) num_messages_prefix
            then parse_int (argv ! 4) else ret NUM_MSG)
      else ret NUM_MSG)"

text \<open>
  The arguments: the peer's address, the port and the number of messages. An invalid number is
  reported by printing \<open>argv[4]\<close>, which is NULL when there are four arguments.
\<close>

definition client_args :: "client_env \<Rightarrow> string list \<Rightarrow> (8 word list \<times> int \<times> nat) comp" where
  "client_args env argv =
     (if length argv < 3 then fail (Exit_failure ''Usage'')
      else case ce_pton env (argv ! 1) of
        None \<Rightarrow> fail (Exit_failure ''Invalid server ip'')
      | Some server_ip \<Rightarrow>
          bindC (parse_int (argv ! 2)) (\<lambda>server_port.
          if server_port < 0 \<or> server_port > 65535 then fail (Exit_failure ''Invalid server port'')
          else bindC (client_num_messages argv) (\<lambda>num_messages.
            if num_messages < 0 \<or> num_messages > MAX_NUM_MSG
            then (if length argv \<le> 4 then fail Null_deref else fail (Exit_failure ''Invalid num messages''))
            else ret (server_ip, server_port, nat num_messages))))"

definition client_sockaddr :: "client_env \<Rightarrow> 8 word list \<Rightarrow> int \<Rightarrow> 8 word list" where
  "client_sockaddr env server_ip server_port =
     mem_bytes (ce_endian env) 2 (2 :: 16 word) @ mem_bytes (ce_endian env) 2 (htons (ce_endian env) (of_int server_port)) @
     server_ip @ replicate 8 0"

text \<open>The buffers and the first connection.\<close>

definition client_start :: "client_env \<Rightarrow> 8 word list \<Rightarrow> nat \<Rightarrow> client \<Rightarrow> (int \<times> nat \<times> nat \<times> client) comp" where
  "client_start env server_addr num_messages s =
     bindC (malloc_buf num_messages s) (\<lambda>(send_buf, s).
     bindC (malloc_buf num_messages s) (\<lambda>(recv_buf, s).
     bindC (client_socket env s) (\<lambda>(client_fd, s).
     bindC (connect_server env server_addr client_fd s) (\<lambda>s.
     ret (client_fd, send_buf, recv_buf, s)))))"

text \<open>\<open>main\<close>: the final state, or \<open>Inl\<close> of the exit code when the ring cannot be set up.\<close>

definition client_main :: "client_env \<Rightarrow> string list \<Rightarrow> 8 word list heap \<Rightarrow> (int + client) comp" where
  "client_main env argv mem =
     bindC (client_args env argv) (\<lambda>(server_ip, server_port, num_messages).
     let server_addr = client_sockaddr env server_ip server_port;
         s = \<lparr>cl_mem = mem, cl_sq = [], cl_flight = [], cl_submitted = [], cl_calls = 0, cl_sockets = 0, cl_closed = [], cl_out = []\<rparr> in
     if ce_queue_init env CLIENT_QUEUE_SIZE < 0 then ret (Inl 1)
     else bindC (client_start env server_addr num_messages s) (\<lambda>x.
       bindC (foldC (\<lambda>_. client_turn env server_addr num_messages) [0..<5] x) (\<lambda>(_, send_buf, recv_buf, s).
       bindC (client_free send_buf s) (\<lambda>s.
       bindC (client_free recv_buf s) (\<lambda>s.
       ret (Inr s))))))"

end
