(* ===== verification/Load_Client_Run.thy ===== *)
theory Load_Client_Run
  imports Load_Client
begin

text \<open>
  The runs of the load client: with room in the ring every message is sent once, in order, from
  memory that the client owns, and the run ends after all are sent, whatever has come back by then.
  What becomes of the entries in flight when \<open>main\<close> frees the buffers is in \<open>Load_Client_Main\<close>.
\<close>

section \<open>Slots\<close>

text \<open>The entries for slot \<open>i\<close> of the two buffers, and the data of slot \<open>i\<close>.\<close>

definition send_entry :: "int \<Rightarrow> nat \<Rightarrow> nat \<Rightarrow> client_sqe" where
  "send_entry fd b i = \<lparr>cs_data = Some (b, 8 * i), cs_skip = True, cs_req = Send_int fd b (8 * i + 4)\<rparr>"

definition recv_entry :: "int \<Rightarrow> nat \<Rightarrow> nat \<Rightarrow> client_sqe" where
  "recv_entry fd b i = \<lparr>cs_data = Some (b, 8 * i), cs_skip = False, cs_req = Recv_int fd b (8 * i + 4)\<rparr>"

definition slot_data :: "8 word list \<Rightarrow> nat \<Rightarrow> 8 word list" where
  "slot_data bytes i = take 4 (drop (8 * i + 4) bytes)"

lemma slot_data_update:
  assumes "8 * i + 8 \<le> length bytes" and "length t = 4" and "length d = 4"
  shows "slot_data (take (8 * i) bytes @ t @ d @ rest) j = (if j < i then slot_data bytes j else if j = i then d else
    slot_data (take (8 * i) bytes @ t @ d @ rest) j)"
proof -
  have "slot_data (take (8 * i) bytes @ t @ d @ rest) j = slot_data bytes j" if "j < i"
  proof -
    have "8 * j + 4 + 4 \<le> 8 * i" using that by simp
    then show ?thesis using assms(1) by (simp add: slot_data_def take_drop drop_append take_append)
  qed
  moreover have "slot_data (take (8 * i) bytes @ t @ d @ rest) i = d"
    using assms by (simp add: slot_data_def)
  ultimately show ?thesis by auto
qed

lemma client_send_eq:
  assumes b: "cells (cl_mem s) b = Some bytes" "8 * i + 8 \<le> length bytes" and room: "ce_sqe env (length (cl_sq s))"
  shows "client_send env b fd i s = ret (s\<lparr>cl_mem := (cl_mem s)\<lparr>cells := (cells (cl_mem s))(b \<mapsto>
      take (8 * i) bytes @ mem_bytes (ce_endian env) 4 (1 :: 32 word) @ be_bytes 4 (of_nat i :: 32 word) @ drop (8 * i + 8) bytes)\<rparr>,
    cl_sq := cl_sq s @ [send_entry fd b i]\<rparr>)"
proof -
  let ?t = "mem_bytes (ce_endian env) 4 (1 :: 32 word)"
  have "bwrite bytes (i * 4 * 2) ?t = ret (take (8 * i) bytes @ ?t @ drop (8 * i + 4) bytes)"
    using b(2) by (simp add: bwrite_def mult.commute)
  moreover have "write_int_to_buffer (ce_endian env) (drop (8 * i + 4) bytes) (of_nat i) =
      ret (be_bytes 4 (of_nat i :: 32 word) @ drop (8 * i + 8) bytes)"
    using b(2) by (simp add: write_int_to_buffer_def bwrite_def Let_def add.commute)
  ultimately show ?thesis
    using b room by (simp add: client_send_def Let_def hget_def hput_def client_get_sqe_def client_push_def send_entry_def mult.commute)
qed

lemma client_recv_eq:
  assumes b: "cells (cl_mem s) b = Some bytes" "8 * i + 8 \<le> length bytes" and room: "ce_sqe env (length (cl_sq s))"
  shows "client_recv env b fd i s = ret (s\<lparr>cl_mem := (cl_mem s)\<lparr>cells := (cells (cl_mem s))(b \<mapsto>
      take (8 * i) bytes @ mem_bytes (ce_endian env) 4 (2 :: 32 word) @ drop (8 * i + 4) bytes)\<rparr>,
    cl_sq := cl_sq s @ [recv_entry fd b i]\<rparr>)"
proof -
  have "bwrite bytes (i * 4 * 2) (mem_bytes (ce_endian env) 4 (2 :: 32 word)) =
      ret (take (8 * i) bytes @ mem_bytes (ce_endian env) 4 (2 :: 32 word) @ drop (8 * i + 4) bytes)"
    using b(2) by (simp add: bwrite_def mult.commute)
  then show ?thesis
    using b room by (simp add: client_recv_def Let_def hget_def hput_def client_get_sqe_def client_push_def recv_entry_def mult.commute)
qed

section \<open>Preparing entries\<close>

text \<open>
  What the two preparing loops keep: the entries submitted before, the allocator and every other block.
\<close>

definition alloc :: "client \<Rightarrow> nat \<times> (nat \<Rightarrow> 8 word list option)" where
  "alloc s = (brk (cl_mem s), fresh (cl_mem s))"

lemma alloc_plain [simp]:
  "alloc (s\<lparr>cl_flight := x\<rparr>) = alloc s" "alloc (s\<lparr>cl_calls := n\<rparr>) = alloc s" "alloc (s\<lparr>cl_out := v\<rparr>) = alloc s"
  "alloc (s\<lparr>cl_sq := x\<rparr>) = alloc s" "alloc (s\<lparr>cl_submitted := y\<rparr>) = alloc s" "alloc (s\<lparr>cl_closed := l\<rparr>) = alloc s"
  "alloc (s\<lparr>cl_sockets := n\<rparr>) = alloc s" "alloc (s\<lparr>cl_mem := (cl_mem s)\<lparr>cells := c\<rparr>\<rparr>) = alloc s"
  by (simp_all add: alloc_def)

definition only_block :: "nat \<Rightarrow> client \<Rightarrow> client \<Rightarrow> bool" where
  "only_block b s s' \<longleftrightarrow> cl_flight s' = cl_flight s \<and> cl_submitted s' = cl_submitted s \<and> alloc s' = alloc s \<and>
     cl_sockets s' = cl_sockets s \<and> cl_closed s' = cl_closed s \<and> cl_calls s' = cl_calls s \<and>
     (\<forall>x. x \<noteq> b \<longrightarrow> cells (cl_mem s') x = cells (cl_mem s) x)"

lemma send_loop:
  assumes b: "cells (cl_mem s) b = Some bytes" "length bytes = 8 * N" and room: "\<And>n. n < 256 \<Longrightarrow> ce_sqe env n"
    and s: "cl_sq s = []" "m \<le> k" "k \<le> m + 100" "k \<le> N" "\<forall>j<m. slot_data bytes j = be_bytes 4 (of_nat j :: 32 word)"
  shows "spec (foldC (client_send env b fd) [m..<k] s) no_fault (\<lambda>s'. only_block b s s' \<and> cl_sq s' = map (send_entry fd b) [m..<k] \<and>
    (\<exists>bytes'. cells (cl_mem s') b = Some bytes' \<and> length bytes' = 8 * N \<and> (\<forall>j<k. slot_data bytes' j = be_bytes 4 (of_nat j :: 32 word))))"
proof (rule spec_foldC_range [where I = "\<lambda>i t. only_block b s t \<and> cl_sq t = map (send_entry fd b) [m..<i] \<and>
    (\<exists>bytes'. cells (cl_mem t) b = Some bytes' \<and> length bytes' = 8 * N \<and> (\<forall>j<i. slot_data bytes' j = be_bytes 4 (of_nat j :: 32 word)))"])
  show "m \<le> k" by (rule s(2))
  show "only_block b s s \<and> cl_sq s = map (send_entry fd b) [m..<m] \<and>
      (\<exists>bytes'. cells (cl_mem s) b = Some bytes' \<and> length bytes' = 8 * N \<and> (\<forall>j<m. slot_data bytes' j = be_bytes 4 (of_nat j :: 32 word)))"
    using b s by (simp add: only_block_def)
  fix i t
  assume i: "m \<le> i" "i < k" and t: "only_block b s t \<and> cl_sq t = map (send_entry fd b) [m..<i] \<and>
    (\<exists>bytes'. cells (cl_mem t) b = Some bytes' \<and> length bytes' = 8 * N \<and> (\<forall>j<i. slot_data bytes' j = be_bytes 4 (of_nat j :: 32 word)))"
  then obtain bs where bs: "cells (cl_mem t) b = Some bs" "length bs = 8 * N" "\<forall>j<i. slot_data bs j = be_bytes 4 (of_nat j :: 32 word)" by blast
  have fit: "8 * i + 8 \<le> length bs" using i s(4) bs(2) by simp
  have "length (cl_sq t) < 256" using t i s(3) by simp
  note eq = client_send_eq [OF bs(1) fit room [OF this], of fd]
  show "spec (client_send env b fd i t) no_fault (\<lambda>t. only_block b s t \<and> cl_sq t = map (send_entry fd b) [m..<Suc i] \<and>
      (\<exists>bytes'. cells (cl_mem t) b = Some bytes' \<and> length bytes' = 8 * N \<and> (\<forall>j<Suc i. slot_data bytes' j = be_bytes 4 (of_nat j :: 32 word))))"
    unfolding eq using t i bs fit by (auto simp: only_block_def slot_data_update less_Suc_eq)
qed

lemma recv_loop:
  assumes b: "cells (cl_mem s) b = Some bytes" "length bytes = 8 * N" and room: "\<And>n. n < 256 \<Longrightarrow> ce_sqe env n"
    and s: "cl_sq s = []" "m \<le> k" "k \<le> m + 10" "k \<le> N"
  shows "spec (foldC (client_recv env b fd) [m..<k] s) no_fault (\<lambda>s'. only_block b s s' \<and> cl_sq s' = map (recv_entry fd b) [m..<k] \<and>
    (\<exists>bytes'. cells (cl_mem s') b = Some bytes' \<and> length bytes' = 8 * N))"
proof (rule spec_foldC_range [where I = "\<lambda>i t. only_block b s t \<and> cl_sq t = map (recv_entry fd b) [m..<i] \<and>
    (\<exists>bytes'. cells (cl_mem t) b = Some bytes' \<and> length bytes' = 8 * N)"])
  show "m \<le> k" by (rule s(2))
  show "only_block b s s \<and> cl_sq s = map (recv_entry fd b) [m..<m] \<and> (\<exists>bytes'. cells (cl_mem s) b = Some bytes' \<and> length bytes' = 8 * N)"
    using b s by (simp add: only_block_def)
  fix i t
  assume i: "m \<le> i" "i < k" and t: "only_block b s t \<and> cl_sq t = map (recv_entry fd b) [m..<i] \<and>
    (\<exists>bytes'. cells (cl_mem t) b = Some bytes' \<and> length bytes' = 8 * N)"
  then obtain bs where bs: "cells (cl_mem t) b = Some bs" "length bs = 8 * N" by blast
  have fit: "8 * i + 8 \<le> length bs" using i s(4) bs(2) by simp
  have "length (cl_sq t) < 256" using t i s(3) by simp
  note eq = client_recv_eq [OF bs(1) fit room [OF this], of fd]
  show "spec (client_recv env b fd i t) no_fault (\<lambda>t. only_block b s t \<and> cl_sq t = map (recv_entry fd b) [m..<Suc i] \<and>
      (\<exists>bytes'. cells (cl_mem t) b = Some bytes' \<and> length bytes' = 8 * N))"
    unfolding eq using t i bs fit by (auto simp: only_block_def)
qed

section \<open>Completions\<close>

text \<open>The sizes of the blocks; an entry is owned when its slot lies in a live block.\<close>

definition shape :: "client \<Rightarrow> nat \<Rightarrow> nat option" where
  "shape s b = map_option length (cells (cl_mem s) b)"

lemma shape_plain [simp]:
  "shape (s\<lparr>cl_flight := x\<rparr>) = shape s" "shape (s\<lparr>cl_calls := n\<rparr>) = shape s" "shape (s\<lparr>cl_out := v\<rparr>) = shape s"
  "shape (s\<lparr>cl_sq := x\<rparr>) = shape s" "shape (s\<lparr>cl_submitted := y\<rparr>) = shape s" "shape (s\<lparr>cl_closed := l\<rparr>) = shape s"
  "shape (s\<lparr>cl_sockets := n\<rparr>) = shape s"
  by (simp_all add: shape_def fun_eq_iff)

definition owned :: "client \<Rightarrow> client_sqe \<Rightarrow> bool" where
  "owned s q \<longleftrightarrow> (\<exists>b off n fd. cs_data q = Some (b, off) \<and> shape s b = Some n \<and> off + 8 \<le> n \<and>
     (cs_req q = Send_int fd b (off + 4) \<or> cs_req q = Recv_int fd b (off + 4)))"

definition recv_off :: "nat \<Rightarrow> client_sqe \<Rightarrow> bool" where
  "recv_off b q = (case cs_req q of Recv_int fd b' off \<Rightarrow> b' \<noteq> b | _ \<Rightarrow> True)"

lemma owned_shape: "owned s q \<Longrightarrow> shape s' = shape s \<Longrightarrow> owned s' q"
  by (simp add: owned_def)

text \<open>What liburing promises: a completion belongs to an entry in flight and has at most the four bytes asked for.\<close>

fun client_legal :: "client_sqe list \<Rightarrow> client_cqe list \<Rightarrow> bool" where
  "client_legal fl [] \<longleftrightarrow> True"
| "client_legal fl (c # cs) \<longleftrightarrow> (case find (\<lambda>q. cs_data q = cc_data c) fl of
     None \<Rightarrow> False
   | Some q \<Rightarrow> length (cc_bytes c) \<le> 4 \<and> client_legal (remove1 q fl) cs)"

definition client_env_ok :: "client_env \<Rightarrow> bool" where
  "client_env_ok env \<longleftrightarrow> (\<forall>n<CLIENT_QUEUE_SIZE. ce_sqe env n) \<and>
     (\<forall>n fl cs. ce_peek env n fl = CPeeked cs \<longrightarrow> length cs \<le> CLIENT_BATCH_SIZE \<and> client_legal fl cs)"

text \<open>
  \<open>calm\<close>: no call of the library and the system fails. The program exits only when one does.
\<close>

definition calm :: "client_env \<Rightarrow> bool" where
  "calm env \<longleftrightarrow> (\<forall>qs. 0 \<le> ce_submit env qs) \<and> (\<forall>n fl. ce_peek env n fl \<noteq> CPeek_error) \<and>
     (\<forall>n fl. case ce_wait env n fl of None \<Rightarrow> False | Some c \<Rightarrow> 0 \<le> cc_res c) \<and>
     (\<forall>n. 0 \<le> ce_socket env n) \<and> (\<forall>fd. ce_getfl env fd \<noteq> - 1) \<and> (\<forall>fd w. ce_setfl env fd w \<noteq> - 1)"

definition client_exits :: "client_env \<Rightarrow> fault \<Rightarrow> bool" where
  "client_exits env f \<longleftrightarrow> is_exit f \<and> \<not> calm env"

lemma client_submit_ok:
  "spec (client_submit env s) (client_exits env) (\<lambda>s'.
     s' = s\<lparr>cl_flight := cl_flight s @ cl_sq s, cl_submitted := cl_submitted s @ cl_sq s, cl_sq := []\<rparr>)"
  by (auto simp: client_submit_def client_exits_def calm_def not_less [symmetric])

definition kept_run :: "nat \<Rightarrow> client \<Rightarrow> client \<Rightarrow> bool" where
  "kept_run b s s' \<longleftrightarrow> shape s' = shape s \<and> cells (cl_mem s') b = cells (cl_mem s) b \<and> alloc s' = alloc s \<and>
     cl_submitted s' = cl_submitted s \<and> cl_sq s' = cl_sq s"

lemma kept_run_trans: "kept_run b s s1 \<Longrightarrow> kept_run b s1 s2 \<Longrightarrow> kept_run b s s2"
  by (simp add: kept_run_def)

lemma client_deliver_ok:
  assumes q: "find (\<lambda>q. cs_data q = cc_data c) (cl_flight s) = Some q" and o: "owned s q" "recv_off sb q" and n: "length (cc_bytes c) \<le> 4"
  shows "spec (client_deliver c s) no_fault (\<lambda>s'. kept_run sb s s' \<and> cl_flight s' = remove1 q (cl_flight s))"
proof (cases "cs_req q")
  case (Recv_int fd b off)
  with o obtain bytes where b: "cells (cl_mem s) b = Some bytes" "off + 4 \<le> length bytes" "b \<noteq> sb"
    by (auto simp: owned_def recv_off_def shape_def)
  then show ?thesis
    using q Recv_int n by (auto simp: alloc_def client_deliver_def Let_def hget_def hput_def bwrite_def kept_run_def shape_def fun_eq_iff)
qed (use q in \<open>auto simp: client_deliver_def kept_run_def\<close>)

lemma client_count_ok:
  assumes "shape s b = Some n" and "off + 8 \<le> n"
  shows "spec (client_count env (Some (b, off)) k s) no_fault (\<lambda>(k', s'). k' \<le> Suc k \<and> kept_run sb s s' \<and> cl_flight s' = cl_flight s)"
proof -
  obtain bytes where "cells (cl_mem s) b = Some bytes" "off + 8 \<le> length bytes" using assms by (auto simp: shape_def)
  then show ?thesis
    by (auto simp: client_count_def ptr_def read_int_from_buffer_def Let_def kept_run_def)
qed

lemma client_ack_ok:
  assumes q: "find (\<lambda>q. cs_data q = cc_data c) (cl_flight s) = Some q" and o: "owned s q" "recv_off sb q" and n: "length (cc_bytes c) \<le> 4"
  shows "spec (client_ack env c (k, s)) no_fault (\<lambda>(k', s'). k' \<le> Suc k \<and> kept_run sb s s' \<and> cl_flight s' = remove1 q (cl_flight s))"
proof -
  have "cs_data q = cc_data c" using q by (auto simp: find_Some_iff)
  then obtain b off n where b: "cc_data c = Some (b, off)" "shape s b = Some n" "off + 8 \<le> n"
    using o(1) by (auto simp: owned_def)
  have count: "spec (client_count env (cc_data c) k s') no_fault (\<lambda>(k', s'). k' \<le> Suc k \<and> kept_run sb s s' \<and> cl_flight s' = remove1 q (cl_flight s))"
    if s': "kept_run sb s s'" "cl_flight s' = remove1 q (cl_flight s)" for s'
  proof -
    have "shape s' b = Some n" using s'(1) b(2) by (simp add: kept_run_def)
    from client_count_ok [OF this b(3), of env k sb] show ?thesis
      unfolding b(1) by (rule spec_conseq) (use s' kept_run_trans [OF s'(1)] in auto)
  qed
  show ?thesis
    unfolding client_ack_def prod.case
    by (rule spec_bindI [OF client_deliver_ok [OF assms]]) (use count in \<open>auto simp del: spec_bindC\<close>)
qed

lemma client_acks_ok:
  assumes "client_legal (cl_flight s) cs" and "\<forall>q\<in>set (cl_flight s). owned s q \<and> recv_off sb q"
  shows "spec (foldC (client_ack env) cs (k, s)) no_fault (\<lambda>(k', s'). k' \<le> k + length cs \<and> kept_run sb s s' \<and>
    set (cl_flight s') \<subseteq> set (cl_flight s))"
  using assms
proof (induction cs arbitrary: k s)
  case Nil
  then show ?case by (simp add: kept_run_def)
next
  case (Cons c cs)
  then obtain q where q: "find (\<lambda>q. cs_data q = cc_data c) (cl_flight s) = Some q" "length (cc_bytes c) \<le> 4"
    "client_legal (remove1 q (cl_flight s)) cs" by (auto split: option.splits)
  then have "q \<in> set (cl_flight s)" by (auto simp: find_Some_iff)
  then have o: "owned s q" "recv_off sb q" using Cons.prems(2) by auto
  have step: "spec (foldC (client_ack env) cs (k', s')) no_fault (\<lambda>(k', s'). k' \<le> k + length (c # cs) \<and> kept_run sb s s' \<and>
      set (cl_flight s') \<subseteq> set (cl_flight s))"
    if s': "k' \<le> Suc k" "kept_run sb s s'" "cl_flight s' = remove1 q (cl_flight s)" for k' s'
  proof -
    have sub: "set (cl_flight s') \<subseteq> set (cl_flight s)" using s'(3) by (simp add: set_remove1_subset)
    then have "\<forall>q\<in>set (cl_flight s'). owned s' q \<and> recv_off sb q"
      using Cons.prems(2) s'(2) owned_shape [of s _ s'] by (auto simp: kept_run_def)
    from Cons.IH [OF _ this, of k'] show ?thesis
      by (rule spec_conseq) (use q(3) s' sub kept_run_trans [OF s'(2)] in auto)
  qed
  show ?case
    unfolding foldC.simps by (rule spec_bindI [OF client_ack_ok [OF q(1) o q(2)]]) (use step in auto)
qed

lemma client_peek_acks_ok:
  assumes env: "client_env_ok env" and o: "\<forall>q\<in>set (cl_flight s). owned s q \<and> recv_off sb q"
  shows "spec (client_peek_acks env k s) (client_exits env) (\<lambda>(k', s'). k' \<le> k + 10 \<and> kept_run sb s s' \<and> set (cl_flight s') \<subseteq> set (cl_flight s) \<and>
    (ce_peek env (cl_calls s) (cl_flight s) = CPeek_again \<longrightarrow> cl_flight s' = cl_flight s \<and> cl_calls s' = Suc (cl_calls s)))"
proof (cases "ce_peek env (cl_calls s) (cl_flight s)")
  case (CPeeked cs)
  let ?s = "s\<lparr>cl_calls := Suc (cl_calls s)\<rparr>"
  have cs: "length cs \<le> 10" "client_legal (cl_flight ?s) cs"
    using env CPeeked by (auto simp: client_env_ok_def CLIENT_BATCH_SIZE_def)
  have "\<forall>q\<in>set (cl_flight ?s). owned ?s q \<and> recv_off sb q" using o owned_shape [of s _ ?s] by (auto simp: shape_def)
  note a = client_acks_ok [OF cs(2) this, of env k]
  show ?thesis
    by (simp add: client_peek_acks_def CPeeked, rule spec_mono [OF a]) (use cs(1) CPeeked in \<open>auto simp: no_fault_def kept_run_def shape_def fun_eq_iff\<close>)
qed (auto simp: client_peek_acks_def kept_run_def shape_def client_exits_def calm_def)

section \<open>A run\<close>

definition is_send :: "client_sqe \<Rightarrow> bool" where
  "is_send q = (case cs_req q of Send_int fd b off \<Rightarrow> True | _ \<Rightarrow> False)"

text \<open>The calls from number \<open>n\<close> on, \<open>k\<close> of them, find no completion.\<close>

definition quiet :: "client_env \<Rightarrow> nat \<Rightarrow> nat \<Rightarrow> bool" where
  "quiet env n k \<longleftrightarrow> (\<forall>j fl. n \<le> j \<and> j < n + k \<longrightarrow> ce_peek env j fl = CPeek_again)"

text \<open>
  The client between two turns of its loop: the blocks have their sizes, the ring is empty on the
  client's side, entries in flight are owned, and the first \<open>sent\<close> messages have been submitted in order
  from slots that hold their numbers.
\<close>

definition run_ready :: "nat \<Rightarrow> nat \<Rightarrow> nat \<Rightarrow> client \<Rightarrow> bool" where
  "run_ready sb rb N s \<longleftrightarrow> sb \<noteq> rb \<and> shape s sb = Some (8 * N) \<and> shape s rb = Some (8 * N) \<and> cl_sq s = [] \<and>
     (\<forall>q\<in>set (cl_flight s). owned s q \<and> recv_off sb q)"

definition all_sent :: "int \<Rightarrow> nat \<Rightarrow> nat \<Rightarrow> client \<Rightarrow> client \<Rightarrow> bool" where
  "all_sent fd sb sent s s' \<longleftrightarrow>
     filter is_send (cl_submitted s') = filter is_send (cl_submitted s) @ map (send_entry fd sb) [0..<sent] \<and>
     (\<forall>bytes. cells (cl_mem s') sb = Some bytes \<longrightarrow> (\<forall>j < sent. slot_data bytes j = be_bytes 4 (of_nat j :: 32 word)))"

lemma entry_simps [simp]:
  "is_send (send_entry fd b i)" "\<not> is_send (recv_entry fd b i)" "recv_off sb (send_entry fd b i)"
  "recv_off sb (recv_entry fd b i) \<longleftrightarrow> b \<noteq> sb"
  by (simp_all add: is_send_def send_entry_def recv_entry_def recv_off_def)

lemma filter_entries [simp]:
  "filter is_send (map (send_entry fd b) xs) = map (send_entry fd b) xs" "filter is_send (map (recv_entry fd b) xs) = []"
  by (induction xs) simp_all

lemma entry_owned:
  "shape s b = Some (8 * N) \<Longrightarrow> i < N \<Longrightarrow> owned s (send_entry fd b i)"
  "shape s b = Some (8 * N) \<Longrightarrow> i < N \<Longrightarrow> owned s (recv_entry fd b i)"
  by (auto simp: owned_def send_entry_def recv_entry_def)

lemma only_block_shape:
  "only_block b s s' \<Longrightarrow> shape s' b = shape s b \<Longrightarrow> shape s' = shape s"
  by (auto simp: only_block_def shape_def fun_eq_iff)

text \<open>The two halves of a turn.\<close>

lemma send_phase:
  assumes env: "client_env_ok env" and r: "run_ready sb rb N s" and a: "all_sent fd sb m s0 s" and k: "m \<le> k" "k \<le> m + 100" "k \<le> N"
  shows "spec (bindC (foldC (client_send env sb fd) [m..<k] s) (client_submit env)) (client_exits env) (\<lambda>s'.
    run_ready sb rb N s' \<and> all_sent fd sb k s0 s' \<and> set (cl_flight s) \<subseteq> set (cl_flight s') \<and> shape s' = shape s \<and> alloc s' = alloc s \<and> cl_calls s' = cl_calls s)"
proof -
  obtain bytes where b: "cells (cl_mem s) sb = Some bytes" "length bytes = 8 * N" using r by (auto simp: run_ready_def shape_def)
  have room: "ce_sqe env n" if "n < 256" for n using env that by (simp add: client_env_ok_def CLIENT_QUEUE_SIZE_def)
  have slots: "\<forall>j<m. slot_data bytes j = be_bytes 4 (of_nat j :: 32 word)" using a b(1) by (simp add: all_sent_def)
  have sq: "cl_sq s = []" using r by (simp add: run_ready_def)
  note loop = send_loop [OF b room sq k slots, of fd]
  have "spec (client_submit env s1) (client_exits env) (\<lambda>s'. run_ready sb rb N s' \<and> all_sent fd sb k s0 s' \<and>
      set (cl_flight s) \<subseteq> set (cl_flight s') \<and> shape s' = shape s \<and> alloc s' = alloc s \<and> cl_calls s' = cl_calls s)"
    if s1: "only_block sb s s1" "cl_sq s1 = map (send_entry fd sb) [m..<k]" "cells (cl_mem s1) sb = Some bs" "length bs = 8 * N"
      "\<forall>j<k. slot_data bs j = be_bytes 4 (of_nat j :: 32 word)" for s1 bs
  proof -
    have sh: "shape s1 = shape s" by (rule only_block_shape [OF s1(1)]) (use s1(3,4) b in \<open>simp add: shape_def\<close>)
    let ?s = "s1\<lparr>cl_flight := cl_flight s1 @ cl_sq s1, cl_submitted := cl_submitted s1 @ cl_sq s1, cl_sq := []\<rparr>"
    have "owned ?s q \<and> recv_off sb q" if "q \<in> set (cl_flight ?s)" for q
      using that r s1(1,2) k(3) sh owned_shape [of s q ?s] entry_owned(1) [of ?s sb N]
      by (auto simp: run_ready_def only_block_def)
    then have "run_ready sb rb N ?s" using r sh by (simp add: run_ready_def)
    moreover have "all_sent fd sb k s0 ?s"
      using a s1 k(1) upt_add_eq_append [of 0 m "k - m"] by (auto simp: all_sent_def only_block_def)
    ultimately show ?thesis using s1(1) sh by (intro spec_conseq [OF client_submit_ok]) (simp add: only_block_def)
  qed
  then show ?thesis
    by (intro spec_bindI [OF spec_mono [OF loop, of "client_exits env"]]) (auto simp: no_fault_def)
qed

lemma recv_phase:
  assumes env: "client_env_ok env" and r: "run_ready sb rb N s" and a: "all_sent fd sb m s0 s" and k: "j \<le> k" "k \<le> j + 10" "k \<le> N"
  shows "spec (bindC (foldC (client_recv env rb fd) [j..<k] s) (client_submit env)) (client_exits env) (\<lambda>s'.
    run_ready sb rb N s' \<and> all_sent fd sb m s0 s' \<and> set (map (recv_entry fd rb) [j..<k]) \<union> set (cl_flight s) \<subseteq> set (cl_flight s') \<and>
    shape s' = shape s \<and> alloc s' = alloc s \<and> cl_calls s' = cl_calls s)"
proof -
  obtain bytes where b: "cells (cl_mem s) rb = Some bytes" "length bytes = 8 * N" using r by (auto simp: run_ready_def shape_def)
  have room: "ce_sqe env n" if "n < 256" for n using env that by (simp add: client_env_ok_def CLIENT_QUEUE_SIZE_def)
  have sq: "cl_sq s = []" and ne: "sb \<noteq> rb" using r by (simp_all add: run_ready_def)
  note loop = recv_loop [OF b room sq k, of fd]
  have "spec (client_submit env s1) (client_exits env) (\<lambda>s'. run_ready sb rb N s' \<and> all_sent fd sb m s0 s' \<and>
      set (map (recv_entry fd rb) [j..<k]) \<union> set (cl_flight s) \<subseteq> set (cl_flight s') \<and> shape s' = shape s \<and> alloc s' = alloc s \<and> cl_calls s' = cl_calls s)"
    if s1: "only_block rb s s1" "cl_sq s1 = map (recv_entry fd rb) [j..<k]" "cells (cl_mem s1) rb = Some bs" "length bs = 8 * N" for s1 bs
  proof -
    have sh: "shape s1 = shape s" by (rule only_block_shape [OF s1(1)]) (use s1(3,4) b in \<open>simp add: shape_def\<close>)
    let ?s = "s1\<lparr>cl_flight := cl_flight s1 @ cl_sq s1, cl_submitted := cl_submitted s1 @ cl_sq s1, cl_sq := []\<rparr>"
    have "owned ?s q \<and> recv_off sb q" if "q \<in> set (cl_flight ?s)" for q
      using that r ne s1(1,2) k(3) sh owned_shape [of s q ?s] entry_owned(2) [of ?s rb N]
      by (auto simp: run_ready_def only_block_def)
    then have "run_ready sb rb N ?s" using r sh by (simp add: run_ready_def)
    moreover have "all_sent fd sb m s0 ?s" using a s1 ne by (auto simp: all_sent_def only_block_def)
    ultimately show ?thesis using s1(1,2) sh by (intro spec_conseq [OF client_submit_ok]) (auto simp: only_block_def)
  qed
  then show ?thesis
    by (intro spec_bindI [OF spec_mono [OF loop, of "client_exits env"]]) (auto simp: no_fault_def)
qed

lemma peek_phase:
  assumes env: "client_env_ok env" and r: "run_ready sb rb N s" and a: "all_sent fd sb m s0 s"
  shows "spec (client_peek_acks env k s) (client_exits env) (\<lambda>(k', s'). k' \<le> k + 10 \<and> run_ready sb rb N s' \<and> all_sent fd sb m s0 s' \<and>
    shape s' = shape s \<and> alloc s' = alloc s \<and>
    (ce_peek env (cl_calls s) (cl_flight s) = CPeek_again \<longrightarrow> cl_flight s' = cl_flight s \<and> cl_calls s' = Suc (cl_calls s)))"
proof -
  have "\<forall>q\<in>set (cl_flight s). owned s q \<and> recv_off sb q" using r by (simp add: run_ready_def)
  note peek = client_peek_acks_ok [OF env this, of k]
  have "run_ready sb rb N s' \<and> all_sent fd sb m s0 s'"
    if "kept_run sb s s'" "set (cl_flight s') \<subseteq> set (cl_flight s)" for s'
    using r a that owned_shape [of s _ s'] by (auto simp: run_ready_def all_sent_def kept_run_def)
  then show ?thesis by (intro spec_conseq [OF peek]) (auto simp: kept_run_def)
qed

text \<open>
  All turns. Turn \<open>t\<close> starts with \<open>100 * t\<close> messages sent and \<open>10 * t\<close> receives prepared; when nothing is
  delivered during the run, the first receive stays in flight.
\<close>

definition waits :: "client_env \<Rightarrow> nat \<Rightarrow> int \<Rightarrow> nat \<Rightarrow> client \<Rightarrow> nat \<Rightarrow> client \<Rightarrow> bool" where
  "waits env rb fd N s0 t s \<longleftrightarrow> (quiet env (cl_calls s0) ((N - 1) div 100) \<longrightarrow>
     cl_calls s = cl_calls s0 + t \<and> (0 < t \<longrightarrow> recv_entry fd rb 0 \<in> set (cl_flight s)))"

lemma waits_same:
  "waits env rb fd N s0 t s \<Longrightarrow> cl_calls s' = cl_calls s \<Longrightarrow> set (cl_flight s) \<subseteq> set (cl_flight s') \<Longrightarrow> waits env rb fd N s0 t s'"
  by (auto simp: waits_def)

definition run_done :: "client_env \<Rightarrow> nat \<Rightarrow> nat \<Rightarrow> int \<Rightarrow> nat \<Rightarrow> client \<Rightarrow> client \<Rightarrow> nat \<times> client \<Rightarrow> bool" where
  "run_done env sb rb fd N s0 s = (\<lambda>(k, s'). k \<le> 10 * ((N - 1) div 100) \<and> run_ready sb rb N s' \<and> all_sent fd sb N s0 s' \<and>
     shape s' = shape s \<and> alloc s' = alloc s \<and> waits env rb fd N s0 ((N - 1) div 100) s')"

lemma run_done_trans: "shape s1 = shape s \<Longrightarrow> alloc s1 = alloc s \<Longrightarrow> run_done env sb rb fd N s0 s1 = run_done env sb rb fd N s0 s"
  by (simp add: run_done_def)

text \<open>The part of a turn after the sends, when messages are left; \<open>next\<close> is the rest of the loop.\<close>

lemma turn_rest:
  assumes env: "client_env_ok env" and r: "run_ready sb rb N s" and a: "all_sent fd sb m s0 s" and j: "j = 10 * t" "t < (N - 1) div 100"
    and old: "waits env rb fd N s0 t s"
    and nxt: "\<And>k' s'. k' \<le> k + 10 \<Longrightarrow> run_ready sb rb N s' \<Longrightarrow> all_sent fd sb m s0 s' \<Longrightarrow> waits env rb fd N s0 (Suc t) s' \<Longrightarrow> spec (next k' s') (client_exits env) (run_done env sb rb fd N s0 s')"
  shows "spec (bindC (foldC (client_recv env rb fd) [j..<min (j + 10) N] s) (\<lambda>s. bindC (client_submit env s) (\<lambda>s.
    bindC (client_peek_acks env k s) (\<lambda>(k', s'). next k' s')))) (client_exits env) (run_done env sb rb fd N s0 s)"
proof -
  let ?j = "min (j + 10) N"
  have jN: "j < N" using j by linarith
  have "spec (bindC (bindC (foldC (client_recv env rb fd) [j..<?j] s) (client_submit env)) (\<lambda>s. bindC (client_peek_acks env k s) (\<lambda>(k', s'). next k' s')))
      (client_exits env) (run_done env sb rb fd N s0 s)"
  proof (rule spec_bindI [OF recv_phase [OF env r a]], use jN in simp, simp, simp, elim conjE)
    fix s2 assume s2: "run_ready sb rb N s2" "all_sent fd sb m s0 s2" "shape s2 = shape s" "alloc s2 = alloc s" "cl_calls s2 = cl_calls s"
      and fl: "set (map (recv_entry fd rb) [j..<?j]) \<union> set (cl_flight s) \<subseteq> set (cl_flight s2)"
    let ?q = "quiet env (cl_calls s0) ((N - 1) div 100)"
    have "recv_entry fd rb j \<in> set (map (recv_entry fd rb) [j..<?j])" using jN by auto
    then have first: "?q \<longrightarrow> recv_entry fd rb 0 \<in> set (cl_flight s2)" using fl old j(1) by (cases "t = 0") (auto simp: waits_def)
    have calls: "?q \<longrightarrow> cl_calls s2 = cl_calls s0 + t \<and> ce_peek env (cl_calls s2) (cl_flight s2) = CPeek_again"
      using old s2(5) j(2) by (auto simp: waits_def quiet_def)
    show "spec (bindC (client_peek_acks env k s2) (\<lambda>(k', s'). next k' s')) (client_exits env) (run_done env sb rb fd N s0 s)"
    proof (rule spec_bindI [OF peek_phase [OF env s2(1,2)]], unfold split_paired_all prod.case, elim conjE)
      fix k' s3 assume s3: "k' \<le> k + 10" "run_ready sb rb N s3" "all_sent fd sb m s0 s3" "shape s3 = shape s2" "alloc s3 = alloc s2"
        "ce_peek env (cl_calls s2) (cl_flight s2) = CPeek_again \<longrightarrow> cl_flight s3 = cl_flight s2 \<and> cl_calls s3 = Suc (cl_calls s2)"
      have "run_done env sb rb fd N s0 s3 = run_done env sb rb fd N s0 s" using s2(3,4) s3(4,5) by (intro run_done_trans) simp_all
      then show "spec (next k' s3) (client_exits env) (run_done env sb rb fd N s0 s)" using nxt [OF s3(1-3)] s3(6) first calls by (auto simp: waits_def)
    qed
  qed
  then show ?thesis by (simp add: bindC_assoc)
qed

lemma run_loop_ok:
  assumes env: "client_env_ok env"
    and "run_ready sb rb N s" and "all_sent fd sb (100 * t) s0 s" and "100 * t < N \<or> N = 0 \<and> t = 0" and "ack \<le> 10 * t"
    and "waits env rb fd N s0 t s"
  shows "spec (run_client_loop env sb rb fd N (100 * t) (10 * t) ack s) (client_exits env) (run_done env sb rb fd N s0 s)"
  using assms(2-)
proof (induction "N - 100 * t" arbitrary: t ack s rule: less_induct)
  case less
  show ?case
  proof (cases "N = 0")
    case True
    then show ?thesis using less.prems by (subst run_client_loop.simps) (simp add: run_done_def)
  next
    case False
    then have t: "100 * t < N" "ack < N" using less.prems(3,4) by auto
    let ?k = "min (100 * t + 100) N" and ?j = "min (10 * t + 10) N"
    let ?rest = "\<lambda>s1. if N \<le> 100 * t + 100 then ret (ack, s1) else bindC (foldC (client_recv env rb fd) [10 * t..<?j] s1) (\<lambda>s.
        bindC (client_submit env s) (\<lambda>s. bindC (client_peek_acks env ack s) (\<lambda>(ack, s). run_client_loop env sb rb fd N (100 * t + 100) (10 * t + 10) ack s)))"
    have rest: "spec (?rest s1) (client_exits env) (run_done env sb rb fd N s0 s)"
      if s1: "run_ready sb rb N s1" "all_sent fd sb ?k s0 s1" "set (cl_flight s) \<subseteq> set (cl_flight s1)" "shape s1 = shape s" "alloc s1 = alloc s" "cl_calls s1 = cl_calls s" for s1
    proof (cases "N \<le> 100 * t + 100")
      case True
      then have "t = (N - 1) div 100" "?k = N" using t(1) by linarith+
      then show ?thesis using True s1 less.prems(4) waits_same [OF less.prems(5) s1(6,3)] by (auto simp: run_done_def)
    next
      case more: False
      then have sent: "all_sent fd sb (100 * t + 100) s0 s1" using s1(2) by (simp add: min_def)
      have loop: "spec (run_client_loop env sb rb fd N (100 * t + 100) (10 * t + 10) ack' s3) (client_exits env) (run_done env sb rb fd N s0 s3)"
        if "ack' \<le> ack + 10" "run_ready sb rb N s3" "all_sent fd sb (100 * t + 100) s0 s3" "waits env rb fd N s0 (Suc t) s3" for ack' s3
        using less.hyps [of "Suc t" s3 ack'] more t that less.prems(4) by (simp add: add.commute)
      have "t < (N - 1) div 100" using more by linarith
      then have "spec (?rest s1) (client_exits env) (run_done env sb rb fd N s0 s1)"
        unfolding if_not_P [OF more] by (rule turn_rest [OF env s1(1) sent refl _ waits_same [OF less.prems(5) s1(6,3)] loop])
      then show ?thesis using run_done_trans [OF s1(4,5)] by simp
    qed
    have "spec (bindC (bindC (foldC (client_send env sb fd) [100 * t..<?k] s) (client_submit env)) ?rest) (client_exits env) (run_done env sb rb fd N s0 s)"
      by (rule spec_bindI [OF send_phase [OF env less.prems(1,2)]]) (use rest t(1) in auto)
    then show ?thesis using t(2) by (subst run_client_loop.simps) (simp add: bindC_assoc)
  qed
qed

lemma run_client_ok:
  assumes "client_env_ok env" and "run_ready sb rb N s"
  shows "spec (run_client env sb rb fd N s) (client_exits env) (run_done env sb rb fd N s s)"
  unfolding run_client_def
  using run_loop_ok [OF assms, of fd 0 s 0] by (cases "N = 0") (simp_all add: all_sent_def waits_def)

end
