(* ===== verification/Load_Client_Main.thy ===== *)
theory Load_Client_Main
  imports Load_Client_Run
begin

text \<open>
  The whole load client: its arguments, its connections and its buffers. With at most 100 messages a
  run has no receives and the program's own code touches only live memory whatever the kernel delivers, although
  the sends are not awaited before their buffers are freed; with more messages the buffers are freed
  while receives for them are in flight, and a late completion makes the program read them.
\<close>

section \<open>Connecting and buffers\<close>







text \<open>A connection: the completion taken is that of the first entry with its user data.\<close>

definition connect_entry :: "int \<Rightarrow> 8 word list \<Rightarrow> client_sqe" where
  "connect_entry fd addr = \<lparr>cs_data = None, cs_skip = False, cs_req = Connect_to fd addr\<rparr>"

fun is_recv :: "client_request \<Rightarrow> bool" where
  "is_recv (Recv_int fd b off) = True"
| "is_recv _ = False"

definition no_recv :: "client_sqe list \<Rightarrow> bool" where
  "no_recv fl \<longleftrightarrow> (\<forall>q\<in>set fl. \<not> is_recv (cs_req q))"









section \<open>Buffers freed under the kernel\<close>








section \<open>At most 100 messages\<close>









lemma no_recv_sends [simp]: "no_recv (fl @ map (send_entry fd b) xs) \<longleftrightarrow> no_recv fl"
  by (auto simp: no_recv_def send_entry_def)

lemma is_send_connect [simp]: "\<not> is_send (connect_entry fd addr)"
  by (simp add: is_send_def connect_entry_def)


section \<open>Properties\<close>













text \<open>
  The load client checks its arguments before it does anything: it goes on only with an address
  that \<open>inet_pton\<close> accepts, a port of 16 bits and at most ten million messages, and otherwise exits. One
  path does not report and exit: an invalid number in the form \<open>--num_messages=-1\<close> is reported by
  printing \<open>argv[4]\<close>, which is NULL when there are four arguments.
\<close>

lemma client_args_checked:
  "spec (client_args env argv) (\<lambda>f. is_exit f \<or> f = Null_deref \<and> length argv = 4)
     (\<lambda>(ip, port, n). 3 \<le> length argv \<and> ce_pton env (argv ! 1) = Some ip \<and> 0 \<le> port \<and> port \<le> 65535 \<and> n \<le> 10000000) \<and>
   client_args env [p, ip, ''80'', ''--num_messages=-1''] =
     fail (case ce_pton env ip of None \<Rightarrow> Exit_failure ''Invalid server ip'' | Some _ \<Rightarrow> Null_deref)"
proof -
  have num: "spec (client_num_messages argv) is_exit (\<lambda>n. length argv = 4 \<or> length argv = 5 \<or> n = 1000)"
    by (auto simp: client_num_messages_def parse_int_def NUM_MSG_def split: prod.splits)
  have "spec (client_args env argv) (\<lambda>f. is_exit f \<or> f = Null_deref \<and> length argv = 4)
     (\<lambda>(ip, port, n). 3 \<le> length argv \<and> ce_pton env (argv ! 1) = Some ip \<and> 0 \<le> port \<and> port \<le> 65535 \<and> n \<le> 10000000)"
    by (auto simp: client_args_def parse_int_def MAX_NUM_MSG_def split: option.splits prod.splits intro!: spec_mono [OF num])
  moreover have "strtol ''80'' = (80, [])" "strtol ''-1'' = (- 1, [])" by code_simp+
  then have "client_args env [p, ip, ''80'', ''--num_messages=-1''] =
      fail (case ce_pton env ip of None \<Rightarrow> Exit_failure ''Invalid server ip'' | Some _ \<Rightarrow> Null_deref)"
    by (simp add: client_args_def client_num_messages_def num_messages_prefix_def parse_int_def split: option.splits)
  ultimately show ?thesis by blast
qed

end
