(* ===== verification/Cid_Set.thy ===== *)
theory Cid_Set
  imports Utils
begin

text \<open>
  cid_set.c: a hash set of client ids with open addressing and linear probing. The arrays of ids
  are objects of a heap, so that an iterator, which keeps the array's address, is affected by later
  insertions and by the release of the array. Capacities and slots are 64-bit words (they are
  masked); the counts \<open>len\<close> and \<open>idx\<close> are natural numbers, since they count slots that exist.

  malloc gives a block of at least the size asked for (\<open>at_least\<close>; the C standard promises no more
  than that size, real allocators round up): \<open>cid_set_init\<close> depends on the difference. The test of
  the load factor is a comparison of doubles; it is exact while there are at most \<open>2\<^sup>5\<^sup>3\<close> slots,
  which \<open>ids_limit\<close> states of the allocator (a user address space has less than \<open>2\<^sup>5\<^sup>7\<close> bytes).

  \<open>cs_rep (cs, h) S\<close> says that the set in the heap \<open>h\<close> holds exactly the ids \<open>S\<close>.
\<close>

section \<open>Definitions\<close>

type_synonym ids_heap = "64 word list heap"

record cid_set =
  cs_len :: nat
  cs_cap :: "64 word"
  cs_ids :: nat

record cid_iter =
  it_idx :: nat
  it_len :: nat
  it_ids :: nat

definition INIT_CAP :: "64 word" where
  "INIT_CAP = 8"

definition EMPTY_VAL :: "64 word" where
  "EMPTY_VAL = 18446744073709551615"

definition cs_hash :: "64 word \<Rightarrow> 64 word \<Rightarrow> 64 word" where
  "cs_hash cid cap = (cid * 11400714819323198485) AND (cap - 1)"

text \<open>malloc of an array of \<open>n\<close> ids, and access to an element of an array.\<close>

definition at_least :: "nat \<Rightarrow> 64 word list \<Rightarrow> 64 word list" where
  "at_least n b = b @ replicate (n - length b) 0"

definition malloc_ids :: "nat \<Rightarrow> ids_heap \<Rightarrow> (nat \<times> ids_heap) option" where
  "malloc_ids n h = (if arr_ok h n then malloc (at_least n) h else None)"

definition ids_read :: "ids_heap \<Rightarrow> nat \<Rightarrow> nat \<Rightarrow> 64 word comp" where
  "ids_read h a i = bindC (hget h a) (\<lambda>b. aread b i)"

definition ids_write :: "nat \<Rightarrow> nat \<Rightarrow> 64 word \<Rightarrow> ids_heap \<Rightarrow> ids_heap comp" where
  "ids_write a i v h = bindC (hget h a) (\<lambda>b. bindC (awrite b i v) (\<lambda>b. hput h a b))"

text \<open>The loop of \<open>cid_set_init\<close> runs while \<open>i <= set->cap\<close>.\<close>

definition cid_set_init :: "ids_heap \<Rightarrow> (cid_set \<times> ids_heap) comp" where
  "cid_set_init h = (case malloc_ids (unat INIT_CAP) h of
       None \<Rightarrow> fail (Exit_failure ''cid_set_init malloc'')
     | Some (a, h) \<Rightarrow>
         bindC (foldC (\<lambda>i. ids_write a i EMPTY_VAL) [0..<Suc (unat INIT_CAP)] h) (\<lambda>h.
         ret (\<lparr>cs_len = 0, cs_cap = INIT_CAP, cs_ids = a\<rparr>, h)))"

text \<open>
  The probing loop of \<open>cid_set_exists\<close> and \<open>insert\<close>: whether the id was met, and the slot where the
  loop stopped.
\<close>

partial_function (option) cs_probe ::
  "ids_heap \<Rightarrow> nat \<Rightarrow> 64 word \<Rightarrow> 64 word \<Rightarrow> 64 word \<Rightarrow> (bool \<times> 64 word) comp" where
  "cs_probe h a cap cid i =
     bindC (ids_read h a (unat i)) (\<lambda>v.
     if v \<noteq> EMPTY_VAL
     then if v = cid then ret (True, i) else cs_probe h a cap cid ((i + 1) AND (cap - 1))
     else ret (False, i))"

declare cs_probe.simps [code]

definition cid_set_exists :: "cid_set \<Rightarrow> ids_heap \<Rightarrow> 64 word \<Rightarrow> bool comp" where
  "cid_set_exists cs h cid =
     bindC (cs_probe h (cs_ids cs) (cs_cap cs) cid (cs_hash cid (cs_cap cs))) (\<lambda>(found, i). ret found)"

definition cs_insert :: "cid_set \<Rightarrow> ids_heap \<Rightarrow> 64 word \<Rightarrow> (cid_set \<times> ids_heap) comp" where
  "cs_insert cs h cid =
     bindC (cs_probe h (cs_ids cs) (cs_cap cs) cid (cs_hash cid (cs_cap cs))) (\<lambda>(found, i).
     if found then ret (cs, h)
     else bindC (ids_write (cs_ids cs) (unat i) cid h) (\<lambda>h.
          ret (cs\<lparr>cs_len := Suc (cs_len cs)\<rparr>, h)))"

text \<open>The body of the loop that moves the ids of the old array into the new one.\<close>

definition cs_rehash :: "nat \<Rightarrow> nat \<Rightarrow> cid_set \<times> ids_heap \<Rightarrow> (cid_set \<times> ids_heap) comp" where
  "cs_rehash old_ids i = (\<lambda>(cs, h).
     bindC (ids_read h old_ids i) (\<lambda>v. if v \<noteq> EMPTY_VAL then cs_insert cs h v else ret (cs, h)))"

definition cid_set_grow :: "cid_set \<Rightarrow> ids_heap \<Rightarrow> (cid_set \<times> ids_heap) comp" where
  "cid_set_grow cs h =
     (let old_ids = cs_ids cs; old_cap = cs_cap cs; cap = cs_cap cs * 2 in
      case malloc_ids (unat cap) h of
        None \<Rightarrow> fail (Exit_failure ''cid_set_grow malloc'')
      | Some (a, h) \<Rightarrow>
          bindC (foldC (\<lambda>i. ids_write a i EMPTY_VAL) [0..<unat cap] h) (\<lambda>h.
          bindC (foldC (cs_rehash old_ids) [0..<unat old_cap]
                   (cs\<lparr>cs_cap := cap, cs_ids := a, cs_len := 0\<rparr>, h)) (\<lambda>(cs, h).
          bindC (hfree h (Some old_ids)) (\<lambda>h. ret (cs, h)))))"

definition cid_set_insert :: "cid_set \<Rightarrow> ids_heap \<Rightarrow> 64 word \<Rightarrow> (cid_set \<times> ids_heap) comp" where
  "cid_set_insert cs h cid =
     (if cid = EMPTY_VAL then fail (Exit_failure ''illegal value for id (UINT64_MAX)'')
      else bindC
        (if 4 * cs_len cs \<ge> 3 * unat (cs_cap cs) then cid_set_grow cs h else ret (cs, h)) (\<lambda>(cs, h).
        cs_insert cs h cid))"

definition cid_set_iter :: "cid_set \<Rightarrow> cid_iter" where
  "cid_set_iter cs = \<lparr>it_idx = 0, it_len = unat (cs_cap cs), it_ids = cs_ids cs\<rparr>"

function next_batch_loop ::
  "ids_heap \<Rightarrow> cid_iter \<Rightarrow> nat \<Rightarrow> 64 word list \<Rightarrow> nat \<Rightarrow> (nat \<times> 64 word list \<times> cid_iter) comp" where
  "next_batch_loop h iter batch_size batch i =
     (if it_idx iter < it_len iter \<and> i < batch_size
      then bindC (ids_read h (it_ids iter) (it_idx iter)) (\<lambda>v.
           if v = EMPTY_VAL
           then next_batch_loop h (iter\<lparr>it_idx := Suc (it_idx iter)\<rparr>) batch_size batch i
           else bindC (awrite batch i v) (\<lambda>batch.
                next_batch_loop h (iter\<lparr>it_idx := Suc (it_idx iter)\<rparr>) batch_size batch (Suc i)))
      else ret (i, batch, iter))"
  by pat_completeness auto
termination
  by (relation "measure (\<lambda>(h, iter, n, batch, i). it_len iter - it_idx iter)") auto

declare next_batch_loop.simps [simp del]

text \<open>The count of ids delivered, the caller's array (its elements from the count on unchanged) and the iterator.\<close>

definition cid_iter_next_batch ::
  "ids_heap \<Rightarrow> cid_iter \<Rightarrow> nat \<Rightarrow> 64 word list \<Rightarrow> (nat \<times> 64 word list \<times> cid_iter) comp" where
  "cid_iter_next_batch h iter batch_size batch = next_batch_loop h iter batch_size batch 0"

section \<open>Linear probing on a list\<close>

definition live :: "64 word list \<Rightarrow> 64 word list" where
  "live t = filter (\<lambda>v. v \<noteq> EMPTY_VAL) t"

text \<open>The slot that is \<open>e\<close> steps after \<open>s\<close>, cyclically.\<close>

definition slot :: "64 word list \<Rightarrow> nat \<Rightarrow> nat \<Rightarrow> 64 word" where
  "slot t s e = t ! ((s + e) mod length t)"

text \<open>Every id is reached from its hash over occupied slots, and no id is there twice.\<close>

definition probe_table :: "(64 word \<Rightarrow> nat) \<Rightarrow> 64 word list \<Rightarrow> bool" where
  "probe_table hs t \<longleftrightarrow> distinct (live t) \<and>
     (\<forall>i<length t. t ! i \<noteq> EMPTY_VAL \<longrightarrow>
        (\<exists>d. (hs (t ! i) + d) mod length t = i \<and> (\<forall>e<d. slot t (hs (t ! i)) e \<noteq> EMPTY_VAL)))"

text \<open>Where the loop stops: the first slot from \<open>s\<close> that is empty or holds the id.\<close>

definition stops :: "64 word list \<Rightarrow> 64 word \<Rightarrow> nat \<Rightarrow> nat \<Rightarrow> bool" where
  "stops t cid s d \<longleftrightarrow> slot t s d \<in> {EMPTY_VAL, cid} \<and> (\<forall>e<d. slot t s e \<notin> {EMPTY_VAL, cid})"

lemma live_append [simp]: "live (xs @ ys) = live xs @ live ys"
  by (simp add: live_def)

lemma set_live: "set (live t) = set t - {EMPTY_VAL}"
  by (auto simp: live_def)

lemma live_replicate [simp]: "live (replicate n EMPTY_VAL) = []"
  by (simp add: live_def)

lemma length_live: "length (live t) \<le> length t"
  by (simp add: live_def)

lemma live_full: "length (live t) < length t \<longleftrightarrow> EMPTY_VAL \<in> set t"
  unfolding live_def by (metis (mono_tags, lifting) filter_True length_filter_less linorder_not_less order_refl)

lemma live_fill:
  assumes "i < length t" and "t ! i = EMPTY_VAL" and "cid \<noteq> EMPTY_VAL"
  shows "set (live (t[i := cid])) = insert cid (set (live t))"
    and "length (live (t[i := cid])) = Suc (length (live t))"
    and "cid \<notin> set (live t) \<Longrightarrow> distinct (live t) \<Longrightarrow> distinct (live (t[i := cid]))"
proof -
  have "t = take i t @ EMPTY_VAL # drop (Suc i) t" using assms by (metis id_take_nth_drop)
  then have "live t = live (take i t @ EMPTY_VAL # drop (Suc i) t)" by (rule arg_cong)
  then have l: "live t = live (take i t) @ live (drop (Suc i) t)" by (simp add: live_def)
  have "t[i := cid] = take i t @ cid # drop (Suc i) t" using assms by (simp add: upd_conv_take_nth_drop)
  then have r: "live (t[i := cid]) = live (take i t) @ cid # live (drop (Suc i) t)"
    using assms(3) by (simp add: live_def)
  show "set (live (t[i := cid])) = insert cid (set (live t))"
    and "length (live (t[i := cid])) = Suc (length (live t))"
    and "cid \<notin> set (live t) \<Longrightarrow> distinct (live t) \<Longrightarrow> distinct (live (t[i := cid]))"
    unfolding r unfolding l by auto
qed

lemma stops_exists:
  assumes "EMPTY_VAL \<in> set t" and "s < length t"
  shows "\<exists>d. stops t cid s d"
proof -
  from assms(1) obtain j where j: "j < length t" "t ! j = EMPTY_VAL" by (auto simp: in_set_conv_nth)
  have "(s + (length t - s + j)) mod length t = j" using assms(2) j by simp
  then have "slot t s (length t - s + j) \<in> {EMPTY_VAL, cid}" using j by (simp add: slot_def)
  then show ?thesis
    unfolding stops_def using exists_least_iff [of "\<lambda>d. slot t s d \<in> {EMPTY_VAL, cid}"] by blast
qed

lemma stops_member:
  assumes tab: "probe_table hs t" and st: "stops t cid (hs cid) d" and "cid \<noteq> EMPTY_VAL" and "t \<noteq> []"
  shows "slot t (hs cid) d = cid \<longleftrightarrow> cid \<in> set (live t)"
proof
  assume "slot t (hs cid) d = cid"
  moreover have "slot t (hs cid) d \<in> set t" using \<open>t \<noteq> []\<close> by (simp add: slot_def)
  ultimately show "cid \<in> set (live t)" using \<open>cid \<noteq> EMPTY_VAL\<close> by (simp add: set_live)
next
  assume "cid \<in> set (live t)"
  then obtain i where i: "i < length t" "t ! i = cid" by (auto simp: set_live in_set_conv_nth)
  with tab \<open>cid \<noteq> EMPTY_VAL\<close> obtain d' where d': "(hs cid + d') mod length t = i" "\<forall>e<d'. slot t (hs cid) e \<noteq> EMPTY_VAL"
    unfolding probe_table_def by blast
  then have "slot t (hs cid) d' = cid" using i by (simp add: slot_def)
  then have "d \<le> d'" using st unfolding stops_def by (metis insertCI linorder_not_less)
  then show "slot t (hs cid) d = cid"
    using st d'(2) \<open>slot t (hs cid) d' = cid\<close> unfolding stops_def by (metis insertE le_neq_implies_less singletonD)
qed

text \<open>Writing an id into the empty slot where its probing stops.\<close>

lemma probe_table_fill:
  assumes tab: "probe_table hs t" and st: "stops t cid (hs cid) d" and cid: "cid \<noteq> EMPTY_VAL" and t: "t \<noteq> []"
    and empty: "slot t (hs cid) d = EMPTY_VAL"
  shows "probe_table hs (t[(hs cid + d) mod length t := cid])"
proof -
  let ?j = "(hs cid + d) mod length t" and ?t = "t[(hs cid + d) mod length t := cid]"
  have j: "?j < length t" "t ! ?j = EMPTY_VAL" using t empty by (simp_all add: slot_def)
  have "cid \<notin> set (live t)" using stops_member [OF tab st cid t] empty cid by simp
  with tab have dist: "distinct (live ?t)" using live_fill(3) [OF j cid] by (simp add: probe_table_def)
  have mono: "slot ?t s e \<noteq> EMPTY_VAL" if "slot t s e \<noteq> EMPTY_VAL" for s e
    using that cid j by (simp add: slot_def nth_list_update)
  have "\<exists>d'. (hs (?t ! i) + d') mod length t = i \<and> (\<forall>e<d'. slot ?t (hs (?t ! i)) e \<noteq> EMPTY_VAL)"
    if i: "i < length t" "?t ! i \<noteq> EMPTY_VAL" for i
  proof (cases "i = ?j")
    case True
    then show ?thesis using j(1) st mono by (auto simp: stops_def intro!: exI [of _ d])
  next
    case False
    then have "?t ! i = t ! i" by simp
    with i tab obtain d' where "(hs (t ! i) + d') mod length t = i" "\<forall>e<d'. slot t (hs (t ! i)) e \<noteq> EMPTY_VAL"
      unfolding probe_table_def by metis
    with mono \<open>?t ! i = t ! i\<close> show ?thesis by metis
  qed
  with dist show ?thesis by (simp add: probe_table_def)
qed

lemma probe_table_empty [simp]: "probe_table hs (replicate n EMPTY_VAL)"
  by (simp add: probe_table_def)

section \<open>Representation\<close>

definition ids_table :: "cid_set \<Rightarrow> ids_heap \<Rightarrow> 64 word list" where
  "ids_table cs h = take (unat (cs_cap cs)) (the (cells h (cs_ids cs)))"

abbreviation cs_start :: "64 word \<Rightarrow> 64 word \<Rightarrow> nat" where
  "cs_start cap \<equiv> \<lambda>cid. unat (cs_hash cid cap)"

definition cs_core :: "cid_set \<times> ids_heap \<Rightarrow> 64 word set \<Rightarrow> bool" where
  "cs_core = (\<lambda>(cs, h) S. (\<exists>k\<le>54. cs_cap cs = 2 ^ k) \<and> cells h (cs_ids cs) \<noteq> None \<and>
     unat (cs_cap cs) \<le> length (the (cells h (cs_ids cs))) \<and>
     probe_table (cs_start (cs_cap cs)) (ids_table cs h) \<and>
     cs_len cs = length (live (ids_table cs h)) \<and> S = set (live (ids_table cs h)))"

definition ids_limit :: "ids_heap \<Rightarrow> bool" where
  "ids_limit h \<longleftrightarrow> (\<forall>n. arr_ok h n \<longrightarrow> n \<le> 2 ^ 53)"

definition cs_rep :: "cid_set \<times> ids_heap \<Rightarrow> 64 word set \<Rightarrow> bool" where
  "cs_rep = (\<lambda>(cs, h) S. heap_wf h \<and> ids_limit h \<and> cs_core (cs, h) S \<and>
     8 \<le> cs_cap cs \<and> cs_cap cs \<le> 2 ^ 53 \<and> 4 * cs_len cs \<le> 3 * unat (cs_cap cs))"

lemma unat_pow2: "k < 64 \<Longrightarrow> unat (2 ^ k :: 64 word) = 2 ^ k"
  using unat_of_nat_64 [of "2 ^ k"] power_strict_increasing [of k 64 "2 :: nat"] by simp

lemma unat_and_pow2:
  assumes "k < 64"
  shows "unat ((x :: 64 word) AND (2 ^ k - 1)) = unat x mod 2 ^ k"
proof -
  have "(2 ^ k - 1 :: 64 word) = mask k" by (simp add: mask_eq_exp_minus_1)
  then have "x AND (2 ^ k - 1) = take_bit k x" by (simp only: take_bit_eq_mask)
  then show ?thesis by (simp only: take_bit_eq_mod unat_mod unat_pow2 [OF assms])
qed

lemma cs_core_cap:
  assumes "cs_core (cs, h) S"
  shows "cs_cap cs \<noteq> 0" and "length (ids_table cs h) = unat (cs_cap cs)" and "ids_table cs h \<noteq> []"
    and "0 < unat (cs_cap cs)" and "unat (cs_cap cs) \<le> 2 ^ 54"
    and "unat ((i + 1) AND (cs_cap cs - 1)) = unat (i + 1) mod unat (cs_cap cs)"
    and "cs_start (cs_cap cs) cid < unat (cs_cap cs)"
    and "finite S" "card S = cs_len cs" "EMPTY_VAL \<notin> S"
proof -
  obtain k where k: "k \<le> 54" "cs_cap cs = 2 ^ k" using assms by (auto simp: cs_core_def)
  then have u: "unat (cs_cap cs) = 2 ^ k" by (simp add: unat_pow2)
  show c: "cs_cap cs \<noteq> 0" "0 < unat (cs_cap cs)" using u by (auto simp: unat_gt_0 [symmetric])
  show l: "length (ids_table cs h) = unat (cs_cap cs)" using assms by (simp add: cs_core_def ids_table_def)
  show "ids_table cs h \<noteq> []" using l c by auto
  show "unat (cs_cap cs) \<le> 2 ^ 54" unfolding u using k(1) by (rule power_increasing) simp
  show "unat ((i + 1) AND (cs_cap cs - 1)) = unat (i + 1) mod unat (cs_cap cs)"
    unfolding u unfolding k(2) using k(1) by (simp add: unat_and_pow2)
  show "cs_start (cs_cap cs) cid < unat (cs_cap cs)"
    unfolding cs_hash_def using c by (intro unat_mask_less)
  show "finite S" "card S = cs_len cs" using assms by (simp_all add: cs_core_def probe_table_def distinct_card)
  show "EMPTY_VAL \<notin> S" using assms by (simp add: cs_core_def set_live)
qed

section \<open>Probing\<close>

lemma cs_probe_stops:
  assumes core: "cs_core (cs, h) S" and "stops (ids_table cs h) cid (unat i) d" and "unat i < unat (cs_cap cs)"
  shows "cs_probe h (cs_ids cs) (cs_cap cs) cid i =
    ret (slot (ids_table cs h) (unat i) d \<noteq> EMPTY_VAL, of_nat ((unat i + d) mod unat (cs_cap cs)))"
  using assms(2,3)
proof (induction d arbitrary: i)
  case 0
  then have "slot (ids_table cs h) (unat i) 0 \<in> {EMPTY_VAL, cid}" by (simp add: stops_def)
  with 0 core show ?case
    by (subst cs_probe.simps) (auto simp: cs_core_def ids_read_def hget_def aread_def slot_def ids_table_def)
next
  case (Suc d)
  let ?n = "unat (cs_cap cs)" and ?i = "(i + 1) AND (cs_cap cs - 1)" and ?t = "ids_table cs h"
  have "unat i + 1 \<le> 2 ^ 54" using Suc.prems(2) cs_core_cap(5) [OF core] by simp
  then have "unat (i + 1) = unat i + 1" by (simp add: unat_word_ariths)
  then have i': "unat ?i = (unat i + 1) mod ?n" using cs_core_cap(6) [OF core] by simp
  then have lt: "unat ?i < ?n" using cs_core_cap(4) [OF core] by simp
  have shift: "(unat ?i + e) mod ?n = (unat i + Suc e) mod ?n" for e
    unfolding i' by (simp add: mod_simps)
  then have sl: "slot ?t (unat ?i) e = slot ?t (unat i) (Suc e)" for e
    using cs_core_cap(2) [OF core] by (simp add: slot_def)
  have "stops ?t cid (unat ?i) d" using Suc.prems(1) sl by (auto simp: stops_def)
  from Suc.IH [OF this lt] have "cs_probe h (cs_ids cs) (cs_cap cs) cid ?i =
      ret (slot ?t (unat i) (Suc d) \<noteq> EMPTY_VAL, of_nat ((unat i + Suc d) mod ?n))"
    unfolding sl shift .
  moreover have "slot ?t (unat i) 0 \<notin> {EMPTY_VAL, cid}" using Suc.prems(1) by (auto simp: stops_def)
  ultimately show ?case
    using Suc.prems(2) core
    by (subst cs_probe.simps) (auto simp: cs_core_def ids_read_def hget_def aread_def slot_def ids_table_def)
qed

text \<open>With a free slot in the array, probing for an id ends and tells whether the id is in the set.\<close>

lemma cs_probe_result:
  assumes core: "cs_core (cs, h) S" and room: "cs_len cs < unat (cs_cap cs)" and cid: "cid \<noteq> EMPTY_VAL"
  obtains d where "stops (ids_table cs h) cid (cs_start (cs_cap cs) cid) d"
    "cs_probe h (cs_ids cs) (cs_cap cs) cid (cs_hash cid (cs_cap cs)) =
      ret (cid \<in> S, of_nat ((cs_start (cs_cap cs) cid + d) mod unat (cs_cap cs)))"
    "slot (ids_table cs h) (cs_start (cs_cap cs) cid) d = (if cid \<in> S then cid else EMPTY_VAL)"
proof -
  let ?t = "ids_table cs h" and ?s = "cs_start (cs_cap cs) cid"
  have S: "S = set (live ?t)" and tab: "probe_table (cs_start (cs_cap cs)) ?t" and "cs_len cs = length (live ?t)"
    using core by (simp_all add: cs_core_def)
  then have "EMPTY_VAL \<in> set ?t" using room cs_core_cap(2) [OF core] live_full [of ?t] by simp
  then obtain d where d: "stops ?t cid ?s d"
    using stops_exists [of ?t ?s cid] cs_core_cap(2,7) [OF core] by auto
  have mem: "slot ?t ?s d = cid \<longleftrightarrow> cid \<in> S"
    using stops_member [OF tab d cid cs_core_cap(3) [OF core]] S by simp
  moreover have "slot ?t ?s d \<in> {EMPTY_VAL, cid}" using d by (simp add: stops_def)
  ultimately have sl: "slot ?t ?s d = (if cid \<in> S then cid else EMPTY_VAL)" by auto
  show thesis
    by (rule that [OF d]) (use cs_probe_stops [OF core d cs_core_cap(7) [OF core]] sl cid in auto)
qed

lemma cs_exists_core:
  assumes core: "cs_core (cs, h) S" and room: "cs_len cs < unat (cs_cap cs)"
  shows "cid_set_exists cs h cid = ret (cid \<in> S)"
proof (cases "cid = EMPTY_VAL")
  case False
  then show ?thesis using cs_probe_result [OF core room False] by (metis bindC_simps(1) case_prod_conv cid_set_exists_def)
next
  case True
  let ?t = "ids_table cs h" and ?s = "cs_start (cs_cap cs) cid"
  have "EMPTY_VAL \<in> set ?t" using core room cs_core_cap(2) [OF core] live_full [of ?t] by (simp add: cs_core_def)
  then obtain d where d: "stops ?t cid ?s d"
    using stops_exists [of ?t ?s cid] cs_core_cap(2,7) [OF core] by auto
  then show ?thesis
    using cs_probe_stops [OF core d cs_core_cap(7) [OF core]] True cs_core_cap(10) [OF core]
    by (simp add: cid_set_exists_def stops_def)
qed

lemma cs_insert_core:
  assumes core: "cs_core (cs, h) S" and room: "cs_len cs < unat (cs_cap cs)" and cid: "cid \<noteq> EMPTY_VAL"
  shows "\<exists>cs' b. cs_insert cs h cid = ret (cs', h\<lparr>cells := (cells h)(cs_ids cs \<mapsto> b)\<rparr>) \<and>
    cs_core (cs', h\<lparr>cells := (cells h)(cs_ids cs \<mapsto> b)\<rparr>) (insert cid S) \<and>
    cs_cap cs' = cs_cap cs \<and> cs_ids cs' = cs_ids cs \<and>
    cs_len cs' = (if cid \<in> S then cs_len cs else Suc (cs_len cs))"
proof -
  let ?t = "ids_table cs h" and ?hs = "cs_start (cs_cap cs)" and ?n = "unat (cs_cap cs)"
  obtain d where d: "stops ?t cid (?hs cid) d"
    and pr: "cs_probe h (cs_ids cs) (cs_cap cs) cid (cs_hash cid (cs_cap cs)) = ret (cid \<in> S, of_nat ((?hs cid + d) mod ?n))"
    and sl: "slot ?t (?hs cid) d = (if cid \<in> S then cid else EMPTY_VAL)"
    using core room cid by (rule cs_probe_result)
  obtain b where b: "cells h (cs_ids cs) = Some b" "?n \<le> length b" using core by (auto simp: cs_core_def)
  show ?thesis
  proof (cases "cid \<in> S")
    case True
    then have "cs_insert cs h cid = ret (cs, h\<lparr>cells := (cells h)(cs_ids cs \<mapsto> b)\<rparr>)"
      and "cs_core (cs, h\<lparr>cells := (cells h)(cs_ids cs \<mapsto> b)\<rparr>) (insert cid S)"
      using pr b core by (simp_all add: cs_insert_def fun_upd_idem insert_absorb)
    with True show ?thesis by auto
  next
    case False
    define j where "j = (?hs cid + d) mod ?n"
    have j: "j < ?n" using cs_core_cap(4) [OF core] by (simp add: j_def)
    have uj: "unat (of_nat j :: 64 word) = j"
      using j cs_core_cap(5) [OF core] by (intro unat_of_nat_64) simp
    have len: "length ?t = ?n" using cs_core_cap(2) [OF core] .
    have tj: "?t ! j = EMPTY_VAL" "j < length ?t" using sl False len j by (simp_all add: slot_def j_def)
    let ?h = "h\<lparr>cells := (cells h)(cs_ids cs \<mapsto> b[j := cid])\<rparr>" and ?cs = "cs\<lparr>cs_len := Suc (cs_len cs)\<rparr>"
    have t': "ids_table ?cs ?h = ?t[j := cid]"
      using b j by (simp add: ids_table_def take_update_swap)
    have "cs_insert cs h cid = ret (?cs, ?h)"
      using pr False b j uj by (simp add: cs_insert_def ids_write_def hget_def awrite_def hput_def flip: j_def)
    moreover have "probe_table ?hs (?t[j := cid])"
      using probe_table_fill [of ?hs ?t cid d] core d cid cs_core_cap(3) [OF core] sl False len
      by (simp add: cs_core_def j_def)
    then have "cs_core (?cs, ?h) (insert cid S)"
      using core b live_fill(1,2) [OF tj(2,1) cid] t' by (simp add: cs_core_def)
    ultimately show ?thesis using False by (intro exI [of _ ?cs] exI [of _ "b[j := cid]"]) simp
  qed
qed

section \<open>Creating and growing the array\<close>

lemma ids_fill:
  assumes "cells h a = Some b" and "n \<le> length b"
  shows "foldC (\<lambda>i. ids_write a i EMPTY_VAL) [0..<n] h =
    ret (h\<lparr>cells := (cells h)(a \<mapsto> replicate n EMPTY_VAL @ drop n b)\<rparr>)"
proof -
  let ?I = "\<lambda>i t. t = h\<lparr>cells := (cells h)(a \<mapsto> replicate i EMPTY_VAL @ drop i b)\<rparr>"
  have "spec (foldC (\<lambda>i. ids_write a i EMPTY_VAL) [0..<n] h) no_fault (?I n)"
  proof (rule spec_foldC_range)
    fix i t assume "i < n" "?I i t"
    moreover have "(replicate i EMPTY_VAL @ drop i b)[i := EMPTY_VAL] = replicate (Suc i) EMPTY_VAL @ drop (Suc i) b"
      using \<open>i < n\<close> assms(2) by (simp add: list_update_append Cons_nth_drop_Suc [symmetric] replicate_append_same)
    ultimately show "spec (ids_write a i EMPTY_VAL t) no_fault (?I (Suc i))"
      using assms by (auto simp: ids_write_def no_fault_def)
  qed (use assms in \<open>simp_all add: fun_upd_idem\<close>)
  then show ?thesis by (auto simp: spec_ret_iff)
qed

lemma malloc_ids_Some:
  assumes "malloc_ids n h = Some (a, h')"
  obtains b where "n \<le> length b" "a = brk h" "arr_ok h n"
    "h' = h\<lparr>cells := (cells h)(brk h \<mapsto> b), brk := Suc (brk h)\<rparr>"
proof -
  from assms obtain c where "fresh h (brk h) = Some c" "arr_ok h n" "a = brk h"
    "h' = h\<lparr>cells := (cells h)(brk h \<mapsto> at_least n c), brk := Suc (brk h)\<rparr>"
    by (auto simp: malloc_ids_def malloc_def split: if_splits option.splits)
  then show thesis by (intro that [of "at_least n c"]) (simp_all add: at_least_def)
qed

text \<open>\<open>cid_set_init\<close> writes nine slots: it works only on a block larger than the one asked for.\<close>

lemma cs_init_cases:
  assumes "heap_wf h" and "ids_limit h"
  shows "case malloc_ids 8 h of
      None \<Rightarrow> cid_set_init h = fail (Exit_failure ''cid_set_init malloc'')
    | Some (a, h1) \<Rightarrow>
        if length (the (cells h1 a)) = 8 then cid_set_init h = fail Out_of_bounds
        else spec (cid_set_init h) no_fault (\<lambda>(cs, h'). cs_rep (cs, h') {} \<and> cs_ids cs = brk h \<and> fresh h' = fresh h \<and>
          (\<forall>x. x \<noteq> brk h \<longrightarrow> cells h' x = cells h x))"
proof (cases "malloc_ids 8 h")
  case None
  then show ?thesis by (simp add: cid_set_init_def INIT_CAP_def)
next
  case (Some p)
  obtain a h1 where p: "p = (a, h1)" by (cases p)
  obtain b where b: "8 \<le> length b" "a = brk h" "arr_ok h 8"
    "h1 = h\<lparr>cells := (cells h)(brk h \<mapsto> b), brk := Suc (brk h)\<rparr>"
    using Some p by (auto elim: malloc_ids_Some)
  let ?b = "replicate 8 EMPTY_VAL @ drop 8 b"
  let ?h = "h1\<lparr>cells := (cells h1)(a \<mapsto> ?b)\<rparr>"
  have fill: "foldC (\<lambda>i. ids_write a i EMPTY_VAL) [0..<8] h1 = ret ?h"
    by (rule ids_fill) (use b in simp_all)
  have nine: "foldC (\<lambda>i. ids_write a i EMPTY_VAL) [0..<Suc 8] h1 = ids_write a 8 EMPTY_VAL ?h"
    by (simp only: upt_Suc_append [OF zero_le] foldC_snoc fill bindC_simps)
  show ?thesis
  proof (cases "length b = 8")
    case True
    then show ?thesis
      using Some p b nine by (simp add: cid_set_init_def INIT_CAP_def ids_write_def hget_def awrite_def)
  next
    case False
    let ?b' = "?b[8 := EMPTY_VAL]" and ?cs = "\<lparr>cs_len = 0, cs_cap = 8, cs_ids = brk h\<rparr>"
    let ?h' = "h\<lparr>cells := (cells h)(brk h \<mapsto> ?b'), brk := Suc (brk h)\<rparr>"
    have "cid_set_init h = ret (?cs, ?h')"
      using Some p b nine False by (simp add: cid_set_init_def INIT_CAP_def ids_write_def hget_def awrite_def hput_def)
    moreover have t: "ids_table ?cs ?h' = replicate 8 EMPTY_VAL"
      by (simp add: ids_table_def take_update_swap list_update_beyond)
    then have "cs_core (?cs, ?h') {}"
      using b by (auto simp: cs_core_def intro!: exI [of _ 3])
    then have "cs_rep (?cs, ?h') {}"
      using assms by (simp add: cs_rep_def ids_limit_def)
    ultimately show ?thesis using Some p b False by simp
  qed
qed

lemma cs_core_frame:
  "cells h' (cs_ids cs) = cells h (cs_ids cs) \<Longrightarrow> cs_core (cs, h') S \<longleftrightarrow> cs_core (cs, h) S"
  by (simp add: cs_core_def ids_table_def)

lemma cs_rehash_all:
  assumes old: "cells h old = Some bo" "n \<le> length bo" "old \<noteq> cs_ids cs"
    and core: "cs_core (cs, h) {}" and room: "n < unat (cs_cap cs)" and dist: "distinct (live (take n bo))"
  shows "spec (foldC (cs_rehash old) [0..<n] (cs, h)) no_fault (\<lambda>(cs', h').
    cs_core (cs', h') (set (live (take n bo))) \<and> cs_cap cs' = cs_cap cs \<and> cs_ids cs' = cs_ids cs \<and>
    (\<exists>b. h' = h\<lparr>cells := (cells h)(cs_ids cs \<mapsto> b)\<rparr>))"
proof -
  let ?I = "\<lambda>i (cs', h'). cs_core (cs', h') (set (live (take i bo))) \<and> cs_cap cs' = cs_cap cs \<and>
    cs_ids cs' = cs_ids cs \<and> (\<exists>b. h' = h\<lparr>cells := (cells h)(cs_ids cs \<mapsto> b)\<rparr>)"
  show ?thesis
  proof (rule spec_foldC_range [where I = ?I])
    obtain b where "cells h (cs_ids cs) = Some b" using core by (auto simp: cs_core_def)
    then have "h = h\<lparr>cells := (cells h)(cs_ids cs \<mapsto> b)\<rparr>" by (simp add: fun_upd_idem)
    then show "?I 0 (cs, h)" using core by (auto simp: live_def)
  next
    fix i p assume i: "i < n" and I: "?I i p"
    obtain cs' h' where p: "p = (cs', h')" by (cases p)
    from I p obtain b where h': "h' = h\<lparr>cells := (cells h)(cs_ids cs \<mapsto> b)\<rparr>" and c: "cs_core (cs', h') (set (live (take i bo)))"
      and cap: "cs_cap cs' = cs_cap cs" "cs_ids cs' = cs_ids cs" by auto
    have rd: "cells h' old = Some bo" using h' old by simp
    have step: "live (take (Suc i) bo) = live (take i bo) @ (if bo ! i = EMPTY_VAL then [] else [bo ! i])"
      using i old(2) by (simp add: take_Suc_conv_app_nth live_def)
    show "spec (cs_rehash old i p) no_fault (?I (Suc i))"
    proof (cases "bo ! i = EMPTY_VAL")
      case True
      then show ?thesis
        using p rd i old(2) step c cap h' by (auto simp: cs_rehash_def ids_read_def)
    next
      case False
      have "cs_len cs' \<le> i" using cs_core_cap(9) [OF c] card_length [of "live (take i bo)"] length_live [of "take i bo"] by simp
      then have "cs_len cs' < unat (cs_cap cs')" using i room cap by simp
      from cs_insert_core [OF c this False] obtain cs2 b2 where ins:
        "cs_insert cs' h' (bo ! i) = ret (cs2, h'\<lparr>cells := (cells h')(cs_ids cs' \<mapsto> b2)\<rparr>)"
        "cs_core (cs2, h'\<lparr>cells := (cells h')(cs_ids cs' \<mapsto> b2)\<rparr>) (insert (bo ! i) (set (live (take i bo))))"
        "cs_cap cs2 = cs_cap cs'" "cs_ids cs2 = cs_ids cs'" by auto
      have "h'\<lparr>cells := (cells h')(cs_ids cs' \<mapsto> b2)\<rparr> = h\<lparr>cells := (cells h)(cs_ids cs \<mapsto> b2)\<rparr>" using h' cap by simp
      then show ?thesis
        using p rd i old(2) step False ins cap by (auto simp: cs_rehash_def ids_read_def)
    qed
  qed simp
qed

lemma cs_grow_cap:
  assumes "cs_core (cs, h) S" and "cs_cap cs \<le> 2 ^ 53"
  shows "unat (cs_cap cs * 2) = 2 * unat (cs_cap cs)" and "\<exists>k\<le>54. cs_cap cs * 2 = 2 ^ k"
proof -
  obtain k where k: "k \<le> 54" "cs_cap cs = 2 ^ k" using assms(1) by (auto simp: cs_core_def)
  have n: "unat (cs_cap cs) \<le> 2 ^ 53" using assms(2) by (simp add: word_le_nat_alt)
  then show "unat (cs_cap cs * 2) = 2 * unat (cs_cap cs)" by (simp add: unat_word_ariths)
  have "(2 :: nat) ^ k \<le> 2 ^ 53" using k n by (simp add: unat_pow2)
  then have "k \<le> 53" using power_le_imp_le_exp [of "2 :: nat" k 53] by simp
  then show "\<exists>k\<le>54. cs_cap cs * 2 = 2 ^ k" using k by (intro exI [of _ "Suc k"]) simp
qed

text \<open>The new array is filled and every id of the old one is inserted into it.\<close>

lemma cs_grow_copied:
  assumes wf: "heap_wf h" and core: "cs_core (cs, h) S" and cap: "cs_cap cs \<le> 2 ^ 53"
    and b: "unat (cs_cap cs * 2) \<le> length b" and h1: "h1 = h\<lparr>cells := (cells h)(brk h \<mapsto> b), brk := Suc (brk h)\<rparr>"
  shows "spec (bindC (foldC (\<lambda>i. ids_write (brk h) i EMPTY_VAL) [0..<unat (cs_cap cs * 2)] h1) (\<lambda>h'.
      foldC (cs_rehash (cs_ids cs)) [0..<unat (cs_cap cs)] (cs\<lparr>cs_cap := cs_cap cs * 2, cs_ids := brk h, cs_len := 0\<rparr>, h'))) no_fault
    (\<lambda>(cs', h'). cs_core (cs', h') S \<and> cs_cap cs' = cs_cap cs * 2 \<and> cs_ids cs' = brk h \<and> (\<exists>b. h' = h1\<lparr>cells := (cells h1)(brk h \<mapsto> b)\<rparr>))"
proof -
  let ?cap = "cs_cap cs * 2" and ?n = "unat (cs_cap cs)"
  note n = cs_grow_cap(1) [OF core cap]
  obtain bo where bo: "cells h (cs_ids cs) = Some bo" "?n \<le> length bo" using core by (auto simp: cs_core_def)
  have ne: "cs_ids cs \<noteq> brk h" using bo(1) heap_wf_fresh [OF wf] by auto
  let ?b = "replicate (unat ?cap) EMPTY_VAL @ drop (unat ?cap) b"
  let ?h = "h1\<lparr>cells := (cells h1)(brk h \<mapsto> ?b)\<rparr>" and ?cs = "cs\<lparr>cs_cap := ?cap, cs_ids := brk h, cs_len := 0\<rparr>"
  have fill: "foldC (\<lambda>i. ids_write (brk h) i EMPTY_VAL) [0..<unat ?cap] h1 = ret ?h"
    by (rule ids_fill) (use b h1 in simp_all)
  have "ids_table ?cs ?h = replicate (unat ?cap) EMPTY_VAL" using b h1 by (simp add: ids_table_def)
  then have core': "cs_core (?cs, ?h) {}" using b cs_grow_cap(2) [OF core cap] by (simp add: cs_core_def)
  have S: "S = set (live (take ?n bo))" "distinct (live (take ?n bo))"
    using core bo by (simp_all add: cs_core_def ids_table_def probe_table_def)
  have room: "?n < unat (cs_cap ?cs)" using n cs_core_cap(4) [OF core] by simp
  have "cells ?h (cs_ids cs) = Some bo" "cs_ids cs \<noteq> cs_ids ?cs" using bo h1 ne by simp_all
  from cs_rehash_all [OF this(1) bo(2) this(2) core' room S(2)] show ?thesis
    using S(1) fill h1 by (auto elim!: spec_conseq)
qed

lemma cs_grow_spec:
  assumes wf: "heap_wf h" and lim: "ids_limit h" and core: "cs_core (cs, h) S" and cap: "cs_cap cs \<le> 2 ^ 53"
  shows "spec (cid_set_grow cs h) is_exit (\<lambda>(cs', h'). heap_wf h' \<and> ids_limit h' \<and> cs_core (cs', h') S \<and>
    unat (cs_cap cs') = 2 * unat (cs_cap cs) \<and> cs_cap cs' \<le> 2 ^ 53 \<and> cs_ids cs' = brk h \<and> fresh h' = fresh h \<and>
    cells h' (cs_ids cs) = None \<and> (\<forall>x. x \<noteq> cs_ids cs \<and> x \<noteq> brk h \<longrightarrow> cells h' x = cells h x))"
    (is "spec _ _ ?post")
proof (cases "malloc_ids (unat (cs_cap cs * 2)) h")
  case None
  then show ?thesis by (simp add: cid_set_grow_def Let_def)
next
  case (Some p)
  let ?cap = "cs_cap cs * 2"
  obtain b where b: "unat ?cap \<le> length b" "arr_ok h (unat ?cap)"
    and p: "p = (brk h, h\<lparr>cells := (cells h)(brk h \<mapsto> b), brk := Suc (brk h)\<rparr>)"
    using Some by (cases p) (auto elim: malloc_ids_Some)
  let ?h1 = "h\<lparr>cells := (cells h)(brk h \<mapsto> b), brk := Suc (brk h)\<rparr>"
  obtain bo where bo: "cells h (cs_ids cs) = Some bo" using core by (auto simp: cs_core_def)
  then have ne: "cs_ids cs \<noteq> brk h" using heap_wf_fresh [OF wf] by auto
  have lim': "?cap \<le> 2 ^ 53" using lim b(2) unfolding ids_limit_def word_le_nat_alt by simp
  have fin: "spec (hfree h' (Some (cs_ids cs))) is_exit (\<lambda>h2. ?post (cs', h2))"
    if c: "cs_core (cs', h') S" "cs_cap cs' = ?cap" "cs_ids cs' = brk h" and h': "h' = ?h1\<lparr>cells := (cells ?h1)(brk h \<mapsto> b')\<rparr>" for cs' h' b'
  proof -
    let ?h2 = "h'\<lparr>cells := (cells h')(cs_ids cs := None)\<rparr>"
    have "hfree h' (Some (cs_ids cs)) = ret ?h2" using h' bo ne by (simp add: hfree_def)
    moreover have "cs_core (cs', ?h2) S" using cs_core_frame [of ?h2 cs' h' S] c ne by simp
    moreover have "heap_wf ?h2" using wf h' by (auto simp: heap_wf_def)
    moreover have "ids_limit ?h2" using lim h' by (simp add: ids_limit_def)
    ultimately show ?thesis using c cs_grow_cap(1) [OF core cap] lim' h' by auto
  qed
  have "spec (bindC (foldC (\<lambda>i. ids_write (brk h) i EMPTY_VAL) [0..<unat ?cap] ?h1) (\<lambda>h1.
      bindC (foldC (cs_rehash (cs_ids cs)) [0..<unat (cs_cap cs)] (cs\<lparr>cs_cap := ?cap, cs_ids := brk h, cs_len := 0\<rparr>, h1))
        (\<lambda>(cs', h'). bindC (hfree h' (Some (cs_ids cs))) (\<lambda>h2. ret (cs', h2))))) is_exit ?post"
    unfolding bindC_assoc [symmetric]
    by (rule spec_bindI [OF spec_mono [OF cs_grow_copied [OF wf core cap b(1) refl], of is_exit]]) (use fin in \<open>auto simp: no_fault_def\<close>)
  then show ?thesis
    using Some p by (simp add: cid_set_grow_def Let_def case_prod_unfold)
qed

lemma cs_rep_room: "cs_rep (cs, h) S \<Longrightarrow> cs_len cs < unat (cs_cap cs)"
proof -
  assume "cs_rep (cs, h) S"
  then have "8 \<le> unat (cs_cap cs)" "4 * cs_len cs \<le> 3 * unat (cs_cap cs)" by (simp_all add: cs_rep_def word_le_nat_alt)
  then show ?thesis by linarith
qed

lemma cs_exists:
  assumes "cs_rep (cs, h) S"
  shows "cid_set_exists cs h cid = ret (cid \<in> S)"
  by (rule cs_exists_core) (use assms cs_rep_room in \<open>auto simp: cs_rep_def\<close>)

section \<open>Insertion\<close>

lemma pow2_dvd4:
  assumes "cs_core (cs, h) S" and "8 \<le> unat (cs_cap cs)"
  shows "4 dvd unat (cs_cap cs)"
proof -
  obtain k where k: "k \<le> 54" "cs_cap cs = 2 ^ k" using assms(1) by (auto simp: cs_core_def)
  then have u: "unat (cs_cap cs) = 2 ^ k" by (simp add: unat_pow2)
  have "2 \<le> k"
  proof (rule ccontr)
    assume "\<not> 2 \<le> k"
    then have "k = 0 \<or> k = 1" by auto
    with u assms(2) show False by auto
  qed
  then show ?thesis unfolding u using le_imp_power_dvd [of 2 k "2 :: nat"] by simp
qed

text \<open>
  Insertion adds exactly the id. It works in the array of the set or, if the load factor is reached,
  in a new one, and touches no other array; the old array is then freed.
\<close>

lemma cs_insert_rep:
  assumes "heap_wf h1" "ids_limit h1" and c: "cs_core (cs1, h1) S" and n: "8 \<le> unat (cs_cap cs1)" "cs_cap cs1 \<le> 2 ^ 53"
    and l: "4 * cs_len cs1 < 3 * unat (cs_cap cs1)" and cid: "cid \<noteq> EMPTY_VAL"
  shows "\<exists>cs' b. cs_insert cs1 h1 cid = ret (cs', h1\<lparr>cells := (cells h1)(cs_ids cs1 \<mapsto> b)\<rparr>) \<and>
      cs_rep (cs', h1\<lparr>cells := (cells h1)(cs_ids cs1 \<mapsto> b)\<rparr>) (insert cid S) \<and>
      cs_ids cs' = cs_ids cs1 \<and> cs_cap cs' = cs_cap cs1"
proof -
  have "cs_len cs1 < unat (cs_cap cs1)" using l by linarith
  from cs_insert_core [OF c this cid] obtain cs' b where r:
    "cs_insert cs1 h1 cid = ret (cs', h1\<lparr>cells := (cells h1)(cs_ids cs1 \<mapsto> b)\<rparr>)"
    "cs_core (cs', h1\<lparr>cells := (cells h1)(cs_ids cs1 \<mapsto> b)\<rparr>) (insert cid S)"
    "cs_cap cs' = cs_cap cs1" "cs_ids cs' = cs_ids cs1" "cs_len cs' \<le> Suc (cs_len cs1)" by (auto split: if_splits)
  obtain q where "unat (cs_cap cs1) = 4 * q" using pow2_dvd4 [OF c n(1)] by (auto elim: dvdE)
  then have "4 * cs_len cs' \<le> 3 * unat (cs_cap cs')" using l r(3,5) by simp
  moreover obtain b0 where "cells h1 (cs_ids cs1) = Some b0" using c by (auto simp: cs_core_def)
  ultimately show ?thesis
    using r assms(1,2) n by (auto simp: cs_rep_def ids_limit_def word_le_nat_alt)
qed

lemma cs_insert_spec:
  assumes rep: "cs_rep (cs, h) S" and cid: "cid \<noteq> EMPTY_VAL"
  shows "spec (cid_set_insert cs h cid) is_exit (\<lambda>(cs', h'). cs_rep (cs', h') (insert cid S) \<and>
    fresh h' = fresh h \<and> (\<forall>x. x \<noteq> cs_ids cs \<and> x \<noteq> brk h \<longrightarrow> cells h' x = cells h x) \<and>
    (if 4 * cs_len cs \<ge> 3 * unat (cs_cap cs)
     then cs_ids cs' = brk h \<and> cells h' (cs_ids cs) = None \<and> unat (cs_cap cs') = 2 * unat (cs_cap cs)
     else cs_ids cs' = cs_ids cs \<and> cs_cap cs' = cs_cap cs \<and> cells h' (brk h) = None))"
proof -
  let ?n = "unat (cs_cap cs)"
  have wf: "heap_wf h" "ids_limit h" "cs_core (cs, h) S" and c8: "8 \<le> ?n" and c53: "cs_cap cs \<le> 2 ^ 53"
    and load: "4 * cs_len cs \<le> 3 * ?n"
    using rep by (simp_all add: cs_rep_def word_le_nat_alt)
  note put = cs_insert_rep [OF _ _ _ _ _ _ cid]
  show ?thesis
  proof (cases "4 * cs_len cs \<ge> 3 * ?n")
    case True
    have "spec (cid_set_grow cs h) is_exit (\<lambda>(cs1, h1). spec (cs_insert cs1 h1 cid) is_exit (\<lambda>(cs', h').
        cs_rep (cs', h') (insert cid S) \<and> fresh h' = fresh h \<and> (\<forall>x. x \<noteq> cs_ids cs \<and> x \<noteq> brk h \<longrightarrow> cells h' x = cells h x) \<and>
        cs_ids cs' = brk h \<and> cells h' (cs_ids cs) = None \<and> unat (cs_cap cs') = 2 * ?n))"
    proof (rule spec_conseq [OF cs_grow_spec [OF wf c53]], clarify)
      fix cs1 h1 assume g: "heap_wf h1" "ids_limit h1" "cs_core (cs1, h1) S" "unat (cs_cap cs1) = 2 * ?n"
        "cs_cap cs1 \<le> 2 ^ 53" "cs_ids cs1 = brk h" "fresh h1 = fresh h" "cells h1 (cs_ids cs) = None"
        "\<forall>x. x \<noteq> cs_ids cs \<and> x \<noteq> brk h \<longrightarrow> cells h1 x = cells h x"
      have "cs_len cs1 = cs_len cs" using cs_core_cap(9) [OF g(3)] cs_core_cap(9) [OF wf(3)] by simp
      then have "4 * cs_len cs1 < 3 * unat (cs_cap cs1)" using load g(4) c8 by simp
      moreover have "cs_ids cs \<noteq> brk h" using wf by (auto simp: cs_core_def heap_wf_def)
      ultimately show "spec (cs_insert cs1 h1 cid) is_exit (\<lambda>(cs', h').
        cs_rep (cs', h') (insert cid S) \<and> fresh h' = fresh h \<and> (\<forall>x. x \<noteq> cs_ids cs \<and> x \<noteq> brk h \<longrightarrow> cells h' x = cells h x) \<and>
        cs_ids cs' = brk h \<and> cells h' (cs_ids cs) = None \<and> unat (cs_cap cs') = 2 * ?n)"
        using put [OF g(1-3) _ g(5)] g c8 by auto
    qed
    with True cid show ?thesis by (simp add: cid_set_insert_def case_prod_unfold)
  next
    case False
    have "cs_ids cs \<noteq> brk h" "cells h (brk h) = None" using wf by (auto simp: cs_core_def heap_wf_def)
    with put [OF wf c8 c53] False cid show ?thesis by (auto simp: cid_set_insert_def)
  qed
qed

section \<open>Iteration\<close>

text \<open>The ids an iterator has still to deliver.\<close>

definition iter_left :: "cid_iter \<Rightarrow> ids_heap \<Rightarrow> 64 word list" where
  "iter_left iter h = live (drop (it_idx iter) (take (it_len iter) (the (cells h (it_ids iter)))))"

lemma next_batch_loop_spec:
  assumes "cells h (it_ids iter) = Some b" and "it_len iter \<le> length b" and "i \<le> n" and "n \<le> length batch"
  shows "spec (next_batch_loop h iter n batch i) no_fault (\<lambda>(i', batch', iter').
    i' = i + min (n - i) (length (iter_left iter h)) \<and>
    batch' = take i batch @ take (n - i) (iter_left iter h) @ drop i' batch \<and>
    iter_left iter' h = drop (n - i) (iter_left iter h) \<and> it_ids iter' = it_ids iter \<and> it_len iter' = it_len iter)"
  using assms
proof (induction h iter n batch i rule: next_batch_loop.induct)
  case (1 h iter n batch i)
  let ?iter = "iter\<lparr>it_idx := Suc (it_idx iter)\<rparr>"
  show ?case
  proof (cases "it_idx iter < it_len iter \<and> i < n")
    case False
    then have "iter_left iter h = [] \<or> n = i" using "1.prems" by (auto simp: iter_left_def live_def)
    moreover have "next_batch_loop h iter n batch i = ret (i, batch, iter)"
      using False by (simp only: next_batch_loop.simps [of h iter] if_False)
    ultimately show ?thesis by auto
  next
    case True
    let ?v = "b ! it_idx iter"
    have idx: "it_idx iter < length b" using True "1.prems"(2) by simp
    have rd: "ids_read h (it_ids iter) (it_idx iter) = ret ?v"
      using "1.prems"(1) idx by (simp add: ids_read_def hget_def aread_def)
    have left: "iter_left iter h = (if ?v = EMPTY_VAL then [] else [?v]) @ iter_left ?iter h"
      using True idx "1.prems"(1) Cons_nth_drop_Suc [of "it_idx iter" "take (it_len iter) b"]
      by (simp add: iter_left_def live_def flip: Cons_nth_drop_Suc)
    have unf: "next_batch_loop h iter n batch i =
        (if ?v = EMPTY_VAL then next_batch_loop h ?iter n batch i
         else next_batch_loop h ?iter n (batch[i := ?v]) (Suc i))"
      using True rd "1.prems"(4) by (subst next_batch_loop.simps) (simp add: awrite_def)
    show ?thesis
    proof (cases "?v = EMPTY_VAL")
      case True
      then show ?thesis
        using "1.IH"(1) [OF \<open>it_idx iter < it_len iter \<and> i < n\<close> True] "1.prems" unf left by simp
    next
      case False
      have i: "i < n" "i < length batch" using True "1.prems"(4) by simp_all
      have "take (Suc i) (batch[i := ?v]) = take i batch @ [?v]" using i by (simp add: take_snoc_update)
      moreover have "n - i = Suc (n - Suc i)" using i by simp
      moreover have "drop j (batch[i := ?v]) = drop j batch" if "i < j" for j using that by simp
      ultimately show ?thesis
        using "1.IH"(2) [OF \<open>it_idx iter < it_len iter \<and> i < n\<close> False, of "batch[i := ?v]"] "1.prems" unf left False i
        by (auto simp: elim!: spec_conseq)
    qed
  qed
qed

section \<open>The interface of a set of ids\<close>

text \<open>
  \<open>rep s S\<close>: the state \<open>s\<close> stands for the finite set \<open>S\<close>; \<open>valid\<close> elements can be inserted; the
  membership test decides; insertion may end the process when memory is exhausted.
\<close>

locale member_set =
  fixes rep :: "'s \<Rightarrow> 'e set \<Rightarrow> bool"
    and valid :: "'e \<Rightarrow> bool"
    and mem :: "'s \<Rightarrow> 'e \<Rightarrow> bool comp"
    and ins :: "'s \<Rightarrow> 'e \<Rightarrow> 's comp"
  assumes mem_rep: "rep s S \<Longrightarrow> mem s x = ret (x \<in> S)"
    and ins_rep: "rep s S \<Longrightarrow> valid x \<Longrightarrow> spec (ins s x) is_exit (\<lambda>t. rep t (insert x S))"
begin

text \<open>After inserting a list of elements one by one the set holds them and what it held before.\<close>

lemma ins_many:
  assumes "rep s S" and "\<forall>x\<in>set xs. valid x"
  shows "spec (foldC (\<lambda>x s. ins s x) xs s) is_exit
    (\<lambda>t. rep t (S \<union> set xs) \<and> (\<forall>y. mem t y = ret (y \<in> S \<or> y \<in> set xs)))"
  using assms
proof (induction xs arbitrary: s S)
  case Nil
  then show ?case by (simp add: mem_rep)
next
  case (Cons x xs)
  have "spec (foldC (\<lambda>x s. ins s x) xs t) is_exit
      (\<lambda>u. rep u (S \<union> set (x # xs)) \<and> (\<forall>y. mem u y = ret (y \<in> S \<or> y \<in> set (x # xs))))"
    if "rep t (insert x S)" for t
    using Cons.prems(2) by (intro spec_conseq [OF Cons.IH [OF that]]) auto
  then show ?case
    using Cons.prems by (simp, intro spec_conseq [OF ins_rep]) auto
qed

text \<open>The order of two insertions does not matter to any later membership test.\<close>

lemma ins_commute:
  assumes "rep s S" and "valid x" and "valid y"
    and "bindC (ins s x) (\<lambda>t. ins t y) = ret u" and "bindC (ins s y) (\<lambda>t. ins t x) = ret v"
  shows "mem u z = mem v z"
proof -
  have two: "rep w (insert b (insert a S))" if "valid a" "valid b" "bindC (ins s a) (\<lambda>t. ins t b) = ret w" for a b w
  proof -
    from that(3) obtain t where t: "ins s a = ret t" "ins t b = ret w" by (auto simp: bindC_eq_ret_iff)
    have "rep t (insert a S)" using spec_retD [OF ins_rep [OF assms(1) that(1)] t(1)] .
    from spec_retD [OF ins_rep [OF this that(2)] t(2)] show ?thesis .
  qed
  from two [OF assms(2,3,4)] two [OF assms(3,2,5)] show ?thesis by (simp add: mem_rep insert_commute)
qed

end

interpretation id_set: member_set cs_rep "\<lambda>cid. cid \<noteq> EMPTY_VAL" "\<lambda>(cs, h). cid_set_exists cs h"
  "\<lambda>(cs, h). cid_set_insert cs h"
proof (unfold_locales, goal_cases)
  case (1 s S x)
  then show ?case by (cases s) (simp add: cs_exists)
next
  case (2 s S x)
  obtain cs h where s: "s = (cs, h)" by (cases s)
  show ?case
    using spec_conseq [OF cs_insert_spec [of cs h S x]] 2 unfolding s by (auto simp: case_prod_unfold)
qed

section \<open>Properties\<close>

text \<open>
  A heap whose blocks have nine words, and in it a set of eight slots that holds six ids (1 and 9
  have the same hash), so that the load factor is reached.
\<close>

definition demo_ids :: ids_heap where
  "demo_ids = (empty_heap (replicate 9 0))\<lparr>arr_ok := (\<lambda>n. n \<le> 1000)\<rparr>"

definition demo_six :: "cid_set \<times> ids_heap" where
  "demo_six = (\<lparr>cs_len = 6, cs_cap = 8, cs_ids = 0\<rparr>,
     demo_ids\<lparr>cells := [0 \<mapsto> [0, 5, 2, EMPTY_VAL, 4, 1, 9, EMPTY_VAL]], brk := 1\<rparr>)"

lemma demo_ids_ok: "heap_wf demo_ids" "ids_limit demo_ids"
  by (simp_all add: demo_ids_def heap_wf_def empty_heap_def ids_limit_def)

lemma demo_six_rep: "cs_rep demo_six {0, 5, 2, 4, 1, 9}"
proof -
  let ?t = "[0, 5, 2, EMPTY_VAL, 4, 1, 9, EMPTY_VAL]" and ?hs = "cs_start 8"
  have hash: "?hs 0 = 0" "?hs 5 = 1" "?hs 2 = 2" "?hs 4 = 4" "?hs 1 = 5" "?hs 9 = 5"
    by (simp_all add: cs_hash_def)
  have direct: "\<exists>d. (?hs v + d) mod 8 = i \<and> (\<forall>e<d. slot ?t (?hs v) e \<noteq> EMPTY_VAL)" if "?hs v = i" "i < 8" for v i
    using that by (intro exI [of _ 0]) simp
  have nine: "\<exists>d. (?hs 9 + d) mod 8 = 6 \<and> (\<forall>e<d. slot ?t (?hs 9) e \<noteq> EMPTY_VAL)"
    by (rule exI [of _ 1]) (simp add: hash slot_def EMPTY_VAL_def)
  have "\<exists>d. (?hs (?t ! i) + d) mod 8 = i \<and> (\<forall>e<d. slot ?t (?hs (?t ! i)) e \<noteq> EMPTY_VAL)"
    if "i < 8" "?t ! i \<noteq> EMPTY_VAL" for i
  proof -
    have "i \<in> {0, 1, 2, 3, 4, 5, 6, 7}" using that(1) by auto
    then have "?hs (?t ! i) = i \<or> i = 6" using that(2) hash by auto
    then show ?thesis using direct [OF _ that(1), of "?t ! i"] nine by auto
  qed
  then have "probe_table ?hs ?t" by (simp add: probe_table_def live_def EMPTY_VAL_def)
  moreover have "\<exists>k\<le>54. (8 :: 64 word) = 2 ^ k" by (rule exI [of _ 3]) simp
  ultimately have "cs_core demo_six {0, 5, 2, 4, 1, 9}"
    by (simp add: cs_core_def demo_six_def ids_table_def live_def EMPTY_VAL_def) auto
  then show ?thesis
    using demo_ids_ok by (auto simp: cs_rep_def demo_six_def ids_limit_def heap_wf_def demo_ids_def)
qed

text \<open>
  C33. Inserting an id into a set: the reserved id UINT64_MAX ends the process; otherwise, unless the
  array has to grow and no memory is left, the probing loops end, the id is in the set afterwards,
  exactly the ids that were in it are still in it, \<open>len\<close> is their number, and \<open>cid_set_exists\<close>
  answers accordingly for every id.
\<close>

theorem cid_set_insert_correct:
  assumes "cs_rep (cs, h) S"
  shows "spec (cid_set_insert cs h cid) is_exit (\<lambda>(cs', h'). cid \<noteq> EMPTY_VAL \<and> cs_rep (cs', h') (insert cid S) \<and>
      cs_len cs' = card (insert cid S) \<and> (\<forall>x. cid_set_exists cs' h' x = ret (x = cid \<or> x \<in> S))) \<and>
    (cid \<noteq> EMPTY_VAL \<and> 4 * cs_len cs < 3 * unat (cs_cap cs) \<longrightarrow> (\<exists>r. cid_set_insert cs h cid = ret r))"
proof (intro conjI impI)
  show "spec (cid_set_insert cs h cid) is_exit (\<lambda>(cs', h'). cid \<noteq> EMPTY_VAL \<and> cs_rep (cs', h') (insert cid S) \<and>
      cs_len cs' = card (insert cid S) \<and> (\<forall>x. cid_set_exists cs' h' x = ret (x = cid \<or> x \<in> S)))"
  proof (cases "cid = EMPTY_VAL")
    case False
    have "cs_len cs' = card (insert cid S)" if "cs_rep (cs', h') (insert cid S)" for cs' h'
      using that cs_core_cap(9) [of cs' h' "insert cid S"] by (simp add: cs_rep_def)
    with False show ?thesis
      by (intro spec_conseq [OF cs_insert_spec [OF assms False]]) (auto simp: cs_exists)
  qed (simp add: cid_set_insert_def)
next
  assume "cid \<noteq> EMPTY_VAL \<and> 4 * cs_len cs < 3 * unat (cs_cap cs)"
  moreover from this have "cs_insert cs h cid = ret r \<Longrightarrow> cid_set_insert cs h cid = ret r" for r
    by (simp add: cid_set_insert_def)
  ultimately show "\<exists>r. cid_set_insert cs h cid = ret r"
    using cs_insert_core [of cs h S cid] assms cs_rep_room [OF assms] unfolding cs_rep_def by blast
qed

theorem cid_set_insert_correct_witness:
  "spec (cid_set_insert (fst demo_six) (snd demo_six) 17) is_exit (\<lambda>(cs', h').
    cs_len cs' = 7 \<and> cid_set_exists cs' h' 17 = ret True \<and> cid_set_exists cs' h' 9 = ret True \<and>
    cid_set_exists cs' h' 3 = ret False)"
proof -
  have "cs_rep (fst demo_six, snd demo_six) {0, 5, 2, 4, 1, 9}" using demo_six_rep by simp
  from conjunct1 [OF cid_set_insert_correct [OF this, of 17]] show ?thesis
    by (rule spec_conseq) auto
qed

text \<open>
  Inserting a list of ids one after the other, in any order and with repetitions: unless memory
  runs out, the set then holds exactly these ids and those it held before, through any number of
  growths of its array.
\<close>

lemma cid_set_insert_many:
  assumes "cs_rep (cs, h) S" and "EMPTY_VAL \<notin> set xs"
  shows "spec (foldC (\<lambda>x (cs, h). cid_set_insert cs h x) xs (cs, h)) is_exit (\<lambda>(cs', h').
    cs_rep (cs', h') (S \<union> set xs) \<and> (\<forall>y. cid_set_exists cs' h' y = ret (y \<in> S \<or> y \<in> set xs)))"
proof -
  have "\<forall>x\<in>set xs. x \<noteq> EMPTY_VAL" using assms(2) by auto
  from id_set.ins_many [OF assms(1) this] show ?thesis
    by (simp add: case_prod_unfold)
qed

text \<open>
  \<open>cid_set_init\<close> writes one slot more than it asked for: on a block of exactly the size requested
  it writes outside the block. Only on a larger block does it return, with an empty set.
\<close>

lemma cid_set_init_overruns:
  assumes "heap_wf h" and "ids_limit h"
  shows "case malloc_ids 8 h of
      None \<Rightarrow> cid_set_init h = fail (Exit_failure ''cid_set_init malloc'')
    | Some (a, h1) \<Rightarrow>
        if length (the (cells h1 a)) = 8 then cid_set_init h = fail Out_of_bounds
        else spec (cid_set_init h) no_fault (\<lambda>(cs, h'). cs_rep (cs, h') {} \<and>
          (\<forall>x. cid_set_exists cs h' x = ret False))"
  using cs_init_cases [OF assms] cs_exists
  by (auto split: option.splits if_splits elim!: spec_conseq)

text \<open>\<open>k\<close> calls of \<open>cid_iter_next_batch\<close> with batches of size \<open>n\<close>, and all the ids they delivered.\<close>

fun fetch_batches :: "ids_heap \<Rightarrow> cid_iter \<Rightarrow> nat \<Rightarrow> nat \<Rightarrow> (64 word list \<times> cid_iter) comp" where
  "fetch_batches h iter n 0 = ret ([], iter)"
| "fetch_batches h iter n (Suc k) =
     bindC (cid_iter_next_batch h iter n (replicate n 0)) (\<lambda>(m, batch, iter).
     bindC (fetch_batches h iter n k) (\<lambda>(xs, iter). ret (take m batch @ xs, iter)))"

lemma fetch_batches_spec:
  assumes "cells h (it_ids iter) = Some b" and "it_len iter \<le> length b"
  shows "spec (fetch_batches h iter n k) no_fault (\<lambda>(xs, iter'). xs = take (k * n) (iter_left iter h))"
  using assms
proof (induction k arbitrary: iter)
  case 0
  then show ?case by simp
next
  case (Suc k)
  let ?l = "iter_left iter h"
  have "spec (fetch_batches h iter' n k) no_fault (\<lambda>(xs, _). take m batch @ xs = take (Suc k * n) ?l)"
    if "m = min n (length ?l)" "batch = take n ?l @ drop m (replicate n 0)" "iter_left iter' h = drop n ?l"
      "it_ids iter' = it_ids iter" "it_len iter' = it_len iter" for m batch iter'
    using that Suc.prems by (intro spec_conseq [OF Suc.IH]) (auto simp: take_add min_def)
  then show ?case
    unfolding fetch_batches.simps cid_iter_next_batch_def
    by (simp add: case_prod_unfold)
      (rule spec_conseq [OF next_batch_loop_spec [OF Suc.prems]], auto simp: case_prod_unfold)
qed

lemma fetch_members:
  assumes "cs_rep (cs, h) S"
  shows "spec (fetch_batches h (cid_set_iter cs) n k) no_fault (\<lambda>(xs, iter').
    distinct xs \<and> set xs \<subseteq> S \<and> length xs = min (k * n) (card S) \<and> (card S \<le> k * n \<longrightarrow> set xs = S))"
proof -
  obtain b where b: "cells h (cs_ids cs) = Some b" "unat (cs_cap cs) \<le> length b" and core: "cs_core (cs, h) S"
    using assms by (auto simp: cs_rep_def cs_core_def)
  have l: "iter_left (cid_set_iter cs) h = live (ids_table cs h)" "it_ids (cid_set_iter cs) = cs_ids cs"
    "it_len (cid_set_iter cs) = unat (cs_cap cs)"
    by (simp_all add: iter_left_def cid_set_iter_def ids_table_def)
  have "S = set (live (ids_table cs h))" "distinct (live (ids_table cs h))"
    using core by (simp_all add: cs_core_def probe_table_def)
  then show ?thesis
    using b by (intro spec_conseq [OF fetch_batches_spec [of h "cid_set_iter cs" b n k]])
      (auto simp: l distinct_card min.commute dest: in_set_takeD)
qed

text \<open>
  C34. Iterating over a set in batches of any size \<open>n\<close> delivers its ids without repetition and without
  omission: \<open>k\<close> calls deliver different members of the set, and all of them as soon as \<open>k * n\<close> is at
  least \<open>len\<close>, the size of the set.
\<close>

theorem cid_iter_visits_all:
  assumes "cs_rep (cs, h) S"
  shows "spec (fetch_batches h (cid_set_iter cs) n k) no_fault (\<lambda>(xs, iter').
    distinct xs \<and> set xs \<subseteq> S \<and> length xs = min (k * n) (card S) \<and> (cs_len cs \<le> k * n \<longrightarrow> set xs = S))"
proof -
  have "card S = cs_len cs" using assms cs_core_cap(9) [of cs h S] by (simp add: cs_rep_def)
  with fetch_members [OF assms, of n k] show ?thesis by simp
qed

theorem cid_iter_visits_all_witness:
  "spec (fetch_batches (snd demo_six) (cid_set_iter (fst demo_six)) 3 2) no_fault (\<lambda>(xs, iter').
    distinct xs \<and> set xs = {0, 5, 2, 4, 1, 9})"
proof -
  have "cs_rep (fst demo_six, snd demo_six) {0, 5, 2, 4, 1, 9}" using demo_six_rep by simp
  from cid_iter_visits_all [OF this, of 3 2] show ?thesis
    by (rule spec_conseq) (auto simp: demo_six_def)
qed

text \<open>
  An iterator taken before an insertion: if the insertion did not make the array grow, the iterator
  runs over the new set, new id included; if it did, the iterator's array has been freed, and the
  next batch reads freed memory.
\<close>

lemma cid_iter_after_insert:
  assumes "cs_rep (cs, h) S" and "cid \<noteq> EMPTY_VAL" and "0 < n"
  shows "spec (cid_set_insert cs h cid) is_exit (\<lambda>(cs', h').
    if 4 * cs_len cs \<ge> 3 * unat (cs_cap cs)
    then cid_iter_next_batch h' (cid_set_iter cs) n batch = fail Wild_pointer
    else cid_set_iter cs' = cid_set_iter cs)"
proof -
  have "0 < unat (cs_cap cs)" using assms(1) cs_core_cap(4) [of cs h S] by (simp add: cs_rep_def)
  then have "cid_iter_next_batch h' (cid_set_iter cs) n batch = fail Wild_pointer" if "cells h' (cs_ids cs) = None" for h'
    using that assms(3)
    by (simp add: cid_iter_next_batch_def next_batch_loop.simps [of h'] cid_set_iter_def ids_read_def hget_def)
  then show ?thesis
    by (intro spec_conseq [OF cs_insert_spec [OF assms(1,2)]]) (auto simp: cid_set_iter_def split: if_splits)
qed

end
