(* ===== verification/Group_Table.thy ===== *)
theory Group_Table
  imports Chain Cid_Set
begin

text \<open>
  groups.c: the table of groups. A group is an object of a heap, linked into the chain of its bucket
  by \<open>next\<close>; its members are a \<open>cid_set\<close>, whose array is in the heap of cid_set.c. The state is the
  table with the two heaps.

  \<open>groups_rep (g, gh, ih) m\<close> says that the table stands for the finite map \<open>m\<close> from group ids to sets
  of client ids.
\<close>

section \<open>Definitions\<close>

record grp =
  g_gid :: "64 word"
  g_client_ids :: cid_set
  g_next :: "nat option"

record groups =
  gs_size :: "64 word"
  gs_buckets :: "nat option list"

text \<open>
  \<open>mal\<close> is malloc: for a size in bytes, the pointers that the block it returns holds after the field
  \<open>size\<close>, or \<open>None\<close> for NULL. Nothing is written to the buckets.
\<close>

definition groups_create :: "(64 word \<Rightarrow> nat option list option) \<Rightarrow> 64 word \<Rightarrow> groups option" where
  "groups_create mal num_groups =
     (let alloc_size = 8 + num_groups * 8 in
      case mal alloc_size of
        None \<Rightarrow> None
      | Some b \<Rightarrow> Some \<lparr>gs_size = num_groups, gs_buckets = b\<rparr>)"

definition groups_size :: "groups \<Rightarrow> 64 word" where
  "groups_size g = gs_size g"

definition grp_bkt :: "64 word \<Rightarrow> 64 word \<Rightarrow> nat" where
  "grp_bkt sz gid = unat (gid AND (sz - 1))"

text \<open>The group for a new id, linked at the head of its bucket; \<open>None\<close> where malloc fails.\<close>

definition groups_new :: "groups \<Rightarrow> grp heap \<Rightarrow> ids_heap \<Rightarrow> 64 word \<Rightarrow> ((nat \<times> groups \<times> grp heap \<times> ids_heap) option) comp" where
  "groups_new g gh ih gid =
     (let bkt = grp_bkt (gs_size g) gid in
      case malloc (\<lambda>c. c) gh of
        None \<Rightarrow> ret None
      | Some (node, gh) \<Rightarrow>
          bindC (hget gh node) (\<lambda>c.
          bindC (aread (gs_buckets g) bkt) (\<lambda>head.
          bindC (hput gh node (c\<lparr>g_gid := gid, g_next := head\<rparr>)) (\<lambda>gh.
          bindC (awrite (gs_buckets g) bkt (Some node)) (\<lambda>bs.
          bindC (cid_set_init ih) (\<lambda>(cs, ih).
          bindC (hget gh node) (\<lambda>c.
          bindC (hput gh node (c\<lparr>g_client_ids := cs\<rparr>)) (\<lambda>gh.
          ret (Some (node, g\<lparr>gs_buckets := bs\<rparr>, gh, ih))))))))))"

definition groups_insert ::
  "groups \<Rightarrow> grp heap \<Rightarrow> ids_heap \<Rightarrow> 64 word \<Rightarrow> 64 word \<Rightarrow> (bool \<times> groups \<times> grp heap \<times> ids_heap) comp" where
  "groups_insert g gh ih gid cid =
     bindC (aread (gs_buckets g) (grp_bkt (gs_size g) gid)) (\<lambda>head.
     bindC (chain_search (\<lambda>c. g_gid c = gid) g_next gh head) (\<lambda>found.
     bindC (case found of
              Some node \<Rightarrow> ret (Some (node, g, gh, ih))
            | None \<Rightarrow> groups_new g gh ih gid) (\<lambda>r.
     case r of
       None \<Rightarrow> ret (False, g, gh, ih)
     | Some (node, g, gh, ih) \<Rightarrow>
         bindC (hget gh node) (\<lambda>c.
         bindC (cid_set_insert (g_client_ids c) ih cid) (\<lambda>(cs, ih).
         bindC (hput gh node (c\<lparr>g_client_ids := cs\<rparr>)) (\<lambda>gh.
         ret (False, g, gh, ih)))))))"

text \<open>\<open>None\<close> where the C function returns false and leaves the iterator alone.\<close>

definition groups_get :: "groups \<Rightarrow> grp heap \<Rightarrow> 64 word \<Rightarrow> cid_iter option comp" where
  "groups_get g gh gid =
     bindC (aread (gs_buckets g) (grp_bkt (gs_size g) gid)) (\<lambda>head.
     bindC (chain_search (\<lambda>c. g_gid c = gid) g_next gh head) (\<lambda>found.
     case found of
       None \<Rightarrow> ret None
     | Some node \<Rightarrow> bindC (hget gh node) (\<lambda>c. ret (Some (cid_set_iter (g_client_ids c))))))"

section \<open>Representation\<close>

text \<open>
  malloc is about to return a block of exactly the eight words that \<open>cid_set_init\<close> asks for. That function
  writes a ninth, so that only a larger block does for a new group.
\<close>

definition tight :: "ids_heap \<Rightarrow> bool" where
  "tight h \<longleftrightarrow> arr_ok h 8 \<and> (\<exists>b. fresh h (brk h) = Some b \<and> length b \<le> 8)"

abbreviation grp_table :: "groups \<Rightarrow> (nat \<rightharpoonup> grp) \<Rightarrow> nat list list \<Rightarrow> bool" where
  "grp_table g \<equiv> table g_next g_gid (grp_bkt (gs_size g)) (gs_buckets g)"

abbreviation grp_entry :: "groups \<Rightarrow> (nat \<rightharpoonup> grp) \<Rightarrow> nat list list \<Rightarrow> 64 word \<rightharpoonup> nat" where
  "grp_entry g \<equiv> entry g_gid (grp_bkt (gs_size g))"

text \<open>The members of the group at an address, and that its set is well formed.\<close>

definition members :: "(nat \<rightharpoonup> grp) \<Rightarrow> ids_heap \<Rightarrow> (nat \<Rightarrow> 64 word set) \<Rightarrow> nat set \<Rightarrow> bool" where
  "members gh ih M A \<longleftrightarrow>
     (\<forall>a\<in>A. cs_rep (g_client_ids (the (gh a)), ih) (M a)) \<and> inj_on (\<lambda>a. cs_ids (g_client_ids (the (gh a)))) A"

definition groups_rep :: "groups \<times> grp heap \<times> ids_heap \<Rightarrow> (64 word \<rightharpoonup> 64 word set) \<Rightarrow> bool" where
  "groups_rep = (\<lambda>(g, gh, ih) m. heap_wf gh \<and> heap_wf ih \<and> ids_limit ih \<and> gs_size g \<noteq> 0 \<and>
     unat (gs_size g) \<le> length (gs_buckets g) \<and>
     (\<exists>ass M. grp_table g (cells gh) ass \<and> members (cells gh) ih M (set (concat ass)) \<and>
        (\<forall>gid. m gid = map_option M (grp_entry g (cells gh) ass gid))))"

lemma grp_bkt_bound:
  "gs_size g \<noteq> 0 \<Longrightarrow> unat (gs_size g) \<le> length (gs_buckets g) \<Longrightarrow> grp_bkt (gs_size g) gid < length (gs_buckets g)"
  unfolding grp_bkt_def using unat_mask_less [of "gs_size g" gid] by simp

lemma groups_repE:
  assumes "groups_rep (g, gh, ih) m"
  obtains ass M where "heap_wf gh" "heap_wf ih" "ids_limit ih" "gs_size g \<noteq> 0"
    "unat (gs_size g) \<le> length (gs_buckets g)" "grp_table g (cells gh) ass"
    "members (cells gh) ih M (set (concat ass))" "\<And>gid. m gid = map_option M (grp_entry g (cells gh) ass gid)"
    "\<And>gid. grp_bkt (gs_size g) gid < length (gs_buckets g)"
  using assms grp_bkt_bound [of g] by (auto simp: groups_rep_def)

lemma groups_repI:
  assumes "heap_wf gh" "heap_wf ih" "ids_limit ih" "gs_size g \<noteq> 0"
    "unat (gs_size g) \<le> length (gs_buckets g)" "grp_table g (cells gh) ass"
    "members (cells gh) ih M (set (concat ass))" "\<And>gid. m gid = map_option M (grp_entry g (cells gh) ass gid)"
  shows "groups_rep (g, gh, ih) m"
  using assms unfolding groups_rep_def by blast

lemma groups_search:
  assumes "groups_rep (g, gh, ih) m" and "grp_table g (cells gh) ass"
  shows "bindC (aread (gs_buckets g) (grp_bkt (gs_size g) gid)) (chain_search (\<lambda>c. g_gid c = gid) g_next gh) =
    ret (grp_entry g (cells gh) ass gid)"
proof -
  have b: "grp_bkt (gs_size g) gid < length (gs_buckets g)" using assms(1) by (rule groups_repE) blast
  then show ?thesis using table_search [OF assms(2) b] by (simp add: aread_def)
qed

text \<open>A set whose array is not touched keeps its members.\<close>

lemma cs_rep_frame:
  assumes "cs_rep (cs, ih) S" and "heap_wf ih'" and "ids_limit ih'" and "cells ih' (cs_ids cs) = cells ih (cs_ids cs)"
  shows "cs_rep (cs, ih') S"
  using assms cs_core_frame [of ih' cs ih S] by (simp add: cs_rep_def)

lemma cs_rep_live: "cs_rep (cs, ih) S \<Longrightarrow> cells ih (cs_ids cs) \<noteq> None"
  by (simp add: cs_rep_def cs_core_def)

text \<open>
  Inserting a client id into the set of the group at \<open>a\<close>: the group's members are extended and every
  other group's are unchanged.
\<close>

lemma members_insert:
  assumes mem: "members gh ih M A" and a: "a \<in> A" "gh a = Some c" and cid: "cid \<noteq> EMPTY_VAL"
  shows "spec (cid_set_insert (g_client_ids c) ih cid) is_exit (\<lambda>(cs, ih').
    members (gh(a \<mapsto> c\<lparr>g_client_ids := cs\<rparr>)) ih' (M(a := insert cid (M a))) A \<and> heap_wf ih' \<and> ids_limit ih')"
proof -
  have rep: "cs_rep (g_client_ids c, ih) (M a)" using mem a by (auto simp: members_def)
  have wf: "cells ih (brk ih) = None" using rep by (simp add: cs_rep_def heap_wf_def)
  have other: "cs_ids (g_client_ids (the (gh x))) \<notin> {cs_ids (g_client_ids c), brk ih}" if "x \<in> A" "x \<noteq> a" for x
  proof -
    have "cs_ids (g_client_ids (the (gh x))) \<noteq> cs_ids (g_client_ids (the (gh a)))"
      using mem that a(1) by (auto simp: members_def inj_on_def)
    moreover have "cs_rep (g_client_ids (the (gh x)), ih) (M x)" using mem that(1) by (simp add: members_def)
    then have "cs_ids (g_client_ids (the (gh x))) \<noteq> brk ih" using cs_rep_live wf by metis
    ultimately show ?thesis using a(2) by simp
  qed
  show ?thesis
  proof (rule spec_conseq [OF cs_insert_spec [OF rep cid]], clarify)
    fix cs ih'
    assume r: "cs_rep (cs, ih') (insert cid (M a))" "fresh ih' = fresh ih"
      "\<forall>x. x \<noteq> cs_ids (g_client_ids c) \<and> x \<noteq> brk ih \<longrightarrow> cells ih' x = cells ih x"
      and br: "if 3 * unat (cs_cap (g_client_ids c)) \<le> 4 * cs_len (g_client_ids c)
        then cs_ids cs = brk ih \<and> cells ih' (cs_ids (g_client_ids c)) = None \<and> unat (cs_cap cs) = 2 * unat (cs_cap (g_client_ids c))
        else cs_ids cs = cs_ids (g_client_ids c) \<and> cs_cap cs = cs_cap (g_client_ids c) \<and> cells ih' (brk ih) = None"
    let ?gh = "gh(a \<mapsto> c\<lparr>g_client_ids := cs\<rparr>)" and ?M = "M(a := insert cid (M a))"
    have ok: "heap_wf ih'" "ids_limit ih'" using r(1) by (simp_all add: cs_rep_def)
    have ids: "cs_ids cs \<in> {cs_ids (g_client_ids c), brk ih}" using br by (auto split: if_splits)
    have "cs_rep (g_client_ids (the (?gh x)), ih') (?M x)" if "x \<in> A" for x
    proof (cases "x = a")
      case False
      have "cs_rep (g_client_ids (the (gh x)), ih) (M x)" using mem that by (simp add: members_def)
      then have "cs_rep (g_client_ids (the (gh x)), ih') (M x)"
        using cs_rep_frame [OF _ ok] r(3) other [OF that False] by simp
      with False show ?thesis by simp
    qed (use r(1) in simp)
    moreover have "inj_on (\<lambda>x. cs_ids (g_client_ids (the (?gh x)))) A"
    proof (rule inj_onI)
      fix x y assume "x \<in> A" "y \<in> A" "cs_ids (g_client_ids (the (?gh x))) = cs_ids (g_client_ids (the (?gh y)))"
      moreover have "inj_on (\<lambda>a. cs_ids (g_client_ids (the (gh a)))) A" using mem by (simp add: members_def)
      ultimately show "x = y" using other ids by (auto simp: inj_on_def split: if_splits)
    qed
    ultimately show "members ?gh ih' ?M A \<and> heap_wf ih' \<and> ids_limit ih'"
      using ok by (simp add: members_def)
  qed
qed

section \<open>Insertion\<close>

lemma cid_set_init_tight:
  assumes "heap_wf ih" and "ids_limit ih"
  shows "if tight ih then cid_set_init ih = fail Out_of_bounds
    else spec (cid_set_init ih) is_exit (\<lambda>(cs, ih'). cs_rep (cs, ih') {} \<and> cs_ids cs = brk ih \<and> (\<forall>x. x \<noteq> brk ih \<longrightarrow> cells ih' x = cells ih x))"
proof (cases "malloc_ids 8 ih")
  case None
  then have "\<not> tight ih" by (auto simp: tight_def malloc_ids_def malloc_def)
  then show ?thesis using cs_init_cases [OF assms] None by simp
next
  case (Some p)
  then obtain c where c: "fresh ih (brk ih) = Some c" "arr_ok ih 8"
    and p: "p = (brk ih, ih\<lparr>cells := (cells ih)(brk ih \<mapsto> at_least 8 c), brk := Suc (brk ih)\<rparr>)"
    by (auto simp: malloc_ids_def malloc_def split: if_splits option.splits)
  have "length (at_least 8 c) = 8 \<longleftrightarrow> tight ih" using c by (auto simp: at_least_def tight_def)
  with cs_init_cases [OF assms] Some p show ?thesis
    by (auto split: if_splits simp: no_fault_def elim!: spec_mono)
qed

text \<open>A new node with a set of its own, beside the nodes of the table.\<close>

lemma members_add:
  assumes mem: "members c ih M A" and a: "a \<notin> A" and wf: "heap_wf ih" "heap_wf ih'" "ids_limit ih'"
    and cs: "cs_rep (g_client_ids n, ih') {}" "cs_ids (g_client_ids n) = brk ih" "\<forall>x. x \<noteq> brk ih \<longrightarrow> cells ih' x = cells ih x"
  shows "members (c(a \<mapsto> n)) ih' (M(a := {})) (insert a A)"
proof -
  have old: "cs_rep (g_client_ids (the (c x)), ih) (M x)" if "x \<in> A" for x using mem that unfolding members_def by blast
  have nb: "cs_ids (g_client_ids (the (c x))) \<noteq> brk ih" if "x \<in> A" for x
    using cs_rep_live [OF old [OF that]] heap_wf_fresh [OF wf(1)] by metis
  have "cs_rep (g_client_ids (the ((c(a \<mapsto> n)) x)), ih') ((M(a := {})) x)" if "x \<in> insert a A" for x
    using that cs(1) cs_rep_frame [OF old wf(2,3), of x] nb [of x] cs(3) by auto
  moreover have "inj_on (\<lambda>x. cs_ids (g_client_ids (the ((c(a \<mapsto> n)) x)))) (insert a A)"
  proof (rule inj_onI)
    fix x y assume xy: "x \<in> insert a A" "y \<in> insert a A"
      and eq: "cs_ids (g_client_ids (the ((c(a \<mapsto> n)) x))) = cs_ids (g_client_ids (the ((c(a \<mapsto> n)) y)))"
    have inj: "inj_on (\<lambda>a. cs_ids (g_client_ids (the (c a)))) A" using mem unfolding members_def by blast
    show "x = y"
    proof (cases "x = a \<or> y = a")
      case True
      then show ?thesis using xy eq nb [of x] nb [of y] cs(2) by (metis fun_upd_apply insertE option.sel)
    next
      case False
      then show ?thesis using xy eq inj_onD [OF inj, of x y] by simp
    qed
  qed
  ultimately show ?thesis unfolding members_def by blast
qed

lemma groups_rep_link:
  assumes rep: "groups_rep (g, gh, ih) m" and gid: "m gid = None"
    and c: "g_next c = gs_buckets g ! grp_bkt (gs_size g) gid" "g_gid c = gid"
    and cs: "cs_rep (g_client_ids c, ih') {}" "cs_ids (g_client_ids c) = brk ih" "\<forall>x. x \<noteq> brk ih \<longrightarrow> cells ih' x = cells ih x"
  defines "g' \<equiv> g\<lparr>gs_buckets := (gs_buckets g)[grp_bkt (gs_size g) gid := Some (brk gh)]\<rparr>" and "gc \<equiv> (cells gh)(brk gh \<mapsto> c)"
  shows "groups_rep (g', gh\<lparr>cells := gc, brk := Suc (brk gh)\<rparr>, ih') (m(gid \<mapsto> {}))"
    and "\<exists>ass. grp_table g' gc ass \<and> grp_entry g' gc ass gid = Some (brk gh)"
proof -
  obtain ass M where wf: "heap_wf gh" "heap_wf ih" and sz: "gs_size g \<noteq> 0" "unat (gs_size g) \<le> length (gs_buckets g)"
    and tab: "grp_table g (cells gh) ass" and mem: "members (cells gh) ih M (set (concat ass))"
    and m: "\<And>gid. m gid = map_option M (grp_entry g (cells gh) ass gid)"
    and bkt: "\<And>gid. grp_bkt (gs_size g) gid < length (gs_buckets g)"
    using rep by (rule groups_repE) blast
  let ?ass = "ass[grp_bkt (gs_size g) gid := brk gh # ass ! grp_bkt (gs_size g) gid]" and ?M = "M(brk gh := {})"
  have absent: "grp_entry g (cells gh) ass gid = None" using m [of gid] gid by simp
  have fresh_a: "brk gh \<notin> set (concat ass)" using table_nodes_live [OF tab] heap_wf_fresh [OF wf(1)] by blast
  note ins = table_insert [OF tab bkt fresh_a absent c(1,2)]
  have tab': "grp_table g' gc ?ass" using ins(1) by (simp add: g'_def gc_def)
  have ent: "grp_entry g' gc ?ass = (grp_entry g (cells gh) ass)(gid \<mapsto> brk gh)" using ins(2) by (simp add: g'_def gc_def)
  then show "\<exists>ass. grp_table g' gc ass \<and> grp_entry g' gc ass gid = Some (brk gh)" using tab' by auto
  have nodes: "set (concat ?ass) = insert (brk gh) (set (concat ass))"
    using ran_entry [OF tab'] ran_entry [OF tab] ent absent by simp
  have ok: "heap_wf ih'" "ids_limit ih'" using cs(1) by (simp_all add: cs_rep_def)
  have mem': "members gc ih' ?M (set (concat ?ass))"
    unfolding nodes gc_def by (rule members_add [OF mem fresh_a wf(2) ok cs(1,2,3)])
  have m': "(m(gid \<mapsto> {})) gid' = map_option ?M (grp_entry g' gc ?ass gid')" for gid'
  proof (cases "gid' = gid")
    case False
    have "grp_entry g (cells gh) ass gid' \<noteq> Some (brk gh)" using ran_entry [OF tab] fresh_a by (metis ranI)
    then show ?thesis using False m [of gid'] unfolding ent by (cases "grp_entry g (cells gh) ass gid'") auto
  qed (simp add: ent)
  show "groups_rep (g', gh\<lparr>cells := gc, brk := Suc (brk gh)\<rparr>, ih') (m(gid \<mapsto> {}))"
    by (rule groups_repI [OF _ ok, where ass = ?ass and M = ?M])
      (use wf(1) sz tab' mem' m' in \<open>simp_all add: g'_def gc_def del: fun_upd_apply set_concat\<close>)
qed

lemma groups_new_rep:
  assumes rep: "groups_rep (g, gh, ih) m" and gid: "m gid = None"
  shows "if fresh gh (brk gh) \<noteq> None \<and> tight ih then groups_new g gh ih gid = fail Out_of_bounds
    else spec (groups_new g gh ih gid) is_exit (\<lambda>r. case r of
      None \<Rightarrow> fresh gh (brk gh) = None
    | Some (node, g', gh', ih') \<Rightarrow> fresh gh (brk gh) \<noteq> None \<and> groups_rep (g', gh', ih') (m(gid \<mapsto> {})) \<and>
        (\<exists>ass. grp_table g' (cells gh') ass \<and> grp_entry g' (cells gh') ass gid = Some node))"
proof (cases "fresh gh (brk gh)")
  case None
  then show ?thesis by (simp add: groups_new_def Let_def malloc_def)
next
  case (Some c0)
  have wf: "heap_wf ih" "ids_limit ih" and bkt: "grp_bkt (gs_size g) gid < length (gs_buckets g)"
    using rep by (auto elim: groups_repE)
  let ?a = "brk gh" and ?g = "g\<lparr>gs_buckets := (gs_buckets g)[grp_bkt (gs_size g) gid := Some (brk gh)]\<rparr>"
  let ?c = "\<lambda>cs. c0\<lparr>g_gid := gid, g_next := gs_buckets g ! grp_bkt (gs_size g) gid, g_client_ids := cs\<rparr>"
  have fin: "if tight ih then cid_set_init ih = fail Out_of_bounds else spec (cid_set_init ih) is_exit (\<lambda>(cs, ih').
      groups_rep (?g, gh\<lparr>cells := (cells gh)(?a \<mapsto> ?c cs), brk := Suc ?a\<rparr>, ih') (m(gid \<mapsto> {})) \<and>
      (\<exists>ass. grp_table ?g ((cells gh)(?a \<mapsto> ?c cs)) ass \<and> grp_entry ?g ((cells gh)(?a \<mapsto> ?c cs)) ass gid = Some ?a))"
  proof (cases "tight ih")
    case False
    with cid_set_init_tight [OF wf] have "spec (cid_set_init ih) is_exit (\<lambda>(cs, ih'). cs_rep (cs, ih') {} \<and> cs_ids cs = brk ih \<and>
      (\<forall>x. x \<noteq> brk ih \<longrightarrow> cells ih' x = cells ih x))" by simp
    then show ?thesis unfolding if_not_P [OF False]
      by (rule spec_conseq, clarify, intro conjI groups_rep_link [OF rep gid]) simp_all
  qed (use cid_set_init_tight [OF wf] in simp)
  have comm: "h\<lparr>brk := b, cells := f\<rparr> = h\<lparr>cells := f, brk := b\<rparr>" for h :: "grp heap" and b f by (cases h) simp
  from fin show ?thesis
    using Some bkt
    by (cases "tight ih") (simp_all add: groups_new_def Let_def malloc_def hget_def hput_def aread_def awrite_def case_prod_unfold comm)
qed

lemma groups_insert_at:
  assumes rep: "groups_rep (g, gh, ih) m" and tab: "grp_table g (cells gh) ass"
    and node: "grp_entry g (cells gh) ass gid = Some node" and cid: "cid \<noteq> EMPTY_VAL"
  shows "\<exists>c. cells gh node = Some c \<and> spec (cid_set_insert (g_client_ids c) ih cid) is_exit (\<lambda>(cs, ih').
    groups_rep (g, gh\<lparr>cells := (cells gh)(node \<mapsto> c\<lparr>g_client_ids := cs\<rparr>)\<rparr>, ih') (m(gid \<mapsto> insert cid (the (m gid)))))"
proof -
  obtain ass' M where wf: "heap_wf gh" and sz: "gs_size g \<noteq> 0"
    "unat (gs_size g) \<le> length (gs_buckets g)" and tab': "grp_table g (cells gh) ass'"
    and mem: "members (cells gh) ih M (set (concat ass'))"
    and m: "\<And>gid. m gid = map_option M (grp_entry g (cells gh) ass' gid)"
    using rep by (rule groups_repE) blast
  have "ass' = ass"
  proof (rule nth_equalityI)
    show "length ass' = length ass" using tab tab' by (simp add: table_def)
    fix i assume "i < length ass'"
    then have "i < length (gs_buckets g)" using tab' by (simp add: table_def)
    from chain_unique [OF table_chain [OF tab' this] table_chain [OF tab this]] show "ass' ! i = ass ! i" .
  qed
  note mem = mem [unfolded this] and m = m [unfolded this]
  have nd: "node \<in> set (concat ass)" using ran_entry [OF tab] node by (metis ranI)
  then obtain c where c: "cells gh node = Some c" using table_nodes_live [OF tab] by blast
  have ent: "(m(gid \<mapsto> insert cid (the (m gid)))) gid' =
      map_option (M(node := insert cid (M node))) (grp_entry g (cells gh) ass gid')" for gid'
  proof (cases "gid' = gid")
    case False
    have "grp_entry g (cells gh) ass gid' \<noteq> Some node" using entry_inj [OF tab node] False by blast
    then show ?thesis using False m [of gid'] by (cases "grp_entry g (cells gh) ass gid'") auto
  qed (use m [of gid] node in simp)
  have "spec (cid_set_insert (g_client_ids c) ih cid) is_exit (\<lambda>(cs, ih').
    groups_rep (g, gh\<lparr>cells := (cells gh)(node \<mapsto> c\<lparr>g_client_ids := cs\<rparr>)\<rparr>, ih') (m(gid \<mapsto> insert cid (the (m gid)))))"
  proof (rule spec_conseq [OF members_insert [OF mem nd c cid]], clarify)
    fix cs ih' assume r: "members ((cells gh)(node \<mapsto> c\<lparr>g_client_ids := cs\<rparr>)) ih' (M(node := insert cid (M node))) (set (concat ass))"
      "heap_wf ih'" "ids_limit ih'"
    note pay = table_payload [OF tab c, of "c\<lparr>g_client_ids := cs\<rparr>", simplified]
    show "groups_rep (g, gh\<lparr>cells := (cells gh)(node \<mapsto> c\<lparr>g_client_ids := cs\<rparr>)\<rparr>, ih') (m(gid \<mapsto> insert cid (the (m gid))))"
      by (rule groups_repI [OF _ r(2,3) sz, where ass = ass and M = "M(node := insert cid (M node))"])
        (use wf c r(1) pay ent in simp_all)
  qed
  with c show ?thesis by blast
qed

text \<open>The second half of \<open>groups_insert\<close>: the id is inserted into the set of the node found or created.\<close>

definition groups_put :: "64 word \<Rightarrow> nat \<times> groups \<times> grp heap \<times> ids_heap \<Rightarrow> (bool \<times> groups \<times> grp heap \<times> ids_heap) comp" where
  "groups_put cid = (\<lambda>(node, g, gh, ih). bindC (hget gh node) (\<lambda>c. bindC (cid_set_insert (g_client_ids c) ih cid) (\<lambda>(cs, ih).
     bindC (hput gh node (c\<lparr>g_client_ids := cs\<rparr>)) (\<lambda>gh. ret (False, g, gh, ih)))))"

lemma groups_put_rep:
  assumes "groups_rep (g, gh, ih) m" and "grp_table g (cells gh) ass" and "grp_entry g (cells gh) ass gid = Some node"
  shows "spec (groups_put cid (node, g, gh, ih)) is_exit (\<lambda>(r, g', gh', ih'). \<not> r \<and> cid \<noteq> EMPTY_VAL \<and>
    groups_rep (g', gh', ih') (m(gid \<mapsto> insert cid (the (m gid)))))"
proof (cases "cid = EMPTY_VAL")
  case True
  have "cells gh node \<noteq> None"
    using table_nodes_live [OF assms(2)] ran_entry [OF assms(2)] assms(3) by (metis domIff ranI)
  with True show ?thesis by (auto simp: groups_put_def cid_set_insert_def)
next
  case False
  from groups_insert_at [OF assms False] obtain c where "cells gh node = Some c"
    "spec (cid_set_insert (g_client_ids c) ih cid) is_exit (\<lambda>(cs, ih').
      groups_rep (g, gh\<lparr>cells := (cells gh)(node \<mapsto> c\<lparr>g_client_ids := cs\<rparr>)\<rparr>, ih') (m(gid \<mapsto> insert cid (the (m gid)))))"
    by blast
  with False show ?thesis by (simp add: groups_put_def case_prod_unfold)
qed

lemma groups_insert_split:
  assumes "groups_rep (g, gh, ih) m" and "grp_table g (cells gh) ass"
  shows "groups_insert g gh ih gid cid = bindC (case grp_entry g (cells gh) ass gid of
      Some node \<Rightarrow> ret (Some (node, g, gh, ih)) | None \<Rightarrow> groups_new g gh ih gid)
    (\<lambda>r. case r of None \<Rightarrow> ret (False, g, gh, ih) | Some p \<Rightarrow> groups_put cid p)"
  unfolding groups_insert_def groups_put_def bindC_assoc [symmetric]
  by (simp add: groups_search [OF assms] case_prod_unfold cong: option.case_cong)

lemma groups_insert_rep:
  assumes rep: "groups_rep (g, gh, ih) m" and room: "\<not> (m gid = None \<and> fresh gh (brk gh) \<noteq> None \<and> tight ih)"
  shows "spec (groups_insert g gh ih gid cid) is_exit (\<lambda>(r, g', gh', ih'). \<not> r \<and>
    (if m gid = None \<and> fresh gh (brk gh) = None then (g', gh', ih') = (g, gh, ih)
     else cid \<noteq> EMPTY_VAL \<and> groups_rep (g', gh', ih') (m(gid \<mapsto> insert cid (case m gid of None \<Rightarrow> {} | Some S \<Rightarrow> S)))))"
    (is "spec _ _ ?P")
proof -
  obtain ass M where tab: "grp_table g (cells gh) ass" and m: "\<And>gid. m gid = map_option M (grp_entry g (cells gh) ass gid)"
    using rep by (rule groups_repE) blast
  show ?thesis
  proof (cases "grp_entry g (cells gh) ass gid")
    case (Some node)
    then have "m gid \<noteq> None" using m [of gid] by simp
    then have "spec (groups_put cid (node, g, gh, ih)) is_exit ?P"
      by (intro spec_conseq [OF groups_put_rep [OF rep tab Some]]) auto
    then show ?thesis unfolding groups_insert_split [OF rep tab] Some by (simp only: option.case bindC_simps)
  next
    case None
    then have mg: "m gid = None" using m [of gid] by simp
    then have nt: "\<not> (fresh gh (brk gh) \<noteq> None \<and> tight ih)" using room by simp
    have "spec (case r of None \<Rightarrow> ret (False, g, gh, ih) | Some p \<Rightarrow> groups_put cid p) is_exit ?P"
      if r: "case r of None \<Rightarrow> fresh gh (brk gh) = None
        | Some (node, g', gh', ih') \<Rightarrow> fresh gh (brk gh) \<noteq> None \<and> groups_rep (g', gh', ih') (m(gid \<mapsto> {})) \<and>
            (\<exists>ass. grp_table g' (cells gh') ass \<and> grp_entry g' (cells gh') ass gid = Some node)" for r
    proof (cases r)
      case (Some p)
      obtain node g1 gh1 ih1 where p: "p = (node, g1, gh1, ih1)" by (cases p)
      with r Some obtain ass1 where nn: "fresh gh (brk gh) \<noteq> None" and new: "groups_rep (g1, gh1, ih1) (m(gid \<mapsto> {}))"
        "grp_table g1 (cells gh1) ass1" "grp_entry g1 (cells gh1) ass1 gid = Some node" by auto
      show ?thesis unfolding Some option.case p by (rule spec_conseq [OF groups_put_rep [OF new]]) (use mg nn in auto)
    qed (use r mg in simp)
    then show ?thesis
      unfolding groups_insert_split [OF rep tab] None option.case
      by (rule spec_bindI [OF groups_new_rep [OF rep mg, unfolded if_not_P [OF nt]]])
  qed
qed

lemma groups_insert_tight:
  assumes rep: "groups_rep (g, gh, ih) m" and mg: "m gid = None" and "fresh gh (brk gh) \<noteq> None" and "tight ih"
  shows "groups_insert g gh ih gid cid = fail Out_of_bounds"
proof -
  obtain ass M where tab: "grp_table g (cells gh) ass" and m: "\<And>gid. m gid = map_option M (grp_entry g (cells gh) ass gid)"
    using rep by (rule groups_repE) blast
  then have "grp_entry g (cells gh) ass gid = None" using m [of gid] mg by simp
  moreover have "groups_new g gh ih gid = fail Out_of_bounds" using groups_new_rep [OF rep mg] assms(3,4) by simp
  ultimately show ?thesis unfolding groups_insert_split [OF rep tab] by simp
qed

section \<open>Lookup\<close>

lemma groups_get_rep:
  assumes rep: "groups_rep (g, gh, ih) m"
  shows "spec (groups_get g gh gid) no_fault (\<lambda>r. case m gid of
      None \<Rightarrow> r = None
    | Some S \<Rightarrow> \<exists>cs. r = Some (cid_set_iter cs) \<and> cs_rep (cs, ih) S)"
proof -
  obtain ass M where tab: "grp_table g (cells gh) ass" and mem: "members (cells gh) ih M (set (concat ass))"
    and m: "\<And>gid. m gid = map_option M (grp_entry g (cells gh) ass gid)"
    using rep by (rule groups_repE) blast
  have unf: "groups_get g gh gid = bindC (ret (grp_entry g (cells gh) ass gid)) (\<lambda>found. case found of
       None \<Rightarrow> ret None
     | Some node \<Rightarrow> bindC (hget gh node) (\<lambda>c. ret (Some (cid_set_iter (g_client_ids c)))))"
    unfolding groups_get_def bindC_assoc [symmetric] by (simp only: groups_search [OF rep tab])
  show ?thesis
  proof (cases "grp_entry g (cells gh) ass gid")
    case None
    then show ?thesis unfolding unf using m [of gid] by simp
  next
    case (Some a)
    then have a: "a \<in> set (concat ass)" using ran_entry [OF tab] by (metis ranI)
    then obtain c where c: "cells gh a = Some c" using table_nodes_live [OF tab] by blast
    have "cs_rep (g_client_ids (the (cells gh a)), ih) (M a)" using mem a unfolding members_def by blast
    then show ?thesis unfolding unf using Some c m [of gid] by auto
  qed
qed

section \<open>Properties\<close>

text \<open>A table of two buckets with no group, a heap of groups and the heap of ids of \<open>demo_six\<close>.\<close>

definition demo_groups :: groups where
  "demo_groups = \<lparr>gs_size = 2, gs_buckets = [None, None]\<rparr>"

definition demo_grps :: "grp heap" where
  "demo_grps = empty_heap \<lparr>g_gid = 0, g_client_ids = \<lparr>cs_len = 0, cs_cap = 0, cs_ids = 0\<rparr>, g_next = None\<rparr>"

lemma groups_rep_empty:
  assumes "heap_wf gh" "heap_wf ih" "ids_limit ih" "gs_size g \<noteq> 0"
    "unat (gs_size g) \<le> length (gs_buckets g)" and "\<forall>p\<in>set (gs_buckets g). p = None"
  shows "groups_rep (g, gh, ih) Map.empty"
proof -
  let ?ass = "replicate (length (gs_buckets g)) ([] :: nat list)"
  have "gs_buckets g ! i = None" if "i < length (gs_buckets g)" for i using assms(6) that by auto
  then have "grp_table g (cells gh) ?ass" by (simp add: table_def)
  moreover have "members (cells gh) ih (\<lambda>a. {}) (set (concat ?ass))" by (simp add: members_def)
  moreover have "Map.empty gid = map_option (\<lambda>a. {} :: 64 word set) (grp_entry g (cells gh) ?ass gid)" for gid
    by (simp add: entry_def)
  ultimately show ?thesis by (rule groups_repI [OF assms(1-5)])
qed

lemma tight_demo: "\<not> tight demo_ids" "tight (demo_ids\<lparr>fresh := \<lambda>n. Some []\<rparr>)"
  by (simp_all add: tight_def demo_ids_def empty_heap_def)

lemma demo_groups_rep: "groups_rep (demo_groups, demo_grps, demo_ids) Map.empty"
  by (rule groups_rep_empty) (use demo_ids_ok in \<open>simp_all add: demo_grps_def demo_groups_def\<close>)

lemma demo_groups_tight: "groups_rep (demo_groups, demo_grps, demo_ids\<lparr>fresh := \<lambda>n. Some []\<rparr>) Map.empty"
  by (rule groups_rep_empty) (use demo_ids_ok in \<open>simp_all add: demo_grps_def demo_groups_def heap_wf_def [of "demo_ids\<lparr>fresh := \<lambda>n. Some []\<rparr>"] heap_wf_def [of demo_ids] ids_limit_def\<close>)

text \<open>
  C35. Adding a client to a group: if the group is new, there is memory for it and malloc returns a block of
  exactly the size asked for as its id array, \<open>cid_set_init\<close> writes beyond that block. Otherwise it
  returns, never true: if the group is new and no memory is left for it, nothing changes; if not (the reserved
  id and lack of memory for the id array end the process) the client is a member of the group, which is
  created if needed, its other members and all other groups are as before.
\<close>

theorem groups_insert_correct:
  assumes "groups_rep (g, gh, ih) m"
  shows "if m gid = None \<and> fresh gh (brk gh) \<noteq> None \<and> tight ih then groups_insert g gh ih gid cid = fail Out_of_bounds
    else spec (groups_insert g gh ih gid cid) is_exit (\<lambda>(r, g', gh', ih'). r = False \<and>
    (if m gid = None \<and> fresh gh (brk gh) = None then (g', gh', ih') = (g, gh, ih)
     else cid \<noteq> EMPTY_VAL \<and> groups_rep (g', gh', ih') (m(gid \<mapsto> insert cid (case m gid of None \<Rightarrow> {} | Some S \<Rightarrow> S)))))"
  using groups_insert_rep [OF assms, of gid cid] groups_insert_tight [OF assms, of gid cid] by simp

theorem groups_insert_correct_witness:
  "spec (groups_insert demo_groups demo_grps demo_ids 7 1) is_exit (\<lambda>(r, g', gh', ih').
    r = False \<and> groups_rep (g', gh', ih') [7 \<mapsto> {1}]) \<and>
   groups_insert demo_groups demo_grps (demo_ids\<lparr>fresh := \<lambda>n. Some []\<rparr>) 7 1 = fail Out_of_bounds"
proof
  have "spec (groups_insert demo_groups demo_grps demo_ids 7 1) is_exit (\<lambda>(r, g', gh', ih'). r = False \<and>
    (if fresh demo_grps (brk demo_grps) = None then (g', gh', ih') = (demo_groups, demo_grps, demo_ids)
     else groups_rep (g', gh', ih') [7 \<mapsto> {1}]))"
    using groups_insert_correct [OF demo_groups_rep, of 7 1] by (auto simp: tight_demo elim!: spec_conseq)
  then show "spec (groups_insert demo_groups demo_grps demo_ids 7 1) is_exit (\<lambda>(r, g', gh', ih').
    r = False \<and> groups_rep (g', gh', ih') [7 \<mapsto> {1}])"
    by (rule spec_conseq) (auto simp: demo_grps_def empty_heap_def)
  show "groups_insert demo_groups demo_grps (demo_ids\<lparr>fresh := \<lambda>n. Some []\<rparr>) 7 1 = fail Out_of_bounds"
    using groups_insert_correct [OF demo_groups_tight, of 7 1] by (simp add: tight_demo demo_grps_def empty_heap_def)
qed

text \<open>
  C36. Looking a group up: an unknown group gives false; a known one gives an iterator whose batches are
  the members of the group, each once, and all of them when enough batches are fetched.
\<close>

theorem groups_get_correct:
  assumes "groups_rep (g, gh, ih) m"
  shows "spec (groups_get g gh gid) no_fault (\<lambda>r. case m gid of
      None \<Rightarrow> r = None
    | Some S \<Rightarrow> \<exists>iter. r = Some iter \<and> (\<forall>n k. spec (fetch_batches ih iter n k) no_fault (\<lambda>(xs, iter').
        distinct xs \<and> set xs \<subseteq> S \<and> length xs = min (k * n) (card S) \<and> (card S \<le> k * n \<longrightarrow> set xs = S))))"
  by (rule spec_conseq [OF groups_get_rep [OF assms]]) (use fetch_members in \<open>fastforce split: option.splits\<close>)

theorem groups_get_correct_witness:
  "groups_get demo_groups demo_grps 7 = ret None \<and>
   spec (groups_insert demo_groups demo_grps demo_ids 7 1) is_exit (\<lambda>(r, g', gh', ih').
     spec (groups_get g' gh' 7) no_fault (\<lambda>r. \<exists>iter. r = Some iter \<and>
       spec (fetch_batches ih' iter 1 1) no_fault (\<lambda>(xs, iter'). set xs = {1})))"
proof
  show "groups_get demo_groups demo_grps 7 = ret None"
    using groups_get_correct [OF demo_groups_rep, of 7] by (simp add: spec_ret_iff)
  have "spec (groups_insert demo_groups demo_grps demo_ids 7 1) is_exit (\<lambda>(r, g', gh', ih').
      groups_rep (g', gh', ih') [7 \<mapsto> {1}])"
    using groups_insert_rep [OF demo_groups_rep, of 7 1]
    by (auto simp: demo_grps_def empty_heap_def tight_demo elim!: spec_conseq)
  then show "spec (groups_insert demo_groups demo_grps demo_ids 7 1) is_exit (\<lambda>(r, g', gh', ih').
     spec (groups_get g' gh' 7) no_fault (\<lambda>r. \<exists>iter. r = Some iter \<and>
       spec (fetch_batches ih' iter 1 1) no_fault (\<lambda>(xs, iter'). set xs = {1})))"
  proof (rule spec_conseq, clarify)
    fix r g' gh' ih' assume "groups_rep (g', gh', ih') [7 \<mapsto> {1}]"
    from groups_get_correct [OF this, of 7]
    show "spec (groups_get g' gh' 7) no_fault (\<lambda>r. \<exists>iter. r = Some iter \<and>
       spec (fetch_batches ih' iter 1 1) no_fault (\<lambda>(xs, iter'). set xs = {1}))"
    proof (rule spec_conseq, goal_cases)
      case (1 r)
      then obtain iter where "r = Some iter" and all: "\<forall>n k. spec (fetch_batches ih' iter n k) no_fault (\<lambda>(xs, iter').
        distinct xs \<and> set xs \<subseteq> {1} \<and> length xs = min (k * n) (card {1 :: 64 word}) \<and> (card {1 :: 64 word} \<le> k * n \<longrightarrow> set xs = {1}))"
        by auto
      from all [rule_format, of 1 1] \<open>r = Some iter\<close> show ?case by (auto elim!: spec_conseq)
    qed
  qed
qed

text \<open>
  \<open>groups_create\<close> does not initialise the buckets. With a malloc whose block has the size asked for,
  a block that happens to hold only NULL pointers is an empty table; a block with another pointer in
  the bucket of a group id makes the lookup of that id follow the stray pointer. (A request of
  \<open>2\<^sup>6\<^sup>1\<close> groups wraps to a block without any bucket.)
\<close>

lemma groups_create_uninitialised:
  assumes "\<And>sz b. mal sz = Some b \<Longrightarrow> unat sz = 8 + 8 * length b"
    and "groups_create mal n = Some g" and "n \<noteq> 0" and "unat n < 2 ^ 60"
    and "heap_wf gh" "heap_wf ih" "ids_limit ih"
  shows "groups_size g = n \<and> length (gs_buckets g) = unat n \<and>
    ((\<forall>p\<in>set (gs_buckets g). p = None) \<longrightarrow> groups_rep (g, gh, ih) Map.empty) \<and>
    (\<forall>gid p. gs_buckets g ! grp_bkt n gid = Some p \<and> cells gh p = None \<longrightarrow> groups_get g gh gid = fail Wild_pointer)"
proof -
  from assms(2) obtain b where b: "mal (8 + n * 8) = Some b" and g: "g = \<lparr>gs_size = n, gs_buckets = b\<rparr>"
    by (auto simp: groups_create_def Let_def split: option.splits)
  have "unat (8 + n * 8) = 8 + 8 * unat n" using assms(4) by (simp add: unat_word_ariths)
  then have len: "length b = unat n" using assms(1) [OF b] by simp
  have "groups_get g gh gid = fail Wild_pointer" if "b ! grp_bkt n gid = Some p" "cells gh p = None" for gid p
  proof -
    have "grp_bkt n gid < length b" using len unat_mask_less [OF assms(3), of gid] by (simp add: grp_bkt_def)
    with that g show ?thesis
      by (simp add: groups_get_def aread_def chain_search.simps [of _ _ gh "Some p"] hget_def)
  qed
  then show ?thesis
    using groups_rep_empty [OF assms(5-7), of g] assms(3) len g by (simp add: groups_size_def)
qed

end
