(* ===== verification/Spec2Isabelle.thy ===== *)
theory Spec2Isabelle
  imports Server_Session Server_Isolation Load_Client_Main Group_Table
begin

text \<open>
  \<^bold>\<open>caht, a chat server on io_uring.\<close>

  \<^bold>\<open>The program.\<close> One thread waits for completions of io_uring operations and handles them
  (\<open>src/server.c\<close>, started by \<open>src/main.c\<close>). An operation (\<open>src/op.c\<close>) is an accept, a receive or a
  send; it comes from a pool (\<open>src/op_pool.c\<close>), is named in the ring by its index there, and owns a
  reference-counted buffer of one of two slabs (\<open>src/slab.c\<close>), of 64 or of 2048 bytes. Every connected
  client has a ClientInfo in a hash table keyed by client id (\<open>src/client_map.c\<close>). Requests and answers
  are encoded by \<open>src/protocol.c\<close> with the byte order and system-call helpers of \<open>src/utils.c\<close>. Sets of
  client ids (\<open>src/cid_set.c\<close>) and the table of groups on top of them (\<open>src/groups.c\<close>) exist but are not
  called by the server yet. \<open>src/client.c\<close> is a program of its own that loads a server: it sends numbered ints and
  counts what comes back. \<open>src/test_protocol.c\<close> is a client that checks two exchanges with a running server.

  \<^bold>\<open>How the C code is modelled.\<close> A computation of type \<open>'a comp\<close> (theory \<open>Caht_Prelude\<close>) does not end
  (\<open>None\<close>), ends in a fault (exit, failed assertion, NULL or dangling pointer, access out of bounds) or
  returns; the \<open>memmove\<close> of \<open>handle_recv\<close>, the only one, has a fault of its own. Structs are records; objects that are shared by pointer live in heaps with an allocator that
  may fail; a pointer is an address or \<open>None\<close>; arrays are lists with checked access; \<open>size_t\<close>, \<open>uint64_t\<close>
  and the fields of the wire format are words of their width, so that they wrap. Loops are structural
  recursion where the bound is known and \<open>partial_function (option)\<close> otherwise; a claim that such a loop
  returns is proved as such. \<open>spec m F P\<close> says that \<open>m\<close> ends, in a fault of \<open>F\<close> or with a result in \<open>P\<close>.

  \<^bold>\<open>Theories.\<close>
  \<^item> \<open>Caht_Prelude\<close>: computations, faults, heaps, checked arrays, counted loops; \<open>Recycler\<close>: the contract of
    pools that hand objects out and take them back, as a locale; \<open>Chain\<close>: hash tables of linked nodes.
  \<^item> \<open>Utils\<close>: \<open>src/utils.c\<close>. \<open>htonll\<close> gives network order on any host; \<open>closest_prime\<close> ends with the least prime.
  \<^item> \<open>Slab\<close>, \<open>Op_Pool\<close>: \<open>src/slab.c\<close>; \<open>src/op.c\<close> and \<open>src/op_pool.c\<close>. Both interpret the locale of \<open>Recycler\<close>.
  \<^item> \<open>Client_Map\<close>: \<open>src/client_map.c\<close>, refined to a finite map from client ids to ClientInfos.
  \<^item> \<open>Cid_Set\<close>, \<open>Group_Table\<close>: \<open>src/cid_set.c\<close>, \<open>src/groups.c\<close>, refined to sets of ids and finite maps to such sets.
    \<open>cid_set_init\<close> writes one word past the eight it asks for: a block of exactly eight words (\<open>tight\<close>) is an
    access out of bounds, a longer one takes the write, and both cases are stated.
  \<^item> \<open>Protocol\<close>: \<open>src/protocol.c\<close>: what is serialised by a host of either byte order is parsed by any other.
  \<^item> \<open>Server\<close>: the definitions of \<open>src/server.c\<close>, one per function, in the order of the file. The state is the
    Server struct with the pool, slabs, client map and heaps it points to, the static client id counter,
    and what the outside sees: entries prepared (\<open>sv_sq\<close>) and in flight (\<open>sv_flight\<close>), closed descriptors, the log.
  \<^item> \<open>Server_Mem\<close>: who owns which operation and buffer, kept by the helpers; \<open>Server_Ring\<close>: how operations and
    entries of the ring belong together, kept by the functions that prepare entries; \<open>Server_Handlers\<close>: the
    invariant \<open>srv_inv\<close> and the handlers; \<open>Server_Run\<close>: legal completions, rounds of the loop and \<open>server_start\<close>.
  \<^item> \<open>Server_Main\<close>: \<open>src/main.c\<close>. What it builds meets the premises of \<open>server_start\<close>.
  \<^item> \<open>Server_Stream\<close>: a receive that holds several requests, against the list of requests (\<open>answer_of\<close>, \<open>store_name\<close>).
  \<^item> \<open>Machine\<close>: runs of machines driven by events, as an inductive relation, with a locale for their
    invariants; \<open>Server_Steps\<close> interprets it for the server, one completion or submission at a time.
  \<^item> \<open>Server_Props\<close>, \<open>Server_Steps\<close>, \<open>Server_Events\<close>, \<open>Server_Live\<close>: the properties of the server, of whole runs, of any
    interleaving of steps, of single events, and of what gets done in the end.
  \<^item> \<open>Parse_Int\<close>, \<open>Load_Client\<close>: the definitions of \<open>src/client.c\<close>, one per function, with the parts of \<open>main\<close> and of
    \<open>run_client\<close> as functions of their own. Its buffers are blocks of a heap, because entries of the ring and
    their user data point into them. \<open>Load_Client_Run\<close>: one run, from slots to the loop; \<open>Load_Client_Main\<close>: the
    connections and buffers of \<open>main\<close>, and the properties.
  \<^item> \<open>Protocol_Test\<close>: the definitions of \<open>src/test_protocol.c\<close>, one per function, and how its two tests end in
    terms of what they receive. \<open>Server_Session\<close> puts a client and the server together: bytes that the client's
    serialiser or a test wrote are what the server receives, and the bytes it sends are what they get back.
  \<^item> \<open>Server_Isolation\<close>: \<open>Machine\<close> interpreted once more, for what the events of other clients leave alone. It
    rests on \<open>profile\<close> and \<open>spares\<close> of \<open>Client_Map\<close> and on \<open>peers\<close>, which the handlers of \<open>Server_Handlers\<close> carry.

  \<^bold>\<open>What is shown of the server.\<close> No sequence of legal completions makes it diverge, fail an assertion or
  touch memory it does not own, except for the \<open>memmove\<close> of \<open>handle_recv\<close> (\<open>Memmove_overrun\<close>); each entry of the ring
  names an operation in use, each such operation has one entry and its own buffer, and exactly one of them accepts; whole
  requests are answered in order, each once; partial sends
  are completed, so that answers are delivered in full; gone clients are forgotten once. No event of one client
  changes what the server knows of another. End to end, a SET_USERNAME request written by the serialiser on any
  host comes back as one answer that any host reads, and the first test of \<open>src/test_protocol.c\<close> passes; the
  second depends on memory it never wrote. Where the code does not do what it means to, the failure is a
  theorem as well: the copy that leaves the buffer, the rest and the beginning of a request that are lost,
  the request of length 0 and the failed accept that end the process.

  \<^bold>\<open>What is shown of the load client.\<close> A run sends every message once and in order and stays inside its buffers, as
  long as the entries in flight name live buffers. \<open>main\<close> waits neither for sends nor for receives before it frees their
  buffers. With at most 100 messages there are no receives and the program's own code touches only live memory, but its
  sends can still be in flight when their buffers are gone; with more, the next run reads freed memory when a
  receive of the run before completes late.

  \<^bold>\<open>Parameters and bounds.\<close> liburing, the system calls and the memory allocator are parameters. What is
  assumed of them: a submission queue has finitely many entries (\<open>env_ok N\<close>, with \<open>N\<close> = 4096 in \<open>main\<close>), closing
  descriptor -1 fails, a completion belongs to an entry in flight and reports at most the length asked for
  (\<open>legal_cqe\<close>, \<open>client_legal\<close>), and \<open>io_uring_submit\<close> takes all prepared entries or fails. Sizes of arrays in bytes are
  numbers: their wrap-around for capacities near \<open>2\<^sup>6\<^sup>4\<close> is not modelled. Runs have fewer than \<open>2\<^sup>6\<^sup>4 - 3\<close> completions, so that client ids do not repeat. The only fuel in
  the development is the list of rounds of the endless loop of \<open>server_start\<close>.

  \<^bold>\<open>Not modelled.\<close> Output that is only for the operator, other than the connection log. The writes of the
  kernel are placed right before the completion they belong to; only the operation concerned uses that memory. When the
  kernel reads the buffer of a send of the load client is not an event; which sends may still be read is stated.
  \<open>inet_ntop\<close> cannot fail on an IPv4 address and a buffer of \<open>INET_ADDRSTRLEN\<close>. The macro \<open>ROUND_UP_POW_2\<close> of
  \<open>src/utils.h\<close> is not used and does not compile. A send of the load client that succeeds has no completion and
  stays among the entries in flight of the model; that \<open>client.c\<close> reads a completion after it has given it back to the
  ring has no effect there. \<open>src/tests\<close> holds unit tests: programs without
  logic of their own that call the modelled functions on fixed inputs.
\<close>

end
